(* ===== verification/Prelude.thy ===== *)
theory Prelude
  imports Complex_Main "HOL-Library.Word" "HOL-Library.Char_ord" "HOL-Library.List_Lexorder"
    "HOL-Library.Product_Lexorder" "HOL-Library.Log_Nat" "HOL-Library.Multiset"
begin

text \<open>
  Shared vocabulary of the development: decimal printing of integers (\<open>std::to_string\<close> and
  stream output), association lists for \<open>std::map\<close> and \<open>std::unordered_map\<close>, substring search,
  and the collections of rewrite rules that the component theories feed to the simplifier.
\<close>

named_theorems std_map_simps \<open>laws of the association lists that stand for std::map\<close>
named_theorems print_simps \<open>laws of decimal printing\<close>
named_theorems handler_simps \<open>unfolding of handlers and the calls they make\<close>

section \<open>Decimal printing\<close>

definition digit_char :: "nat \<Rightarrow> char" where
  "digit_char d = char_of (48 + d)"

definition is_digit :: "char \<Rightarrow> bool" where
  "is_digit c \<longleftrightarrow> 48 \<le> (of_char c :: nat) \<and> (of_char c :: nat) \<le> 57"

definition digit_val :: "char \<Rightarrow> nat" where
  "digit_val c = of_char c - 48"

text \<open>Digits of a natural number, most significant first, as \<open>operator<<\<close> writes them.\<close>

fun show_nat :: "nat \<Rightarrow> string" where
  "show_nat n = (if n < 10 then [digit_char n] else show_nat (n div 10) @ [digit_char (n mod 10)])"

declare show_nat.simps [simp del]

definition show_int :: "int \<Rightarrow> string" where
  "show_int i = (if i < 0 then CHR ''-'' # show_nat (nat (- i)) else show_nat (nat i))"

text \<open>Value of a digit string, the inverse of \<open>show_nat\<close>.\<close>

definition digits_val :: "string \<Rightarrow> nat" where
  "digits_val s = foldl (\<lambda>a c. 10 * a + digit_val c) 0 s"

text \<open>\<open>setfill('0') << setw(w)\<close>: left padding with zeros.\<close>

definition pad_zero :: "nat \<Rightarrow> string \<Rightarrow> string" where
  "pad_zero w s = replicate (w - length s) CHR ''0'' @ s"

lemma of_char_digit_char [print_simps]: "d < 10 \<Longrightarrow> (of_char (digit_char d) :: nat) = 48 + d"
  by (simp add: digit_char_def)

lemma digit_char_simps [simp]:
  "digit_char 0 = CHR ''0''" "digit_char 1 = CHR ''1''" "digit_char (Suc 0) = CHR ''1''"
  "digit_char 2 = CHR ''2''" "digit_char 3 = CHR ''3''" "digit_char 4 = CHR ''4''"
  "digit_char 5 = CHR ''5''" "digit_char 6 = CHR ''6''" "digit_char 7 = CHR ''7''"
  "digit_char 8 = CHR ''8''" "digit_char 9 = CHR ''9''"
  by (simp_all add: digit_char_def char_of_def bit_0)

lemma is_digit_digit_char [print_simps]: "d < 10 \<Longrightarrow> is_digit (digit_char d)"
  by (simp add: is_digit_def of_char_digit_char)

lemma digit_val_digit_char [print_simps]: "d < 10 \<Longrightarrow> digit_val (digit_char d) = d"
  by (simp add: digit_val_def of_char_digit_char)

lemma show_nat_nonempty [simp]: "show_nat n \<noteq> []"
  by (subst show_nat.simps) simp

lemma show_nat_digits: "c \<in> set (show_nat n) \<Longrightarrow> is_digit c"
proof (induction n rule: show_nat.induct)
  case (1 n)
  then show ?case
    by (cases "n < 10") (auto simp: show_nat.simps [of n] print_simps)
qed

lemma digits_val_snoc [print_simps]: "digits_val (s @ [c]) = 10 * digits_val s + digit_val c"
  by (simp add: digits_val_def)

lemma digits_val_show_nat [simp]: "digits_val (show_nat n) = n"
proof (induction n rule: show_nat.induct)
  case (1 n)
  show ?case
  proof (cases "n < 10")
    case True
    then show ?thesis by (simp add: show_nat.simps [of n] digits_val_def print_simps)
  next
    case False
    with 1 have "digits_val (show_nat (n div 10)) = n div 10" by simp
    with False show ?thesis
      by (simp add: show_nat.simps [of n] print_simps)
  qed
qed

lemma show_nat_inject [simp]: "show_nat m = show_nat n \<longleftrightarrow> m = n"
  by (metis digits_val_show_nat)

lemma show_nat_not_minus: "show_nat n \<noteq> CHR ''-'' # s"
  using show_nat_digits [of "CHR ''-''" n] by (auto simp: is_digit_def)

lemma show_int_inject [simp]: "show_int i = show_int j \<longleftrightarrow> i = j"
  using show_nat_not_minus [symmetric] show_nat_not_minus
  by (auto simp: show_int_def)

lemma show_int_nonempty [simp]: "show_int i \<noteq> []"
  by (simp add: show_int_def)

lemma show_nat_hd_nonzero: "0 < n \<Longrightarrow> hd (show_nat n) \<noteq> CHR ''0''"
proof (induction n rule: show_nat.induct)
  case (1 n)
  show ?case
  proof (cases "n < 10")
    case True
    with 1 have "(of_char (digit_char n) :: nat) \<noteq> of_char CHR ''0''"
      by (simp add: of_char_digit_char)
    with True show ?thesis by (auto simp: show_nat.simps [of n])
  next
    case False
    with 1 show ?thesis by (simp add: show_nat.simps [of n])
  qed
qed

section \<open>Association lists\<close>

text \<open>
  A \<open>std::map\<close> is the list of its nodes in key order, so that iterating over the map is
  iterating over the list. \<open>map_put\<close> is \<open>m[k] = v\<close>; \<open>map_emplace\<close> is \<open>m.emplace(k, v)\<close>,
  which leaves an existing node as it is; \<open>map_adjust\<close> applies a member function to the node
  a reference points to.
\<close>

fun map_put :: "'k::linorder \<Rightarrow> 'v \<Rightarrow> ('k \<times> 'v) list \<Rightarrow> ('k \<times> 'v) list" where
  "map_put k v [] = [(k, v)]"
| "map_put k v ((a, b) # ps) =
     (if k < a then (k, v) # (a, b) # ps
      else if k = a then (k, v) # ps
      else (a, b) # map_put k v ps)"

definition map_emplace :: "'k::linorder \<Rightarrow> 'v \<Rightarrow> ('k \<times> 'v) list \<Rightarrow> ('k \<times> 'v) list" where
  "map_emplace k v m = (case map_of m k of None \<Rightarrow> map_put k v m | Some _ \<Rightarrow> m)"

fun map_adjust :: "'k \<Rightarrow> ('v \<Rightarrow> 'v) \<Rightarrow> ('k \<times> 'v) list \<Rightarrow> ('k \<times> 'v) list" where
  "map_adjust k f [] = []"
| "map_adjust k f ((a, b) # ps) = (if a = k then (a, f b) # ps else (a, b) # map_adjust k f ps)"

text \<open>
  A \<open>std::unordered_map\<close> iterates in an order the standard leaves open. Its state is an
  association list without duplicate keys; a new key goes to the end, and code that iterates
  takes the iteration order as an argument.
\<close>

fun umap_put :: "'k \<Rightarrow> 'v \<Rightarrow> ('k \<times> 'v) list \<Rightarrow> ('k \<times> 'v) list" where
  "umap_put k v [] = [(k, v)]"
| "umap_put k v ((a, b) # ps) = (if a = k then (a, v) # ps else (a, b) # umap_put k v ps)"

abbreviation map_sorted :: "('k::linorder \<times> 'v) list \<Rightarrow> bool" where
  "map_sorted m \<equiv> sorted_wrt (<) (map fst m)"

lemma map_of_map_put [simp, std_map_simps]:
  "map_of (map_put k v m) = (map_of m)(k \<mapsto> v)"
  by (induction k v m rule: map_put.induct) (auto simp: fun_eq_iff)

lemma fst_set_map_put: "fst ` set (map_put k v m) = insert k (fst ` set m)"
  by (induction k v m rule: map_put.induct) auto

lemma map_sorted_map_put [intro]: "map_sorted m \<Longrightarrow> map_sorted (map_put k v m)"
proof (induction k v m rule: map_put.induct)
  case (2 k v a b ps)
  then show ?case
    using fst_set_map_put [of k v ps] by auto
qed simp

lemma map_of_map_emplace [simp, std_map_simps]:
  "map_of (map_emplace k v m) =
     (\<lambda>x. if x = k \<and> map_of m k = None then Some v else map_of m x)"
  by (auto simp: map_emplace_def fun_eq_iff split: option.splits)

lemma map_sorted_map_emplace [intro]: "map_sorted m \<Longrightarrow> map_sorted (map_emplace k v m)"
  by (auto simp: map_emplace_def split: option.splits)

lemma map_of_map_adjust [simp, std_map_simps]:
  "map_of (map_adjust k f m) x = (if x = k then map_option f (map_of m k) else map_of m x)"
  by (induction k f m rule: map_adjust.induct) auto

lemma map_fst_map_adjust [simp, std_map_simps]: "map fst (map_adjust k f m) = map fst m"
  by (induction k f m rule: map_adjust.induct) auto

lemma map_of_umap_put [simp, std_map_simps]:
  "map_of (umap_put k v m) = (map_of m)(k \<mapsto> v)"
  by (induction k v m rule: umap_put.induct) (auto simp: fun_eq_iff)

lemma map_fst_umap_put [std_map_simps]:
  "map fst (umap_put k v m) = (if k \<in> fst ` set m then map fst m else map fst m @ [k])"
  by (induction k v m rule: umap_put.induct) auto

lemma distinct_umap_put [intro]: "distinct (map fst m) \<Longrightarrow> distinct (map fst (umap_put k v m))"
  by (auto simp: map_fst_umap_put)

lemma map_sorted_distinct: "map_sorted m \<Longrightarrow> distinct (map fst m)"
  by (simp add: strict_sorted_iff)

lemma length_map_put:
  "map_sorted m \<Longrightarrow> length (map_put k v m) = (if k \<in> fst ` set m then length m else Suc (length m))"
proof (induction k v m rule: map_put.induct)
  case (2 k v a b ps)
  then show ?case by (auto dest: order.strict_trans)
qed simp

section \<open>Strings\<close>

text \<open>\<open>s.find(sub) != npos\<close>.\<close>

fun contains_sub :: "string \<Rightarrow> string \<Rightarrow> bool" where
  "contains_sub sub [] = (sub = [])"
| "contains_sub sub (c # s) = (take (length sub) (c # s) = sub \<or> contains_sub sub s)"

lemma contains_sub_iff: "contains_sub sub s \<longleftrightarrow> (\<exists>p q. s = p @ sub @ q)"
proof (induction s)
  case Nil
  then show ?case by auto
next
  case (Cons c s)
  show ?case
  proof
    assume "contains_sub sub (c # s)"
    then consider "take (length sub) (c # s) = sub" | "contains_sub sub s" by auto
    then show "\<exists>p q. c # s = p @ sub @ q"
    proof cases
      case 1
      then have "c # s = [] @ sub @ drop (length sub) (c # s)"
        by (metis append_Nil append_take_drop_id)
      then show ?thesis by blast
    next
      case 2
      with Cons.IH obtain p q where "s = p @ sub @ q" by blast
      then have "c # s = (c # p) @ sub @ q" by simp
      then show ?thesis by blast
    qed
  next
    assume "\<exists>p q. c # s = p @ sub @ q"
    then obtain p q where eq: "c # s = p @ sub @ q" by blast
    show "contains_sub sub (c # s)"
    proof (cases p)
      case Nil
      with eq show ?thesis by (metis append_Nil append_eq_conv_conj contains_sub.simps(2))
    next
      case (Cons d p')
      with eq Cons.IH show ?thesis by auto
    qed
  qed
qed

declare contains_sub.simps [simp del]

text \<open>\<open>(b ? "true" : "false")\<close>, the rendering of booleans in labels and log lines.\<close>

definition show_bool :: "bool \<Rightarrow> string" where
  "show_bool b = (if b then ''true'' else ''false'')"

lemma show_bool_inject [simp]: "show_bool a = show_bool b \<longleftrightarrow> a = b"
  by (simp add: show_bool_def)

text \<open>The character \<open>\<^verbatim>\<open>"\<close>\<close>, the backslash and the line feed.\<close>

abbreviation dq :: char where "dq \<equiv> CHR 0x22"
abbreviation bsl :: char where "bsl \<equiv> CHR 0x5C"
abbreviation nl :: char where "nl \<equiv> CHR 0x0A"
abbreviation cr :: char where "cr \<equiv> CHR 0x0D"

section \<open>Results\<close>

text \<open>A throwing call followed by the rest of its block: \<open>Inl\<close> is the exception.\<close>

definition sum_bind :: "'e + 'a \<Rightarrow> ('a \<Rightarrow> 'e + 'b) \<Rightarrow> 'e + 'b" where
  "sum_bind m f = (case m of Inl e \<Rightarrow> Inl e | Inr x \<Rightarrow> f x)"

lemma sum_bind_simps [simp]:
  "sum_bind (Inl e) f = Inl e"
  "sum_bind (Inr x) f = f x"
  by (simp_all add: sum_bind_def)

lemma sum_bind_cong [fundef_cong]:
  "m = m' \<Longrightarrow> (\<And>x. m' = Inr x \<Longrightarrow> f x = g x) \<Longrightarrow> sum_bind m f = sum_bind m' g"
  by (cases m') auto

lemma sum_bind_eq_Inr_iff:
  "sum_bind m f = Inr y \<longleftrightarrow> (\<exists>x. m = Inr x \<and> f x = Inr y)"
  by (cases m) auto

end
