(* ===== verification/Double.thy ===== *)
theory Double
  imports Prelude
begin

text \<open>
  The C++ type \<open>double\<close> as the metrics, the JSON library and the database layer use it: IEEE 754
  binary64 with round-to-nearest-even. A finite value is the rational number it denotes, so
  \<open>+0.0\<close> and \<open>-0.0\<close> are one value; every arithmetic result goes through \<open>round64\<close>, which keeps
  53 significant bits, the subnormal spacing \<open>2 ^ -1074\<close> and the overflow to infinity.
  \<open>show_fixed\<close> is stream output with \<open>std::fixed << std::setprecision(p)\<close>.
\<close>

datatype double = Fin rat | Inf bool | NaN

section \<open>Rounding\<close>

text \<open>The exponent \<open>e\<close> with \<open>2 ^ e \<le> x < 2 ^ (e + 1)\<close>, for \<open>x > 0\<close>.\<close>

definition ilog2 :: "rat \<Rightarrow> int" where
  "ilog2 x =
     (let (p, q) = quotient_of x;
          e = bitlen p - bitlen q
      in if 2 powi e \<le> x then e else e - 1)"

definition round_half_even :: "rat \<Rightarrow> int" where
  "round_half_even x =
     (let f = \<lfloor>x\<rfloor>; d = x - of_int f
      in if d < 1/2 then f else if 1/2 < d then f + 1 else if even f then f else f + 1)"

text \<open>Exponent of the spacing of doubles around \<open>x\<close>.\<close>

definition ulp_exp :: "rat \<Rightarrow> int" where
  "ulp_exp x = max (ilog2 \<bar>x\<bar> - 52) (- 1074)"

definition round64 :: "rat \<Rightarrow> double" where
  "round64 x =
     (if x = 0 then Fin 0
      else let u = 2 powi ulp_exp x; y = of_int (round_half_even (x / u)) * u
           in if y \<noteq> 0 \<and> 1024 \<le> ilog2 \<bar>y\<bar> then Inf (y < 0) else Fin y)"

fun dadd :: "double \<Rightarrow> double \<Rightarrow> double" where
  "dadd (Fin a) (Fin b) = round64 (a + b)"
| "dadd NaN _ = NaN"
| "dadd _ NaN = NaN"
| "dadd (Inf s) (Inf t) = (if s = t then Inf s else NaN)"
| "dadd (Inf s) (Fin _) = Inf s"
| "dadd (Fin _) (Inf t) = Inf t"

fun dle :: "double \<Rightarrow> double \<Rightarrow> bool" where
  "dle (Fin a) (Fin b) = (a \<le> b)"
| "dle NaN _ = False"
| "dle _ NaN = False"
| "dle (Inf s) (Inf t) = (s \<or> \<not> t)"
| "dle (Inf s) (Fin _) = s"
| "dle (Fin _) (Inf t) = (\<not> t)"

text \<open>A decimal literal, or the quotient of an integer by \<open>1000.0\<close>: the nearest double.\<close>

definition dlit :: "int \<Rightarrow> int \<Rightarrow> double" where
  "dlit n d = round64 (of_int n / of_int d)"

section \<open>Exactness\<close>

lemma bitlen_rat_bounds:
  assumes "0 < n"
  shows "2 powi (bitlen n - 1) \<le> (of_int n :: rat)" and "(of_int n :: rat) < 2 powi bitlen n"
proof -
  have pos: "1 \<le> bitlen n"
    using assms bitlen_eq_zero_iff [of n] bitlen_nonneg [of n] by linarith
  have "(of_int (2 ^ nat (bitlen n - 1)) :: rat) \<le> of_int n"
    and "(of_int n :: rat) < of_int (2 ^ nat (bitlen n))"
    using bitlen_bounds [OF assms] by (simp_all only: of_int_le_iff of_int_less_iff)
  with pos show "2 powi (bitlen n - 1) \<le> (of_int n :: rat)" "(of_int n :: rat) < 2 powi bitlen n"
    by (simp_all add: power_int_def)
qed

lemma ilog2_bounds:
  assumes "0 < x"
  shows "2 powi ilog2 x \<le> x" and "x < 2 powi (ilog2 x + 1)"
proof -
  obtain p q where pq: "quotient_of x = (p, q)" by fastforce
  then have x: "x = of_int p / of_int q" and q: "0 < q"
    by (auto simp: quotient_of_div quotient_of_denom_pos)
  with assms have p: "0 < p" by (simp add: zero_less_divide_iff)
  define a b where "a = bitlen p" and "b = bitlen q"
  have pb: "2 powi (a - 1) \<le> (of_int p :: rat)" "(of_int p :: rat) < 2 powi a"
    using bitlen_rat_bounds [of p] p by (simp_all add: a_def)
  have qb: "2 powi (b - 1) \<le> (of_int q :: rat)" "(of_int q :: rat) < 2 powi b"
    using bitlen_rat_bounds [of q] q by (simp_all add: b_def)
  have up: "x < 2 powi (a - b + 1)"
  proof -
    have "x < 2 powi a / 2 powi (b - 1)"
      unfolding x using pb qb q p by (intro frac_less) auto
    also have "\<dots> = 2 powi (a - b + 1)"
      by (simp add: power_int_diff power_int_add)
    finally show ?thesis .
  qed
  have lo: "2 powi (a - b - 1) \<le> x"
  proof -
    have "2 powi (a - b - 1) = 2 powi (a - 1) / (2 powi b :: rat)"
      by (simp add: power_int_diff power_int_add)
    also have "\<dots> \<le> x"
      unfolding x using pb qb q p by (intro frac_le) auto
    finally show ?thesis .
  qed
  have e: "ilog2 x = (if 2 powi (a - b) \<le> x then a - b else a - b - 1)"
    by (simp add: ilog2_def pq a_def b_def)
  show "2 powi ilog2 x \<le> x" using lo by (simp add: e)
  show "x < 2 powi (ilog2 x + 1)" using up by (simp add: e)
qed

lemma round_half_even_of_int [simp]: "round_half_even (of_int n) = n"
  by (simp add: round_half_even_def)

lemma powi_diff_int:
  assumes "j \<le> i"
  shows "\<exists>n::int. (2 powi i / 2 powi j :: rat) = of_int n"
proof
  have "(2 powi i / 2 powi j :: rat) = 2 powi (i - j)" by (simp add: power_int_diff)
  also have "\<dots> = of_int (2 ^ nat (i - j))" using assms by (simp add: power_int_def)
  finally show "(2 powi i / 2 powi j :: rat) = of_int (2 ^ nat (i - j))" .
qed

lemma ulp_exp_le:
  assumes m: "\<bar>m\<bar> < 2 ^ 53" "m \<noteq> 0" and k: "- 1074 \<le> k" and x: "x = of_int m * 2 powi k"
  shows "ulp_exp x \<le> k"
proof -
  have pos: "0 < \<bar>x\<bar>" using m by (simp add: x)
  have "(of_int \<bar>m\<bar> :: rat) < of_int (2 ^ 53)" using m by (simp only: of_int_less_iff)
  then have "\<bar>x\<bar> < 2 ^ 53 * 2 powi k" by (simp add: x abs_mult)
  also have "\<dots> = (2::rat) powi (k + 53)" by (simp add: power_int_add)
  finally have "2 powi ilog2 \<bar>x\<bar> < (2::rat) powi (k + 53)"
    using ilog2_bounds(1) [OF pos] by linarith
  then have "ilog2 \<bar>x\<bar> < k + 53"
    using power_int_increasing [of "k + 53" "ilog2 \<bar>x\<bar>" "2::rat"] by (cases "ilog2 \<bar>x\<bar> < k + 53") auto
  with k show ?thesis by (simp add: ulp_exp_def)
qed

lemma round64_exact:
  assumes m: "\<bar>m\<bar> < 2 ^ 53" "- 1074 \<le> k" and x: "x = of_int m * 2 powi k" and big: "ilog2 \<bar>x\<bar> < 1024"
  shows "round64 x = Fin x"
proof (cases "m = 0")
  case True
  then show ?thesis by (simp add: x round64_def)
next
  case False
  then have le: "ulp_exp x \<le> k" using ulp_exp_le assms by blast
  obtain n where n: "(2 powi k / 2 powi ulp_exp x :: rat) = of_int n"
    using powi_diff_int [OF le] by blast
  have "x / 2 powi ulp_exp x = of_int (m * n)"
    using n by (metis of_int_mult times_divide_eq_right x)
  then have y: "of_int (round_half_even (x / 2 powi ulp_exp x)) * 2 powi ulp_exp x = x"
    by (metis nonzero_eq_divide_eq power_int_not_zero round_half_even_of_int zero_neq_numeral)
  from False have "x \<noteq> 0" by (simp add: x)
  with y big show ?thesis by (simp add: round64_def Let_def)
qed

lemma ilog2_less:
  assumes "0 < x" "x < 2 powi k"
  shows "ilog2 x < k"
proof (rule ccontr)
  assume "\<not> ilog2 x < k"
  then have "2 powi k \<le> (2::rat) powi ilog2 x" by (intro power_int_increasing) auto
  with ilog2_bounds(1) [OF assms(1)] assms(2) show False by linarith
qed

lemma ilog2_small_int: "\<bar>n\<bar> < 2 ^ 60 \<Longrightarrow> n \<noteq> 0 \<Longrightarrow> ilog2 \<bar>of_int n\<bar> < 1024"
proof -
  assume n: "\<bar>n\<bar> < 2 ^ 60" "n \<noteq> 0"
  then have "(of_int \<bar>n\<bar> :: rat) < of_int (2 ^ 60)" by (simp only: of_int_less_iff)
  then have "ilog2 \<bar>of_int n\<bar> < 60" using n by (intro ilog2_less) auto
  then show ?thesis by simp
qed

lemma round64_int:
  assumes "\<bar>n\<bar> \<le> 2 ^ 53"
  shows "round64 (of_int n) = Fin (of_int n)"
proof (cases "\<bar>n\<bar> = 2 ^ 53")
  case False
  with assms have n: "\<bar>n\<bar> < 2 ^ 53" by simp
  show ?thesis
  proof (cases "n = 0")
    case True
    then show ?thesis by (simp add: round64_def)
  next
    case False
    with n show ?thesis by (intro round64_exact [of n 0] ilog2_small_int) auto
  qed
next
  case True
  then have "n = sgn n * 2 ^ 53" by (simp add: sgn_if abs_if split: if_splits)
  then have "(of_int n :: rat) = of_int (sgn n) * 2 powi 53"
    by (metis of_int_mult of_int_numeral of_int_power power_int_numeral)
  with True show ?thesis
    by (intro round64_exact [of "sgn n" 53] ilog2_small_int) (auto simp: sgn_if)
qed

section \<open>Rounding again\<close>

lemma round_half_even_minus [simp]: "round_half_even (- x) = - round_half_even x"
proof (cases "x = of_int \<lfloor>x\<rfloor>")
  case True
  then show ?thesis by (metis of_int_minus round_half_even_of_int)
next
  case False
  define f where "f = \<lfloor>x\<rfloor>"
  have b: "of_int f \<le> x" "x < of_int f + 1" unfolding f_def by linarith+
  then have "of_int f < x" using False unfolding f_def by linarith
  then have fl: "\<lfloor>- x\<rfloor> = - f - 1" using b by (intro floor_unique) simp_all
  show ?thesis unfolding round_half_even_def Let_def fl f_def [symmetric] by (auto simp: field_simps)
qed

lemma ulp_exp_minus [simp]: "ulp_exp (- x) = ulp_exp x"
  by (simp add: ulp_exp_def)

lemma round64_minus: "round64 x = Fin y \<Longrightarrow> round64 (- x) = Fin (- y)"
  by (auto simp: round64_def Let_def split: if_splits)

lemma round64_idem:
  assumes "round64 x = Fin y"
  shows "round64 y = Fin y"
proof (cases "x = 0")
  case True
  with assms show ?thesis by (simp add: round64_def)
next
  case False
  define u n where "u = ulp_exp x" and "n = round_half_even (x / 2 powi u)"
  have y: "y = of_int n * 2 powi u" "y = 0 \<or> ilog2 \<bar>y\<bar> < 1024"
    using assms False by (auto simp: round64_def Let_def u_def n_def split: if_splits)
  have u: "- 1074 \<le> u" "ilog2 \<bar>x\<bar> - 52 \<le> u" by (simp_all add: u_def ulp_exp_def)
  have "\<bar>x\<bar> < 2 powi (ilog2 \<bar>x\<bar> + 1)" using ilog2_bounds(2) [of "\<bar>x\<bar>"] False by simp
  also have "\<dots> \<le> 2 powi (u + 53)" using u(2) by (intro power_int_increasing) simp_all
  finally have "\<bar>x / 2 powi u\<bar> < of_int (2 ^ 53)"
    by (simp add: abs_div power_int_add field_simps)
  moreover have "of_int \<bar>round_half_even z\<bar> \<le> \<bar>z\<bar> + 1 / 2" for z
    unfolding round_half_even_def Let_def by (cases "0 \<le> z"; auto; linarith)
  ultimately have "of_int \<bar>n\<bar> < (of_int (2 ^ 53) + 1 / 2 :: rat)" unfolding n_def by (metis add_strict_right_mono le_less_trans)
  then have n: "\<bar>n\<bar> \<le> 2 ^ 53" by linarith
  show ?thesis
  proof (cases "\<bar>n\<bar> = 2 ^ 53")
    case False
    show ?thesis
    proof (cases "n = 0")
      case True
      then show ?thesis using y by (simp add: round64_def)
    next
      case False
      with n \<open>\<bar>n\<bar> \<noteq> 2 ^ 53\<close> y u(1) show ?thesis by (intro round64_exact [of n u]) auto
    qed
  next
    case True
    then have n: "n = sgn n * 2 ^ 53" "sgn n \<noteq> 0" by (auto simp: sgn_if abs_if split: if_splits)
    have "(of_int n :: rat) = of_int (sgn n) * 2 ^ 53" by (subst n(1)) simp
    then have "y = of_int (sgn n) * 2 powi (u + 53)" by (simp add: y(1) power_int_add)
    moreover have "y \<noteq> 0" using n by (auto simp: y(1))
    ultimately have "y = of_int (sgn n) * 2 powi (u + 53)" "y \<noteq> 0" .
    with y(2) u(1) show ?thesis by (intro round64_exact [of "sgn n" "u + 53"]) (auto simp: sgn_if)
  qed
qed

section \<open>Stream output\<close>

text \<open>
  \<open>os << std::fixed << std::setprecision(p) << x\<close>: the exact value rounded half-even to \<open>p\<close>
  decimals, a minus sign for negative values (also when the digits are all zero).
\<close>

definition show_scaled :: "nat \<Rightarrow> nat \<Rightarrow> string" where
  "show_scaled p n =
     show_nat (n div 10 ^ p) @
     (if p = 0 then [] else CHR ''.'' # pad_zero p (show_nat (n mod 10 ^ p)))"

fun show_fixed :: "nat \<Rightarrow> double \<Rightarrow> string" where
  "show_fixed p (Fin x) =
     (if x < 0 then ''-'' else '''') @ show_scaled p (nat (round_half_even (\<bar>x\<bar> * 10 ^ p)))"
| "show_fixed p (Inf s) = (if s then ''-inf'' else ''inf'')"
| "show_fixed p NaN = ''nan''"

lemma show_fixed_nat [print_simps]: "show_fixed 0 (Fin (of_nat n)) = show_nat n"
proof -
  have "round_half_even (of_nat n :: rat) = int n"
    by (metis of_int_of_nat_eq round_half_even_of_int)
  then show ?thesis by (simp add: show_scaled_def)
qed

end
