(* ===== verification/Metrics.thy ===== *)
theory Metrics
  imports Double
begin

text \<open>
  \<open>src/metrics.h\<close>: label sets, counters, histograms and the registry that owns them. A class is a
  record, a member function is a function from the old object to the new one, and a reference
  returned by \<open>getCounter\<close>/\<open>getHistogram\<close> is the pair of metric name and label set under which
  the node is stored. Each member function holds its mutex from the first to the last
  statement, so one call is one atomic step; \<open>metric_step\<close> below gives the steps of which
  concurrent requests are interleavings.
\<close>

section \<open>Labels\<close>

text \<open>
  A \<open>std::map<std::string, std::string>\<close> in key order. \<open>Labels::operator<\<close> compares the two maps
  lexicographically, pair by pair; that is the order of lists of pairs.
\<close>

type_synonym Labels = "(string \<times> string) list"

definition Labels_less :: "Labels \<Rightarrow> Labels \<Rightarrow> bool" where
  "Labels_less a b \<longleftrightarrow> a < b"

fun toString_loop :: "bool \<Rightarrow> Labels \<Rightarrow> string" where
  "toString_loop first [] = []"
| "toString_loop first ((k, v) # ps) =
     (if first then [] else '','') @ k @ [CHR ''='', dq] @ v @ [dq] @ toString_loop False ps"

definition toString :: "Labels \<Rightarrow> string" where
  "toString ls = (if ls = [] then [] else ''{'' @ toString_loop True ls @ ''}'')"

section \<open>Counter\<close>

record Counter =
  c_value :: double
  c_name :: string
  c_help :: string
  c_labels :: Labels

definition new_Counter :: "string \<Rightarrow> string \<Rightarrow> Labels \<Rightarrow> Counter" where
  "new_Counter name help labels =
     \<lparr>c_value = Fin 0, c_name = name, c_help = help, c_labels = labels\<rparr>"

definition Counter_copy :: "Counter \<Rightarrow> Counter" where
  "Counter_copy other = \<lparr>c_value = c_value other, c_name = c_name other,
     c_help = c_help other, c_labels = c_labels other\<rparr>"

text \<open>The boolean says whether \<open>this\<close> and \<open>other\<close> are the same object.\<close>

definition Counter_assign :: "bool \<Rightarrow> Counter \<Rightarrow> Counter \<Rightarrow> Counter" where
  "Counter_assign same this other =
     (if \<not> same
      then this\<lparr>c_name := c_name other, c_help := c_help other, c_value := c_value other,
                c_labels := c_labels other\<rparr>
      else this)"

text \<open>
  A moved-from string or map keeps a valid but unspecified value: \<open>mv\<close> and \<open>mvl\<close> stand for it.
  The results are the new object and the moved-from one.
\<close>

definition Counter_move :: "string \<Rightarrow> Labels \<Rightarrow> Counter \<Rightarrow> Counter \<times> Counter" where
  "Counter_move mv mvl other =
     (\<lparr>c_value = c_value other, c_name = c_name other, c_help = c_help other, c_labels = c_labels other\<rparr>,
      \<lparr>c_value = Fin 0, c_name = mv, c_help = mv, c_labels = mvl\<rparr>)"

definition Counter_move_assign ::
  "string \<Rightarrow> Labels \<Rightarrow> bool \<Rightarrow> Counter \<Rightarrow> Counter \<Rightarrow> Counter \<times> Counter" where
  "Counter_move_assign mv mvl same this other =
     (if \<not> same
      then (this\<lparr>c_name := c_name other, c_help := c_help other, c_value := c_value other,
                 c_labels := c_labels other\<rparr>,
            \<lparr>c_value = Fin 0, c_name = mv, c_help = mv, c_labels = mvl\<rparr>)
      else (this, other))"

definition increment :: "double \<Rightarrow> Counter \<Rightarrow> Counter" where
  "increment val c = c\<lparr>c_value := dadd (c_value c) val\<rparr>"

definition Counter_setName :: "string \<Rightarrow> Counter \<Rightarrow> Counter" where
  "Counter_setName name c = c\<lparr>c_name := name\<rparr>"

definition Counter_setHelp :: "string \<Rightarrow> Counter \<Rightarrow> Counter" where
  "Counter_setHelp help c = c\<lparr>c_help := help\<rparr>"

definition Counter_format :: "Counter \<Rightarrow> string" where
  "Counter_format c =
     c_name c @ toString (c_labels c) @ '' '' @ show_fixed 0 (c_value c) @ [nl]"

definition formatTypeHelp :: "string \<Rightarrow> string \<Rightarrow> string \<Rightarrow> string" where
  "formatTypeHelp name help type =
     ''# TYPE '' @ name @ '' '' @ type @ [nl] @
     (if help \<noteq> [] then ''# HELP '' @ name @ '' '' @ help @ [nl] else [])"

section \<open>Histogram\<close>

record Histogram =
  h_sum :: double
  h_count :: "64 word"
  h_values :: "double list"
  h_name :: string
  h_help :: string
  h_labels :: Labels
  h_buckets :: "double list"

definition new_Histogram :: "string \<Rightarrow> string \<Rightarrow> double list \<Rightarrow> Labels \<Rightarrow> Histogram" where
  "new_Histogram name help buckets labels =
     \<lparr>h_sum = Fin 0, h_count = 0, h_values = [], h_name = name, h_help = help,
      h_labels = labels, h_buckets = buckets\<rparr>"

definition Histogram_copy :: "Histogram \<Rightarrow> Histogram" where
  "Histogram_copy other = \<lparr>h_sum = h_sum other, h_count = h_count other, h_values = h_values other,
     h_name = h_name other, h_help = h_help other, h_labels = h_labels other,
     h_buckets = h_buckets other\<rparr>"

definition Histogram_assign :: "bool \<Rightarrow> Histogram \<Rightarrow> Histogram \<Rightarrow> Histogram" where
  "Histogram_assign same this other =
     (if \<not> same
      then this\<lparr>h_name := h_name other, h_help := h_help other, h_sum := h_sum other,
                h_count := h_count other, h_values := h_values other,
                h_buckets := h_buckets other, h_labels := h_labels other\<rparr>
      else this)"

definition moved_Histogram :: "string \<Rightarrow> Labels \<Rightarrow> double list \<Rightarrow> Histogram" where
  "moved_Histogram mv mvl mvv = \<lparr>h_sum = Fin 0, h_count = 0, h_values = mvv, h_name = mv,
     h_help = mv, h_labels = mvl, h_buckets = mvv\<rparr>"

definition Histogram_move ::
  "string \<Rightarrow> Labels \<Rightarrow> double list \<Rightarrow> Histogram \<Rightarrow> Histogram \<times> Histogram" where
  "Histogram_move mv mvl mvv other = (Histogram_copy other, moved_Histogram mv mvl mvv)"

definition Histogram_move_assign ::
  "string \<Rightarrow> Labels \<Rightarrow> double list \<Rightarrow> bool \<Rightarrow> Histogram \<Rightarrow> Histogram \<Rightarrow> Histogram \<times> Histogram" where
  "Histogram_move_assign mv mvl mvv same this other =
     (if \<not> same then (Histogram_assign False this other, moved_Histogram mv mvl mvv)
      else (this, other))"

definition observe :: "double \<Rightarrow> Histogram \<Rightarrow> Histogram" where
  "observe v h = h\<lparr>h_values := h_values h @ [v], h_sum := dadd (h_sum h) v,
                   h_count := h_count h + 1\<rparr>"

definition Histogram_setName :: "string \<Rightarrow> Histogram \<Rightarrow> Histogram" where
  "Histogram_setName name h = h\<lparr>h_name := name\<rparr>"

definition Histogram_setHelp :: "string \<Rightarrow> Histogram \<Rightarrow> Histogram" where
  "Histogram_setHelp help h = h\<lparr>h_help := help\<rparr>"

text \<open>The inner loop over \<open>i\<close> and the outer loop over \<open>values_\<close> of \<open>Histogram::format\<close>.\<close>

fun bump_buckets :: "double list \<Rightarrow> double \<Rightarrow> 64 word list \<Rightarrow> 64 word list" where
  "bump_buckets (b # bs) v (n # ns) = (if dle v b then n + 1 else n) # bump_buckets bs v ns"
| "bump_buckets _ v _ = []"

definition bucketCounts :: "double list \<Rightarrow> double list \<Rightarrow> 64 word list" where
  "bucketCounts bs vs = foldl (\<lambda>cs v. bump_buckets bs v cs) (replicate (length bs) 0) vs"

definition show_u64 :: "64 word \<Rightarrow> string" where
  "show_u64 w = show_nat (unat w)"

definition labelPart :: "Labels \<Rightarrow> string" where
  "labelPart ls = (let s = toString ls in if s \<noteq> [] \<and> hd s = CHR ''{'' then tl s else s)"

definition bucket_line :: "string \<Rightarrow> string \<Rightarrow> string \<Rightarrow> string \<Rightarrow> string" where
  "bucket_line name le lp n =
     name @ ''_bucket{le='' @ [dq] @ le @ [dq] @ (if lp \<noteq> [] then '','' @ lp else []) @ ''} '' @ n @ [nl]"

definition Histogram_format :: "Histogram \<Rightarrow> string" where
  "Histogram_format h =
     (let lp = labelPart (h_labels h)
      in concat (map (\<lambda>(b, n). bucket_line (h_name h) (show_fixed 4 b) lp (show_u64 n))
                     (zip (h_buckets h) (bucketCounts (h_buckets h) (h_values h)))) @
         bucket_line (h_name h) ''+Inf'' lp (show_u64 (h_count h)) @
         h_name h @ ''_sum'' @ toString (h_labels h) @ '' '' @ show_fixed 6 (h_sum h) @ [nl] @
         h_name h @ ''_count'' @ toString (h_labels h) @ '' '' @ show_u64 (h_count h) @ [nl])"

section \<open>MetricsRegistry\<close>

record MetricsRegistry =
  counters :: "(string \<times> (Labels \<times> Counter) list) list"
  histograms :: "(string \<times> (Labels \<times> Histogram) list) list"
  counterHelps :: "(string \<times> string) list"
  histogramHelps :: "(string \<times> string) list"
  initialized :: bool

definition new_MetricsRegistry :: MetricsRegistry where
  "new_MetricsRegistry = \<lparr>counters = [], histograms = [], counterHelps = [],
     histogramHelps = [], initialized = False\<rparr>"

text \<open>\<open>m[k]\<close> on an \<open>unordered_map\<close> of maps: a missing key reads as the empty map.\<close>

definition um_get :: "(string \<times> 'a list) list \<Rightarrow> string \<Rightarrow> 'a list" where
  "um_get m k = (case map_of m k of None \<Rightarrow> [] | Some v \<Rightarrow> v)"

definition getCounterCount :: "MetricsRegistry \<Rightarrow> nat" where
  "getCounterCount r = foldl (\<lambda>n p. n + length (snd p)) 0 (counters r)"

definition getHistogramCount :: "MetricsRegistry \<Rightarrow> nat" where
  "getHistogramCount r = foldl (\<lambda>n p. n + length (snd p)) 0 (histograms r)"

text \<open>
  \<open>counters[name].emplace(l, std::move(c))\<close>. What is left in the local \<open>c\<close> is never read again.
\<close>

definition emplace_counter :: "string \<Rightarrow> Counter \<Rightarrow> MetricsRegistry \<Rightarrow> MetricsRegistry" where
  "emplace_counter name c r =
     r\<lparr>counters := umap_put name
          (map_emplace (c_labels c) (fst (Counter_move [] [] c)) (um_get (counters r) name)) (counters r)\<rparr>"

definition emplace_histogram :: "string \<Rightarrow> Histogram \<Rightarrow> MetricsRegistry \<Rightarrow> MetricsRegistry" where
  "emplace_histogram name h r =
     r\<lparr>histograms := umap_put name
          (map_emplace (h_labels h) (fst (Histogram_move [] [] [] h)) (um_get (histograms r) name))
          (histograms r)\<rparr>"

definition http_labels :: "string \<Rightarrow> string \<Rightarrow> int \<Rightarrow> Labels" where
  "http_labels method path status =
     map_put ''status'' (show_int status) (map_put ''path'' path (map_put ''method'' method []))"

definition init_methods :: "string list" where
  "init_methods = [''GET'', ''POST'', ''PUT'', ''DELETE'', ''PATCH'']"

definition init_paths :: "string list" where
  "init_paths = [''/'', ''/metrics'', ''/api/test-db'', ''/api/login'', ''/api/logout'',
     ''/api/devices'', ''/api/service-types'', ''/api/service-history'', ''/api/service-records'']"

definition init_statuses :: "int list" where
  "init_statuses = [200, 201, 400, 401, 403, 404, 500]"

definition http_total_help :: string where
  "http_total_help = ''Total number of HTTP requests''"

definition http_duration_help :: string where
  "http_duration_help = ''HTTP request duration in seconds''"

definition http_buckets :: "double list" where
  "http_buckets = [dlit 1 100, dlit 25 1000, dlit 5 100, dlit 1 10, dlit 25 100, dlit 5 10,
     dlit 1 1, dlit 25 10, dlit 5 1, dlit 10 1]"

definition init_http_counter :: "string \<Rightarrow> string \<Rightarrow> int \<Rightarrow> MetricsRegistry \<Rightarrow> MetricsRegistry" where
  "init_http_counter method path status =
     emplace_counter ''http_requests_total''
       (new_Counter ''http_requests_total'' http_total_help (http_labels method path status))"

definition init_http_counters :: "MetricsRegistry \<Rightarrow> MetricsRegistry" where
  "init_http_counters r =
     foldl (\<lambda>r m. foldl (\<lambda>r p. foldl (\<lambda>r s. init_http_counter m p s r) r init_statuses) r init_paths)
       r init_methods"

text \<open>The second component is what \<open>initialize\<close> writes to \<open>std::cerr\<close>, line by line.\<close>

definition initialize :: "MetricsRegistry \<Rightarrow> MetricsRegistry \<times> string list" where
  "initialize r =
     (if initialized r then (r, [])
      else
       (let r = r\<lparr>counterHelps := umap_put ''http_requests_total'' http_total_help (counterHelps r),
                  histogramHelps := umap_put ''http_request_duration_seconds'' http_duration_help
                    (histogramHelps r)\<rparr>;
            r = init_http_counters r;
            r = r\<lparr>counterHelps := umap_put ''auth_failures_total''
                    ''Total number of authentication failures'' (counterHelps r)\<rparr>;
            r = emplace_counter ''auth_failures_total''
                  (new_Counter ''auth_failures_total'' ''Total number of authentication failures'' []) r;
            r = emplace_histogram ''http_request_duration_seconds''
                  (new_Histogram ''http_request_duration_seconds'' http_duration_help http_buckets []) r
        in (r\<lparr>initialized := True\<rparr>,
            [''[METRICS] Initializing metrics registry...'',
             ''[METRICS] Initialization complete. Counters: '' @ show_nat (getCounterCount r) @
             '', Histograms: '' @ show_nat (getHistogramCount r)])))"

type_synonym metric_ref = "string \<times> Labels"

definition getCounter ::
  "string \<Rightarrow> string \<Rightarrow> Labels \<Rightarrow> MetricsRegistry \<Rightarrow> MetricsRegistry \<times> metric_ref" where
  "getCounter name help labels r =
     (let r = (if help \<noteq> [] then r\<lparr>counterHelps := umap_put name help (counterHelps r)\<rparr> else r)
      in case map_of (counters r) name of
           None \<Rightarrow> (emplace_counter name (new_Counter name help labels) r, (name, labels))
         | Some metricMap \<Rightarrow>
             (case map_of metricMap labels of
                None \<Rightarrow> (emplace_counter name (new_Counter name help labels) r, (name, labels))
              | Some _ \<Rightarrow> (r, (name, labels))))"

definition getHistogram ::
  "string \<Rightarrow> string \<Rightarrow> double list \<Rightarrow> Labels \<Rightarrow> MetricsRegistry \<Rightarrow> MetricsRegistry \<times> metric_ref" where
  "getHistogram name help buckets labels r =
     (let r = (if help \<noteq> [] then r\<lparr>histogramHelps := umap_put name help (histogramHelps r)\<rparr> else r)
      in case map_of (histograms r) name of
           None \<Rightarrow> (emplace_histogram name (new_Histogram name help buckets labels) r, (name, labels))
         | Some metricMap \<Rightarrow>
             (case map_of metricMap labels of
                None \<Rightarrow> (emplace_histogram name (new_Histogram name help buckets labels) r, (name, labels))
              | Some _ \<Rightarrow> (r, (name, labels))))"

text \<open>A member function called through a reference.\<close>

definition at_counter :: "metric_ref \<Rightarrow> (Counter \<Rightarrow> Counter) \<Rightarrow> MetricsRegistry \<Rightarrow> MetricsRegistry" where
  "at_counter ref f r = r\<lparr>counters := map_adjust (fst ref) (map_adjust (snd ref) f) (counters r)\<rparr>"

definition at_histogram :: "metric_ref \<Rightarrow> (Histogram \<Rightarrow> Histogram) \<Rightarrow> MetricsRegistry \<Rightarrow> MetricsRegistry" where
  "at_histogram ref f r =
     r\<lparr>histograms := map_adjust (fst ref) (map_adjust (snd ref) f) (histograms r)\<rparr>"

text \<open>
  \<open>MetricsRegistry::format\<close>. The argument \<open>ho\<close> turns the keys of an \<open>unordered_map\<close> into the order
  in which the range-for loop visits them.
\<close>

definition format :: "(string list \<Rightarrow> string list) \<Rightarrow> MetricsRegistry \<Rightarrow> string" where
  "format ho r =
     concat (map (\<lambda>name.
        formatTypeHelp name (case map_of (counterHelps r) name of None \<Rightarrow> [] | Some h \<Rightarrow> h) ''counter'' @
        concat (map (\<lambda>lc. Counter_format (snd lc)) (um_get (counters r) name)))
       (ho (map fst (counters r)))) @
     concat (map (\<lambda>name.
        formatTypeHelp name (case map_of (histogramHelps r) name of None \<Rightarrow> [] | Some h \<Rightarrow> h) ''histogram'' @
        concat (map (\<lambda>lh. Histogram_format (snd lh)) (um_get (histograms r) name)))
       (ho (map fst (histograms r))))"

text \<open>\<open>auto& counter = getCounter(...); counter.increment();\<close>\<close>

definition count_event :: "string \<Rightarrow> string \<Rightarrow> Labels \<Rightarrow> MetricsRegistry \<Rightarrow> MetricsRegistry" where
  "count_event name help labels r =
     (let (r, ref) = getCounter name help labels r in at_counter ref (increment (Fin 1)) r)"

definition recordHttpRequest ::
  "string \<Rightarrow> string \<Rightarrow> int \<Rightarrow> double \<Rightarrow> MetricsRegistry \<Rightarrow> MetricsRegistry" where
  "recordHttpRequest method path status duration r =
     (let r = count_event ''http_requests_total'' http_total_help (http_labels method path status) r;
          (r, ref) = getHistogram ''http_request_duration_seconds'' http_duration_help http_buckets [] r
      in at_histogram ref (observe duration) r)"

definition db_labels :: "string \<Rightarrow> bool \<Rightarrow> Labels" where
  "db_labels operation success =
     map_put ''success'' (show_bool success) (map_put ''operation'' operation [])"

definition recordDbOperation :: "string \<Rightarrow> bool \<Rightarrow> MetricsRegistry \<Rightarrow> MetricsRegistry" where
  "recordDbOperation operation success =
     count_event ''db_operations_total'' ''Total number of database operations''
       (db_labels operation success)"

definition auth_labels :: "string \<Rightarrow> bool \<Rightarrow> Labels" where
  "auth_labels username success =
     map_put ''success'' (show_bool success) (map_put ''username'' username [])"

definition recordAuthAttempt :: "string \<Rightarrow> bool \<Rightarrow> MetricsRegistry \<Rightarrow> MetricsRegistry" where
  "recordAuthAttempt username success r =
     (let r = count_event ''auth_attempts_total'' ''Total number of authentication attempts''
                (auth_labels username success) r
      in if \<not> success
         then count_event ''auth_failures_total'' ''Total number of authentication failures'' [] r
         else r)"

definition operation_labels :: "string \<Rightarrow> string \<Rightarrow> int \<Rightarrow> bool \<Rightarrow> Labels" where
  "operation_labels operation idkey i success =
     map_put ''success'' (show_bool success)
       (map_put idkey (show_int i) (map_put ''operation'' operation []))"

definition recordDeviceOperation :: "string \<Rightarrow> int \<Rightarrow> bool \<Rightarrow> MetricsRegistry \<Rightarrow> MetricsRegistry" where
  "recordDeviceOperation operation device_id success =
     count_event ''device_operations_total'' ''Total number of device operations''
       (operation_labels operation ''device_id'' device_id success)"

definition recordServiceOperation :: "string \<Rightarrow> int \<Rightarrow> bool \<Rightarrow> MetricsRegistry \<Rightarrow> MetricsRegistry" where
  "recordServiceOperation operation record_id success =
     count_event ''service_operations_total'' ''Total number of service operations''
       (operation_labels operation ''record_id'' record_id success)"

section \<open>Sequences of calls and interleavings\<close>

text \<open>The calls the request handlers make, and their effect one after another.\<close>

datatype metric_op =
    HttpRequest string string int double
  | DbOperation string bool
  | AuthAttempt string bool
  | DeviceOperation string int bool
  | ServiceOperation string int bool

fun apply_op :: "metric_op \<Rightarrow> MetricsRegistry \<Rightarrow> MetricsRegistry" where
  "apply_op (HttpRequest m p s d) = recordHttpRequest m p s d"
| "apply_op (DbOperation n ok) = recordDbOperation n ok"
| "apply_op (AuthAttempt u ok) = recordAuthAttempt u ok"
| "apply_op (DeviceOperation n i ok) = recordDeviceOperation n i ok"
| "apply_op (ServiceOperation n i ok) = recordServiceOperation n i ok"

text \<open>
  The atomic steps of concurrent requests: each call of \<open>getCounter\<close> and \<open>getHistogram\<close> holds the
  registry mutex, each \<open>increment\<close> and \<open>observe\<close> the mutex of the metric.
\<close>

datatype metric_step =
    GetCounter string string Labels
  | Increment metric_ref
  | GetHistogram string string "double list" Labels
  | Observe metric_ref double

fun exec_step :: "metric_step \<Rightarrow> MetricsRegistry \<Rightarrow> MetricsRegistry" where
  "exec_step (GetCounter n h l) r = fst (getCounter n h l r)"
| "exec_step (Increment ref) r = at_counter ref (increment (Fin 1)) r"
| "exec_step (GetHistogram n h bs l) r = fst (getHistogram n h bs l r)"
| "exec_step (Observe ref v) r = at_histogram ref (observe v) r"

definition count_steps :: "string \<Rightarrow> string \<Rightarrow> Labels \<Rightarrow> metric_step list" where
  "count_steps n h l = [GetCounter n h l, Increment (n, l)]"

fun op_steps :: "metric_op \<Rightarrow> metric_step list" where
  "op_steps (HttpRequest m p s d) =
     count_steps ''http_requests_total'' http_total_help (http_labels m p s) @
     [GetHistogram ''http_request_duration_seconds'' http_duration_help http_buckets [],
      Observe (''http_request_duration_seconds'', []) d]"
| "op_steps (DbOperation n ok) =
     count_steps ''db_operations_total'' ''Total number of database operations'' (db_labels n ok)"
| "op_steps (AuthAttempt u ok) =
     count_steps ''auth_attempts_total'' ''Total number of authentication attempts'' (auth_labels u ok) @
     (if ok then [] else
      count_steps ''auth_failures_total'' ''Total number of authentication failures'' [])"
| "op_steps (DeviceOperation n i ok) =
     count_steps ''device_operations_total'' ''Total number of device operations''
       (operation_labels n ''device_id'' i ok)"
| "op_steps (ServiceOperation n i ok) =
     count_steps ''service_operations_total'' ''Total number of service operations''
       (operation_labels n ''record_id'' i ok)"

text \<open>All interleavings of a list of threads.\<close>

fun interleavings :: "'a list list \<Rightarrow> 'a list set" where
  "interleavings [] = {[]}"
| "interleavings (t # ts) = (\<Union>s \<in> interleavings ts. shuffles t s)"

text \<open>What a scrape reads: the value of a counter and the observations of a histogram.\<close>

definition counter_value :: "MetricsRegistry \<Rightarrow> metric_ref \<Rightarrow> double" where
  "counter_value r ref =
     (case map_of (um_get (counters r) (fst ref)) (snd ref) of None \<Rightarrow> Fin 0 | Some c \<Rightarrow> c_value c)"

definition histogram_at :: "MetricsRegistry \<Rightarrow> metric_ref \<Rightarrow> Histogram option" where
  "histogram_at r ref = map_of (um_get (histograms r) (fst ref)) (snd ref)"

definition observations :: "MetricsRegistry \<Rightarrow> metric_ref \<Rightarrow> double list" where
  "observations r ref = (case histogram_at r ref of None \<Rightarrow> [] | Some h \<Rightarrow> h_values h)"

text \<open>The class invariant of the registry.\<close>

definition counter_node_ok :: "string \<Rightarrow> Labels \<times> Counter \<Rightarrow> bool" where
  "counter_node_ok name lc \<longleftrightarrow> c_name (snd lc) = name \<and> c_labels (snd lc) = fst lc"

definition histogram_ok :: "Histogram \<Rightarrow> bool" where
  "histogram_ok h \<longleftrightarrow>
     h_sum h = foldl dadd (Fin 0) (h_values h) \<and> h_count h = of_nat (length (h_values h))"

definition histogram_node_ok :: "string \<Rightarrow> Labels \<times> Histogram \<Rightarrow> bool" where
  "histogram_node_ok name lh \<longleftrightarrow>
     h_name (snd lh) = name \<and> h_labels (snd lh) = fst lh \<and> histogram_ok (snd lh)"

definition table_ok :: "(string \<Rightarrow> Labels \<times> 'a \<Rightarrow> bool) \<Rightarrow> (string \<times> (Labels \<times> 'a) list) list \<Rightarrow> bool" where
  "table_ok P m \<longleftrightarrow> distinct (map fst m) \<and>
     list_all (\<lambda>(name, ns). map_sorted ns \<and> list_all (P name) ns) m"

definition registry_ok :: "MetricsRegistry \<Rightarrow> bool" where
  "registry_ok r \<longleftrightarrow> table_ok counter_node_ok (counters r) \<and> table_ok histogram_node_ok (histograms r)"

section \<open>Lookup laws\<close>

lemma um_get_umap_put [simp]: "um_get (umap_put k v m) x = (if x = k then v else um_get m x)"
  by (simp add: um_get_def)

lemma um_get_map_adjust [simp]:
  "f [] = [] \<Longrightarrow> um_get (map_adjust k f m) x = (if x = k then f (um_get m k) else um_get m x)"
  by (simp add: um_get_def split: option.splits)

lemma um_get_Nil [simp]: "um_get [] x = []"
  by (simp add: um_get_def)

text \<open>A lookup by name and then by labels is one lookup in the map at that name.\<close>

lemma getCounter_alt:
  "getCounter n h l r =
     (let r = (if h \<noteq> [] then r\<lparr>counterHelps := umap_put n h (counterHelps r)\<rparr> else r)
      in (if map_of (um_get (counters r) n) l = None
          then emplace_counter n (new_Counter n h l) r else r, (n, l)))"
  by (auto simp: getCounter_def um_get_def Let_def split: option.splits)

lemma getHistogram_alt:
  "getHistogram n h bs l r =
     (let r = (if h \<noteq> [] then r\<lparr>histogramHelps := umap_put n h (histogramHelps r)\<rparr> else r)
      in (if map_of (um_get (histograms r) n) l = None
          then emplace_histogram n (new_Histogram n h bs l) r else r, (n, l)))"
  by (auto simp: getHistogram_def um_get_def Let_def split: option.splits)

lemmas registry_defs = counter_value_def histogram_at_def observations_def getCounter_alt
  getHistogram_alt Let_def emplace_counter_def emplace_histogram_def at_counter_def at_histogram_def
  new_Counter_def new_Histogram_def Counter_move_def Histogram_move_def Histogram_copy_def

lemma snd_getCounter [simp]: "snd (getCounter n h l r) = (n, l)"
  by (simp add: getCounter_alt Let_def)

lemma snd_getHistogram [simp]: "snd (getHistogram n h bs l r) = (n, l)"
  by (simp add: getHistogram_alt Let_def)

lemma counter_value_getCounter [simp]: "counter_value (fst (getCounter n h l r)) k = counter_value r k"
  by (auto simp: registry_defs split: option.splits)

lemma counter_present_getCounter [simp]:
  "map_of (um_get (counters (fst (getCounter n h l r))) n) l \<noteq> None"
  by (auto simp: registry_defs split: option.splits)

lemma histograms_getCounter [simp]: "histograms (fst (getCounter n h l r)) = histograms r"
  by (simp add: registry_defs)

lemma histograms_at_counter [simp]: "histograms (at_counter ref f r) = histograms r"
  by (simp add: at_counter_def)

lemma counters_getHistogram [simp]: "counters (fst (getHistogram n h bs l r)) = counters r"
  by (simp add: registry_defs)

lemma counters_at_histogram [simp]: "counters (at_histogram ref f r) = counters r"
  by (simp add: at_histogram_def)

lemma counter_value_at_counter:
  "map_of (um_get (counters r) (fst ref)) (snd ref) \<noteq> None \<Longrightarrow>
   counter_value (at_counter ref (increment v) r) k =
     (if k = ref then dadd (counter_value r k) v else counter_value r k)"
  by (cases ref; cases k) (auto simp: registry_defs increment_def split: option.splits)

lemma counter_value_count_event:
  "counter_value (count_event n h l r) k =
     (if k = (n, l) then dadd (counter_value r k) (Fin 1) else counter_value r k)"
  using counter_value_at_counter [of "fst (getCounter n h l r)" "(n, l)"]
  by (simp add: count_event_def case_prod_unfold)

lemma histograms_count_event [simp]: "histograms (count_event n h l r) = histograms r"
  by (simp add: count_event_def case_prod_unfold)

lemma observations_at_histogram:
  "histogram_at r ref \<noteq> None \<Longrightarrow>
   observations (at_histogram ref (observe v) r) k =
     (if k = ref then observations r k @ [v] else observations r k)"
  by (cases ref; cases k) (auto simp: registry_defs observe_def split: option.splits)

lemma observations_getHistogram [simp]:
  "observations (fst (getHistogram n h bs l r)) k = observations r k"
  by (auto simp: registry_defs split: option.splits)

lemma histogram_present_getHistogram [simp]:
  "histogram_at (fst (getHistogram n h bs l r)) (n, l) \<noteq> None"
  by (auto simp: registry_defs split: option.splits)

end
