(* ===== verification/Metrics_Props.thy ===== *)
theory Metrics_Props
  imports Metrics
begin

text \<open>
  Correctness of the metrics component: the registry as a store of exact event counters (an
  interface locale and its interpretation on \<open>count_event\<close>), the effect of every sequence and
  every interleaving of handler calls, the class invariant, and the exposition format.
\<close>

section \<open>The counter interface\<close>

text \<open>
  What the handlers rely on: recording an event adds one to the counter of the event's key and
  leaves the other counters alone.
\<close>

locale counter_store =
  fixes bump :: "'e \<Rightarrow> 's \<Rightarrow> 's"
    and key :: "'e \<Rightarrow> 'k"
    and value_of :: "'s \<Rightarrow> 'k \<Rightarrow> double"
  assumes value_bump:
    "value_of (bump e s) k = (if k = key e then dadd (value_of s k) (Fin 1) else value_of s k)"
begin

definition hits :: "'k \<Rightarrow> 'e list \<Rightarrow> nat" where
  "hits k es = length (filter (\<lambda>e. key e = k) es)"

lemma value_fold_exact:
  assumes "value_of s k = Fin (of_nat n)" and "n + hits k es \<le> 2 ^ 53"
  shows "value_of (fold bump es s) k = Fin (of_nat (n + hits k es))"
  using assms
proof (induction es arbitrary: s n)
  case Nil
  then show ?case by (simp add: hits_def)
next
  case (Cons e es)
  show ?case
  proof (cases "key e = k")
    case True
    with Cons.prems have le: "Suc n \<le> 2 ^ 53" and h: "Suc n + hits k es \<le> 2 ^ 53"
      by (simp_all add: hits_def)
    have "round64 (of_int (int (Suc n))) = Fin (of_int (int (Suc n)))"
      using le by (intro round64_int) simp
    with True Cons.prems have "value_of (bump e s) k = Fin (of_nat (Suc n))"
      by (simp add: value_bump add.commute)
    from Cons.IH [OF this h] True show ?thesis by (simp add: hits_def)
  next
    case False
    with Cons.prems have "value_of (bump e s) k = Fin (of_nat n)" by (simp add: value_bump)
    with Cons.IH [of "bump e s" n] Cons.prems False show ?thesis by (simp add: hits_def)
  qed
qed

end

interpretation events: counter_store
  "\<lambda>(n, h, l). count_event n h l" "\<lambda>(n, h, l). (n, l)" counter_value
  by unfold_locales (simp add: counter_value_count_event split: prod.split)

text \<open>The counter events of a call.\<close>

fun op_events :: "metric_op \<Rightarrow> (string \<times> string \<times> Labels) list" where
  "op_events (HttpRequest m p s d) =
     [(''http_requests_total'', http_total_help, http_labels m p s)]"
| "op_events (DbOperation n ok) =
     [(''db_operations_total'', ''Total number of database operations'', db_labels n ok)]"
| "op_events (AuthAttempt u ok) =
     (''auth_attempts_total'', ''Total number of authentication attempts'', auth_labels u ok) #
     (if ok then [] else [(''auth_failures_total'', ''Total number of authentication failures'', [])])"
| "op_events (DeviceOperation n i ok) =
     [(''device_operations_total'', ''Total number of device operations'',
       operation_labels n ''device_id'' i ok)]"
| "op_events (ServiceOperation n i ok) =
     [(''service_operations_total'', ''Total number of service operations'',
       operation_labels n ''record_id'' i ok)]"

text \<open>How often a list of calls hits a counter, and the durations it observes.\<close>

definition events_at :: "metric_ref \<Rightarrow> metric_op list \<Rightarrow> nat" where
  "events_at k ops = length (filter (\<lambda>(n, h, l). (n, l) = k) (concat (map op_events ops)))"

fun op_duration :: "metric_op \<Rightarrow> double list" where
  "op_duration (HttpRequest m p s d) = [d]"
| "op_duration _ = []"

abbreviation duration_ref :: metric_ref where
  "duration_ref \<equiv> (''http_request_duration_seconds'', [])"

lemmas op_defs = recordHttpRequest_def recordDbOperation_def recordAuthAttempt_def
  recordDeviceOperation_def recordServiceOperation_def

lemma counter_value_apply_op:
  "counter_value (apply_op op r) k =
   counter_value (fold (\<lambda>(n, h, l). count_event n h l) (op_events op) r) k"
  by (cases op) (auto simp: op_defs Let_def case_prod_unfold counter_value_def)

lemma fold_counter_value_cong:
  assumes "\<And>k. counter_value r k = counter_value r' k"
  shows "counter_value (fold (\<lambda>(n, h, l). count_event n h l) es r) k =
         counter_value (fold (\<lambda>(n, h, l). count_event n h l) es r') k"
  using assms
proof (induction es arbitrary: r r')
  case (Cons e es)
  obtain n h l where e: "e = (n, h, l)" by (cases e) auto
  have "counter_value (count_event n h l r) k = counter_value (count_event n h l r') k" for k
    by (simp only: counter_value_count_event Cons.prems)
  from Cons.IH [OF this] show ?case by (simp add: e)
qed simp

lemma counter_value_fold_apply_op:
  "counter_value (fold apply_op ops r) k =
   counter_value (fold (\<lambda>(n, h, l). count_event n h l) (concat (map op_events ops)) r) k"
proof (induction ops arbitrary: r)
  case (Cons op ops)
  then show ?case
    using fold_counter_value_cong [OF counter_value_apply_op] by simp
qed simp

lemma observations_apply_op:
  "observations (apply_op op r) k =
     observations r k @ (if k = duration_ref then op_duration op else [])"
proof (cases op)
  case (HttpRequest m p s d)
  define r' where
    "r' = count_event ''http_requests_total'' http_total_help (http_labels m p s) r"
  have "observations r' x = observations r x" for x
    by (simp add: r'_def observations_def histogram_at_def)
  then show ?thesis
    using HttpRequest observations_at_histogram
      [of "fst (getHistogram ''http_request_duration_seconds'' http_duration_help http_buckets [] r')"
        duration_ref d k]
    by (simp add: op_defs case_prod_unfold r'_def)
qed (simp_all add: op_defs Let_def observations_def histogram_at_def)

lemma observations_fold_apply_op:
  "observations (fold apply_op ops r) duration_ref =
   observations r duration_ref @ concat (map op_duration ops)"
  by (induction ops arbitrary: r) (simp_all add: observations_apply_op)

section \<open>Initialisation\<close>

lemma counter_value_emplace_counter:
  "c_value c = Fin 0 \<Longrightarrow> counter_value (emplace_counter name c r) k = counter_value r k"
  by (auto simp: counter_value_def emplace_counter_def Counter_move_def split: option.splits)

lemma foldl_preserves:
  assumes "\<And>x r. P (f r x) \<longleftrightarrow> P r"
  shows "P (foldl f r xs) \<longleftrightarrow> P r"
  by (induction xs arbitrary: r) (simp_all add: assms)

lemma foldl_same_view:
  assumes "\<And>x r. view (f r x) = view r"
  shows "view (foldl f r xs) = view r"
  by (induction xs arbitrary: r) (simp_all add: assms)

lemma counter_value_init_http_counters:
  "counter_value (init_http_counters r) k = counter_value r k"
  unfolding init_http_counters_def
  by (intro foldl_same_view [where view = "\<lambda>r. counter_value r k"])
    (simp add: init_http_counter_def counter_value_emplace_counter new_Counter_def)

lemma histograms_init_http_counters: "histograms (init_http_counters r) = histograms r"
  unfolding init_http_counters_def
  by (intro foldl_same_view [where view = histograms])
    (simp add: init_http_counter_def emplace_counter_def)

lemma counter_value_initialize: "counter_value (fst (initialize r)) k = counter_value r k"
proof -
  have frame: "counter_value (r\<lparr>initialized := b\<rparr>) k = counter_value r k"
    "counter_value (emplace_histogram n h r) k = counter_value r k"
    "counter_value (r\<lparr>counterHelps := x\<rparr>) k = counter_value r k"
    "counter_value (r\<lparr>histogramHelps := y\<rparr>) k = counter_value r k" for r b n h x y
    by (simp_all add: counter_value_def emplace_histogram_def)
  show ?thesis
    by (simp add: initialize_def Let_def frame counter_value_emplace_counter new_Counter_def
        counter_value_init_http_counters)
qed

lemma observations_initialize: "observations (fst (initialize r)) k = observations r k"
proof -
  have frame: "observations (r\<lparr>initialized := b\<rparr>) k = observations r k"
    "observations (emplace_counter n c r) k = observations r k"
    "observations (r\<lparr>counterHelps := x\<rparr>) k = observations r k"
    "observations (r\<lparr>histogramHelps := y\<rparr>) k = observations r k"
    "observations (init_http_counters r) k = observations r k" for r b n c x y
    by (simp_all add: observations_def histogram_at_def emplace_counter_def histograms_init_http_counters)
  have emp: "observations (emplace_histogram n (new_Histogram n h bs l) r) k = observations r k"
    for n h bs l r
    by (auto simp: registry_defs split: option.splits)
  show ?thesis by (simp add: initialize_def Let_def frame emp)
qed

lemma counter_value_new [simp]: "counter_value new_MetricsRegistry k = Fin 0"
  by (simp add: counter_value_def new_MetricsRegistry_def)

lemma observations_new [simp]: "observations new_MetricsRegistry k = []"
  by (simp add: observations_def histogram_at_def new_MetricsRegistry_def)

text \<open>
  C1. After start-up and any sequence of recorded requests and operations, every counter equals the
  number of recorded events with its name and labels, exactly, as long as that number does not
  exceed 2^53 (where \<open>double\<close> stops counting by ones).
\<close>

theorem counters_count_events:
  assumes "events_at k ops \<le> 2 ^ 53"
  shows "counter_value (fold apply_op ops (fst (initialize new_MetricsRegistry))) k =
         Fin (of_nat (events_at k ops))"
proof -
  have "events.hits k (concat (map op_events ops)) = events_at k ops"
    unfolding events.hits_def events_at_def by (simp add: case_prod_unfold)
  with assms events.value_fold_exact
    [of "fst (initialize new_MetricsRegistry)" k 0 "concat (map op_events ops)"]
  show ?thesis
    by (simp add: counter_value_fold_apply_op counter_value_initialize)
qed

theorem counters_count_events_witness:
  "events_at (''auth_failures_total'', []) [AuthAttempt ''bob'' False, AuthAttempt ''bob'' True] \<le> 2 ^ 53 \<and>
   counter_value (fold apply_op [AuthAttempt ''bob'' False, AuthAttempt ''bob'' True]
     (fst (initialize new_MetricsRegistry))) (''auth_failures_total'', []) = Fin 1"
proof -
  have h: "events_at (''auth_failures_total'', [])
      [AuthAttempt ''bob'' False, AuthAttempt ''bob'' True] = 1"
    by (simp add: events_at_def)
  then have "events_at (''auth_failures_total'', [])
      [AuthAttempt ''bob'' False, AuthAttempt ''bob'' True] \<le> 2 ^ 53"
    by simp
  from counters_count_events [OF this] h show ?thesis by simp
qed

section \<open>Interleavings\<close>

text \<open>
  A thread uses a reference only after it obtained it from the registry. The state carries the
  references to counters and to histograms that are known to exist.
\<close>

fun guarded :: "metric_ref set \<Rightarrow> metric_ref set \<Rightarrow> metric_step list \<Rightarrow> bool" where
  "guarded A B [] = True"
| "guarded A B (GetCounter n h l # ss) = guarded (insert (n, l) A) B ss"
| "guarded A B (Increment ref # ss) = (ref \<in> A \<and> guarded A B ss)"
| "guarded A B (GetHistogram n h bs l # ss) = guarded A (insert (n, l) B) ss"
| "guarded A B (Observe ref v # ss) = (ref \<in> B \<and> guarded A B ss)"

lemma guarded_mono: "guarded A B ss \<Longrightarrow> A \<subseteq> A' \<Longrightarrow> B \<subseteq> B' \<Longrightarrow> guarded A' B' ss"
proof (induction A B ss arbitrary: A' B' rule: guarded.induct)
  case (2 A B n h l ss)
  from "2.IH" [of "insert (n, l) A'" B'] "2.prems" show ?case by auto
next
  case (4 A B n h bs l ss)
  from "4.IH" [of A' "insert (n, l) B'"] "4.prems" show ?case by auto
qed auto

lemma guarded_step:
  "guarded A B (x # ss) \<Longrightarrow> (\<And>A' B'. A \<subseteq> A' \<Longrightarrow> B \<subseteq> B' \<Longrightarrow> guarded A' B' ss \<Longrightarrow> guarded A' B' zs)
   \<Longrightarrow> guarded A B (x # zs)"
proof (cases x)
  case (GetCounter n h l)
  assume "guarded A B (x # ss)"
    and "\<And>A' B'. A \<subseteq> A' \<Longrightarrow> B \<subseteq> B' \<Longrightarrow> guarded A' B' ss \<Longrightarrow> guarded A' B' zs"
  then show ?thesis using GetCounter by (simp add: subset_insertI)
next
  case (GetHistogram n h bs l)
  assume "guarded A B (x # ss)"
    and "\<And>A' B'. A \<subseteq> A' \<Longrightarrow> B \<subseteq> B' \<Longrightarrow> guarded A' B' ss \<Longrightarrow> guarded A' B' zs"
  then show ?thesis using GetHistogram by (simp add: subset_insertI)
qed auto

lemma guarded_shuffles:
  "zs \<in> shuffles xs ys \<Longrightarrow> guarded A B xs \<Longrightarrow> guarded A B ys \<Longrightarrow> guarded A B zs"
proof (induction xs ys arbitrary: zs A B rule: shuffles.induct)
  case (3 x xs y ys)
  from "3.prems"(1) consider (left) zs' where "zs = x # zs'" "zs' \<in> shuffles xs (y # ys)"
    | (right) zs' where "zs = y # zs'" "zs' \<in> shuffles (x # xs) ys"
    by (auto simp: image_iff)
  then show ?case
  proof cases
    case left
    have "guarded A B (x # zs')"
      by (rule guarded_step [OF "3.prems"(2)], rule "3.IH"(1) [OF left(2)], assumption)
        (rule guarded_mono [OF "3.prems"(3)])
    with left show ?thesis by simp
  next
    case right
    have "guarded A B (y # zs')"
      by (rule guarded_step [OF "3.prems"(3)], rule "3.IH"(2) [OF right(2)])
        (rule guarded_mono [OF "3.prems"(2)])
    with right show ?thesis by simp
  qed
qed auto

lemma guarded_interleavings:
  "zs \<in> interleavings ts \<Longrightarrow> \<forall>t \<in> set ts. guarded A B t \<Longrightarrow> guarded A B zs"
  by (induction ts arbitrary: zs) (auto intro: guarded_shuffles)

lemma guarded_append: "guarded A B xs \<Longrightarrow> guarded A B ys \<Longrightarrow> guarded A B (xs @ ys)"
  by (induction A B xs rule: guarded.induct) (auto intro: guarded_mono)

lemma guarded_op_steps: "guarded A B (op_steps op)"
  by (cases op) (simp_all add: count_steps_def)

lemma guarded_thread: "guarded A B (concat (map op_steps ops))"
  by (induction ops) (auto intro: guarded_append guarded_op_steps)

text \<open>The references of \<open>A\<close> and \<open>B\<close> point to existing nodes.\<close>

definition refs_valid :: "metric_ref set \<Rightarrow> metric_ref set \<Rightarrow> MetricsRegistry \<Rightarrow> bool" where
  "refs_valid A B r \<longleftrightarrow>
     (\<forall>(n, l) \<in> A. map_of (um_get (counters r) n) l \<noteq> None) \<and> (\<forall>ref \<in> B. histogram_at r ref \<noteq> None)"

definition step_incr :: "metric_ref \<Rightarrow> metric_step \<Rightarrow> nat" where
  "step_incr k st = (case st of Increment ref \<Rightarrow> if ref = k then 1 else 0 | _ \<Rightarrow> 0)"

definition step_obs :: "metric_ref \<Rightarrow> metric_step \<Rightarrow> double list" where
  "step_obs k st = (case st of Observe ref v \<Rightarrow> if ref = k then [v] else [] | _ \<Rightarrow> [])"

lemma refs_valid_get:
  "refs_valid A B r \<Longrightarrow> refs_valid (insert (n, l) A) B (fst (getCounter n h l r))"
  "refs_valid A B r \<Longrightarrow> refs_valid A (insert (n, l) B) (fst (getHistogram n h bs l r))"
  by (auto simp: refs_valid_def registry_defs split: option.splits)

lemma refs_valid_use:
  "refs_valid A B r \<Longrightarrow> refs_valid A B (at_counter ref f r)"
  "refs_valid A B r \<Longrightarrow> refs_valid A B (at_histogram ref g r)"
  by (fastforce simp: refs_valid_def registry_defs)+

lemma refs_validD:
  "refs_valid A B r \<Longrightarrow> ref \<in> A \<Longrightarrow> map_of (um_get (counters r) (fst ref)) (snd ref) \<noteq> None"
  "refs_valid A B r \<Longrightarrow> ref \<in> B \<Longrightarrow> histogram_at r ref \<noteq> None"
  by (auto simp: refs_valid_def)

lemma observations_frame:
  "observations (fst (getCounter n h l r)) k = observations r k"
  "observations (at_counter ref f r) k = observations r k"
  by (simp_all add: observations_def histogram_at_def)

lemma counter_value_frame:
  "counter_value (fst (getHistogram n h bs l r)) k = counter_value r k"
  "counter_value (at_histogram ref f r) k = counter_value r k"
  by (simp_all add: counter_value_def)

lemma observations_run:
  "guarded A B ss \<Longrightarrow> refs_valid A B r \<Longrightarrow>
   observations (fold exec_step ss r) k = observations r k @ concat (map (step_obs k) ss)"
  by (induction A B ss arbitrary: r rule: guarded.induct)
    (simp_all add: refs_valid_get refs_valid_use observations_frame observations_at_histogram
      refs_validD(2) step_obs_def)

lemma counter_value_run:
  assumes "guarded A B ss" "refs_valid A B r" "counter_value r k = Fin (of_nat n)"
    and "n + sum_list (map (step_incr k) ss) \<le> 2 ^ 53"
  shows "counter_value (fold exec_step ss r) k = Fin (of_nat (n + sum_list (map (step_incr k) ss)))"
  using assms
proof (induction A B ss arbitrary: r n rule: guarded.induct)
  case (3 A B ref ss)
  let ?r = "at_counter ref (increment (Fin 1)) r"
  have val: "counter_value ?r k = (if k = ref then dadd (counter_value r k) (Fin 1) else counter_value r k)"
    using "3.prems"(1,2) by (intro counter_value_at_counter refs_validD(1)) auto
  define n' where "n' = n + step_incr k (Increment ref)"
  have "round64 (of_int (int (Suc n))) = Fin (of_int (int (Suc n)))" if "k = ref"
    using "3.prems"(4) that by (intro round64_int) (simp add: step_incr_def)
  then have "counter_value ?r k = Fin (of_nat n')"
    using val "3.prems"(3) by (auto simp: n'_def step_incr_def add.commute)
  with "3.IH" [of ?r n'] "3.prems" show ?case
    by (auto simp: refs_valid_use n'_def)
qed (simp_all add: refs_valid_get refs_valid_use counter_value_frame step_incr_def)

text \<open>Sums over the steps of interleaved threads are sums over the threads.\<close>

lemma sum_shuffles:
  "zs \<in> shuffles xs ys \<Longrightarrow> sum_list (map f zs) = sum_list (map f xs) + (sum_list (map f ys) :: nat)"
  by (metis mset_map mset_shuffles sum_mset_sum_list sum_mset.union map_append sum_list_append
      mset_append)

lemma sum_interleavings:
  "zs \<in> interleavings ts \<Longrightarrow> sum_list (map f zs) = (\<Sum>t\<leftarrow>ts. sum_list (map f t) :: nat)"
  by (induction ts arbitrary: zs) (auto simp: sum_shuffles)

lemma op_steps_incr: "sum_list (map (step_incr k) (op_steps op)) = events_at k [op]"
  by (cases op) (auto simp: count_steps_def step_incr_def events_at_def)

lemma events_at_append [simp]: "events_at k (xs @ ys) = events_at k xs + events_at k ys"
  by (simp add: events_at_def)

lemma thread_incr: "sum_list (map (step_incr k) (concat (map op_steps ops))) = events_at k ops"
proof (induction ops)
  case (Cons op ops)
  then show ?case using op_steps_incr [of k op] events_at_append [of k "[op]" ops] by simp
qed (simp add: events_at_def)

text \<open>
  C2. No update is lost under concurrency: when several threads record their operations and the
  atomic steps interleave in any order whatsoever, a counter that starts at a natural number ends
  at its start value plus the number of events all the threads recorded for it, as long as that
  total does not exceed 2^53. (The counter is a double: from 2^53 on, adding one changes
  nothing.)
\<close>

theorem interleaved_counters_exact:
  assumes "zs \<in> interleavings (map (\<lambda>ops. concat (map op_steps ops)) threads)"
    and "counter_value r k = Fin (of_nat n)" and "n + events_at k (concat threads) \<le> 2 ^ 53"
  shows "counter_value (fold exec_step zs r) k = Fin (of_nat (n + events_at k (concat threads)))"
proof -
  have all: "events_at k (concat threads) = (\<Sum>ops\<leftarrow>threads. events_at k ops)"
    by (induction threads) (simp_all add: events_at_def)
  have "guarded {} {} zs"
    using assms(1) by (rule guarded_interleavings) (auto intro: guarded_thread)
  moreover have "sum_list (map (step_incr k) zs) = events_at k (concat threads)"
    using sum_interleavings [OF assms(1)] by (simp add: thread_incr o_def all)
  moreover have "refs_valid {} {} r" by (simp add: refs_valid_def)
  ultimately show ?thesis using counter_value_run [of "{}" "{}" zs r k n] assms(2,3) by simp
qed

theorem interleaved_counters_exact_witness:
  "counter_value (fold exec_step
     [GetCounter ''db_operations_total'' ''Total number of database operations'' (db_labels ''x'' True),
      GetCounter ''db_operations_total'' ''Total number of database operations'' (db_labels ''x'' True),
      Increment (''db_operations_total'', db_labels ''x'' True),
      Increment (''db_operations_total'', db_labels ''x'' True)] new_MetricsRegistry)
     (''db_operations_total'', db_labels ''x'' True) = Fin 2"
proof -
  let ?k = "(''db_operations_total'', db_labels ''x'' True)"
  have e: "events_at ?k (concat [[DbOperation ''x'' True], [DbOperation ''x'' True]]) = 2"
    by (simp add: events_at_def)
  let ?g = "GetCounter ''db_operations_total'' ''Total number of database operations'' (db_labels ''x'' True)"
  have mem: "[?g, ?g, Increment ?k, Increment ?k] \<in> interleavings
      (map (\<lambda>ops. concat (map op_steps ops)) [[DbOperation ''x'' True], [DbOperation ''x'' True]])"
    by (simp add: count_steps_def)
  from interleaved_counters_exact [OF mem, of new_MetricsRegistry ?k 0] e show ?thesis by simp
qed

section \<open>A call is the sequence of its atomic steps\<close>

lemma count_event_steps: "count_event n h l r = fold exec_step (count_steps n h l) r"
  by (simp add: count_event_def count_steps_def case_prod_unfold)

lemma apply_op_steps: "apply_op op r = fold exec_step (op_steps op) r"
  by (cases op) (simp_all add: op_defs Let_def case_prod_unfold count_event_steps [symmetric])

section \<open>The class invariant\<close>

lemma set_map_put: "set (map_put k v m) \<subseteq> insert (k, v) (set m)"
  by (induction k v m rule: map_put.induct) auto

lemma set_map_adjust:
  "x \<in> set (map_adjust k f m) \<Longrightarrow> x \<in> set m \<or> (\<exists>v. (k, v) \<in> set m \<and> x = (k, f v))"
  by (induction k f m rule: map_adjust.induct) (auto split: if_splits)

lemma set_umap_put: "set (umap_put k v m) \<subseteq> insert (k, v) (set m)"
  by (induction k v m rule: umap_put.induct) auto

lemma table_ok_um_get: "table_ok P m \<Longrightarrow> map_sorted (um_get m n) \<and> list_all (P n) (um_get m n)"
  by (auto simp: table_ok_def um_get_def list_all_iff split: option.splits dest!: map_of_SomeD)

lemma table_ok_put:
  assumes "table_ok P m" "P n (k, v)"
  shows "table_ok P (umap_put n (map_emplace k v (um_get m n)) m)"
proof -
  let ?ns = "map_emplace k v (um_get m n)"
  have "map_sorted ?ns" using table_ok_um_get [OF assms(1)] by blast
  moreover have "list_all (P n) ?ns"
    using table_ok_um_get [OF assms(1), of n] assms(2) set_map_put [of k v "um_get m n"]
    by (auto simp: map_emplace_def list_all_iff split: option.splits)
  ultimately show ?thesis
    using assms(1) set_umap_put [of n ?ns m] by (fastforce simp: table_ok_def list_all_iff)
qed

lemma table_ok_adjust:
  assumes "table_ok P m" and "\<And>v. P n (k, v) \<Longrightarrow> P n (k, f v)"
  shows "table_ok P (map_adjust n (map_adjust k f) m)"
proof -
  have "map_sorted ns \<and> list_all (P a) ns" if "(a, ns) \<in> set (map_adjust n (map_adjust k f) m)" for a ns
    using set_map_adjust [OF that] assms by (fastforce simp: table_ok_def list_all_iff dest: set_map_adjust)
  with assms(1) show ?thesis by (auto simp: table_ok_def list_all_iff)
qed

lemma registry_ok_new: "registry_ok new_MetricsRegistry"
  by (simp add: registry_ok_def table_ok_def new_MetricsRegistry_def)

lemma registry_ok_emplace_counter:
  "registry_ok r \<Longrightarrow> registry_ok (emplace_counter n (new_Counter n h l) r)"
  by (simp add: registry_ok_def emplace_counter_def Counter_move_def new_Counter_def table_ok_put
      counter_node_ok_def)

lemma registry_ok_emplace_histogram:
  "registry_ok r \<Longrightarrow> registry_ok (emplace_histogram n (new_Histogram n h bs l) r)"
  by (simp add: registry_ok_def emplace_histogram_def Histogram_move_def Histogram_copy_def
      new_Histogram_def table_ok_put histogram_node_ok_def histogram_ok_def)

lemma registry_ok_frame [simp]:
  "registry_ok (r\<lparr>counterHelps := x\<rparr>) = registry_ok r"
  "registry_ok (r\<lparr>histogramHelps := x\<rparr>) = registry_ok r"
  "registry_ok (r\<lparr>initialized := b\<rparr>) = registry_ok r"
  by (simp_all add: registry_ok_def)

lemma registry_ok_exec_step: "registry_ok r \<Longrightarrow> registry_ok (exec_step st r)"
proof (cases st)
  case (Increment ref)
  assume "registry_ok r"
  with Increment show ?thesis
    by (auto simp: registry_ok_def at_counter_def counter_node_ok_def increment_def
        intro!: table_ok_adjust)
next
  case (Observe ref v)
  assume "registry_ok r"
  with Observe show ?thesis
    by (auto simp: registry_ok_def at_histogram_def histogram_node_ok_def
        histogram_ok_def observe_def add.commute intro!: table_ok_adjust)
qed (simp_all add: getCounter_alt getHistogram_alt Let_def registry_ok_emplace_counter
    registry_ok_emplace_histogram)

lemma registry_ok_run: "registry_ok r \<Longrightarrow> registry_ok (fold exec_step ss r)"
  by (induction ss arbitrary: r) (simp_all add: registry_ok_exec_step)

lemma registry_ok_foldl:
  "registry_ok r \<Longrightarrow> (\<And>r x. registry_ok r \<Longrightarrow> registry_ok (f r x)) \<Longrightarrow> registry_ok (foldl f r xs)"
  by (induction xs arbitrary: r) simp_all

lemma registry_ok_initialize: "registry_ok r \<Longrightarrow> registry_ok (fst (initialize r))"
proof -
  assume r: "registry_ok r"
  have "registry_ok (init_http_counters r)" if "registry_ok r" for r
    unfolding init_http_counters_def init_http_counter_def
    by (intro registry_ok_foldl that registry_ok_emplace_counter)
  with r show ?thesis
    by (simp add: initialize_def Let_def registry_ok_emplace_counter registry_ok_emplace_histogram)
qed

text \<open>
  C8. Class invariant of the registry: metric names are unique, the label maps are in strict label
  order, every node carries the name and labels it is filed under, and every histogram's sum
  and count are those of its observations. It holds of the fresh registry and is kept by
  \<open>initialize\<close>, by every recording call, and by every single atomic step of a call, so it holds
  at every point of every interleaving.
\<close>

theorem registry_invariant:
  "registry_ok new_MetricsRegistry \<and>
   (registry_ok r \<longrightarrow>
     registry_ok (fst (initialize r)) \<and> registry_ok (apply_op op r) \<and> registry_ok (exec_step st r))"
  using registry_ok_new registry_ok_initialize registry_ok_exec_step registry_ok_run
  by (auto simp: apply_op_steps)

theorem registry_invariant_witness:
  "registry_ok (exec_step (Observe duration_ref (Fin 1))
     (apply_op (HttpRequest ''GET'' ''/'' 200 (Fin 0)) (fst (initialize new_MetricsRegistry))))"
  using registry_invariant [of new_MetricsRegistry] registry_invariant
  by (metis (no_types))

section \<open>The request histogram\<close>

definition duration_hist :: "double list \<Rightarrow> Histogram" where
  "duration_hist vs = \<lparr>h_sum = foldl dadd (Fin 0) vs, h_count = of_nat (length vs), h_values = vs,
     h_name = ''http_request_duration_seconds'', h_help = http_duration_help,
     h_labels = [], h_buckets = http_buckets\<rparr>"

lemma histogram_at_frame [simp]:
  "histogram_at (count_event n h l r) ref = histogram_at r ref"
  by (simp add: histogram_at_def)

lemma histogram_at_apply_op:
  assumes "histogram_at r duration_ref = Some (duration_hist vs)"
  shows "histogram_at (apply_op op r) duration_ref = Some (duration_hist (vs @ op_duration op))"
proof (cases op)
  case (HttpRequest m p s d)
  let ?r = "count_event ''http_requests_total'' http_total_help (http_labels m p s) r"
  have "map_of (um_get (histograms ?r) ''http_request_duration_seconds'') [] = Some (duration_hist vs)"
    using assms by (simp add: histogram_at_def)
  then show ?thesis
    using HttpRequest
    by (simp add: op_defs Let_def getHistogram_alt histogram_at_def at_histogram_def observe_def
        duration_hist_def add.commute)
qed (use assms in \<open>simp_all add: op_defs Let_def\<close>)

lemma histogram_at_initialize:
  "histogram_at r duration_ref = None \<Longrightarrow> \<not> initialized r \<Longrightarrow>
   histogram_at (fst (initialize r)) duration_ref = Some (duration_hist [])"
  by (simp add: initialize_def Let_def registry_defs histograms_init_http_counters duration_hist_def)

text \<open>
  C9. The request-duration histogram after start-up and any sequence of calls: its observations are
  the durations of the recorded requests in order, its count their number modulo 2^64, its sum
  the left-to-right floating point sum, its buckets the ten configured bounds.
\<close>

theorem duration_histogram:
  "histogram_at (fold apply_op ops (fst (initialize new_MetricsRegistry))) duration_ref =
   Some (duration_hist (concat (map op_duration ops)))"
proof -
  have "histogram_at r duration_ref = Some (duration_hist vs) \<Longrightarrow>
      histogram_at (fold apply_op ops r) duration_ref =
      Some (duration_hist (vs @ concat (map op_duration ops)))" for r vs
    by (induction ops arbitrary: r vs) (simp_all add: histogram_at_apply_op)
  moreover have "histogram_at (fst (initialize new_MetricsRegistry)) duration_ref =
      Some (duration_hist [])"
    by (rule histogram_at_initialize) (simp_all add: histogram_at_def new_MetricsRegistry_def)
  ultimately show ?thesis by fastforce
qed

end
