(* ===== verification/Metrics_Format.thy ===== *)
theory Metrics_Format
  imports Metrics_Props
begin

text \<open>
  Start-up registration and the Prometheus exposition text of \<open>src/metrics.h\<close>: the number of
  pre-registered series, cumulative bucket counts, completeness of the scrape output, and what
  the text looks like for labelled histograms and for unescaped label values.
\<close>

section \<open>Registered series\<close>

lemma http_labels_eq:
  "http_labels m p s = [(''method'', m), (''path'', p), (''status'', show_int s)]"
  by (simp add: http_labels_def)

lemma db_labels_eq: "db_labels n ok = [(''operation'', n), (''success'', show_bool ok)]"
  by (simp add: db_labels_def)

lemma auth_labels_eq: "auth_labels u ok = [(''success'', show_bool ok), (''username'', u)]"
  by (simp add: auth_labels_def)

lemma foldl_add_length:
  "foldl (\<lambda>n p. n + length (snd p)) k m = k + sum_list (map (\<lambda>p. length (snd p)) m)"
  by (induction m arbitrary: k) simp_all

lemma um_get_member: "distinct (map fst m) \<Longrightarrow> p \<in> set m \<Longrightarrow> um_get m (fst p) = snd p"
  by (cases p) (simp add: um_get_def)

lemma table_size:
  assumes "distinct (map fst m)"
  shows "foldl (\<lambda>n p. n + length (snd p)) 0 m = (\<Sum>n \<in> fst ` set m. length (um_get m n))"
proof -
  have "foldl (\<lambda>n p. n + length (snd p)) 0 m = sum_list (map (\<lambda>p. length (um_get m (fst p))) m)"
    using um_get_member [OF assms] by (simp add: foldl_add_length cong: map_cong)
  also have "\<dots> = sum_list (map (\<lambda>n. length (um_get m n)) (map fst m))"
    by (simp add: o_def)
  also have "\<dots> = (\<Sum>n \<in> set (map fst m). length (um_get m n))"
    using assms by (rule sum_list_distinct_conv_sum_set)
  finally show ?thesis by simp
qed

lemma length_sorted_map: "map_sorted ns \<Longrightarrow> length ns = card (fst ` set ns)"
  by (metis distinct_card length_map list.set_map map_sorted_distinct)

lemma registry_ok_distinct:
  "registry_ok r \<Longrightarrow> distinct (map fst (counters r)) \<and> distinct (map fst (histograms r))"
  by (simp add: registry_ok_def table_ok_def)

text \<open>The label sets stored under a metric name.\<close>

definition series :: "MetricsRegistry \<Rightarrow> string \<Rightarrow> Labels set" where
  "series r n = fst ` set (um_get (counters r) n)"

lemma length_series: "registry_ok r \<Longrightarrow> length (um_get (counters r) n) = card (series r n)"
  unfolding series_def registry_ok_def
  using table_ok_um_get length_sorted_map by blast

lemma fst_set_emplace: "fst ` set (map_emplace k v m) = insert k (fst ` set m)"
proof (cases "map_of m k")
  case None
  then show ?thesis by (simp add: map_emplace_def fst_set_map_put)
next
  case (Some w)
  then have "k \<in> fst ` set m" by (metis fst_conv image_eqI map_of_SomeD)
  with Some show ?thesis by (simp add: map_emplace_def insert_absorb)
qed

lemma fst_set_umap_put: "fst ` set (umap_put k v m) = insert k (fst ` set m)"
  by (induction k v m rule: umap_put.induct) auto

lemma series_emplace_counter:
  "series (emplace_counter n c r) x = (if x = n then insert (c_labels c) (series r n) else series r x)"
  by (simp add: series_def emplace_counter_def fst_set_emplace)

lemma series_foldl:
  assumes "\<And>x r. series (f r x) n = A x \<union> series r n"
  shows "series (foldl f r xs) n = (\<Union>x \<in> set xs. A x) \<union> series r n"
  by (induction xs arbitrary: r) (auto simp: assms)

lemma series_init_http_counters:
  "series (init_http_counters r) ''http_requests_total'' =
   (\<Union>m \<in> set init_methods. \<Union>p \<in> set init_paths. \<Union>s \<in> set init_statuses. {http_labels m p s}) \<union>
   series r ''http_requests_total''"
  unfolding init_http_counters_def
  by (intro series_foldl) (simp add: init_http_counter_def series_emplace_counter new_Counter_def)

lemma names_foldl:
  assumes "\<And>x r. fst ` set (counters (f r x)) = insert n (fst ` set (counters r))" and "xs \<noteq> []"
  shows "fst ` set (counters (foldl f r xs)) = insert n (fst ` set (counters r))"
  using assms(2)
proof (induction xs arbitrary: r)
  case (Cons x xs)
  then show ?case by (cases "xs = []") (simp_all add: assms(1))
qed simp

lemma names_init_http_counters:
  "fst ` set (counters (init_http_counters r)) = insert ''http_requests_total'' (fst ` set (counters r))"
  unfolding init_http_counters_def init_methods_def init_paths_def init_statuses_def
  by (intro names_foldl) (simp_all add: init_http_counter_def emplace_counter_def fst_set_umap_put)

lemma card_http_series:
  "card (\<Union>m \<in> set init_methods. \<Union>p \<in> set init_paths. \<Union>s \<in> set init_statuses. {http_labels m p s}) = 315"
proof -
  let ?T = "set init_methods \<times> set init_paths \<times> set init_statuses"
  have "(\<Union>m \<in> set init_methods. \<Union>p \<in> set init_paths. \<Union>s \<in> set init_statuses. {http_labels m p s}) =
      (\<lambda>(m, p, s). http_labels m p s) ` ?T"
    by (fastforce simp: image_iff)
  moreover have "inj_on (\<lambda>(m, p, s). http_labels m p s) ?T"
    by (auto simp: inj_on_def http_labels_eq)
  moreover have "card (set init_methods) = 5" by (simp add: init_methods_def)
  moreover have "card (set init_paths) = 9" by (simp add: init_paths_def)
  moreover have "card (set init_statuses) = 7" by (simp add: init_statuses_def)
  ultimately show ?thesis by (simp only: card_image card_cartesian_product)
qed

lemma getCounterCount_sum:
  "registry_ok r \<Longrightarrow> getCounterCount r = (\<Sum>n \<in> fst ` set (counters r). card (series r n))"
  using table_size [of "counters r"] registry_ok_distinct length_series
  by (simp add: getCounterCount_def)

lemma counters_update_frame [simp]:
  "series (r\<lparr>initialized := b\<rparr>) n = series r n"
  "series (r\<lparr>counterHelps := x\<rparr>) n = series r n"
  "series (r\<lparr>histogramHelps := y\<rparr>) n = series r n"
  "series (emplace_histogram m h r) n = series r n"
  "counters (emplace_histogram m h r) = counters r"
  by (simp_all add: series_def emplace_histogram_def)

lemma initialize_counter_count: "getCounterCount (fst (initialize new_MetricsRegistry)) = 316"
proof -
  let ?r = "fst (initialize new_MetricsRegistry)"
  have ok: "registry_ok ?r" by (simp add: registry_ok_initialize registry_ok_new)
  have new: "series new_MetricsRegistry n = {}" "counters new_MetricsRegistry = []"
    "initialized new_MetricsRegistry = False" for n
    by (simp_all add: series_def new_MetricsRegistry_def)
  have other: "series (init_http_counters r) ''auth_failures_total'' = series r ''auth_failures_total''" for r
    unfolding init_http_counters_def
    by (intro foldl_same_view [where view = "\<lambda>r. series r ''auth_failures_total''"])
      (simp add: init_http_counter_def series_emplace_counter)
  have auth: "series ?r ''auth_failures_total'' = {[]}"
    by (simp add: initialize_def Let_def new series_emplace_counter new_Counter_def other)
  have http: "card (series ?r ''http_requests_total'') = 315"
    by (simp add: initialize_def Let_def new series_emplace_counter series_init_http_counters
        card_http_series)
  have names: "fst ` set (counters ?r) = {''http_requests_total'', ''auth_failures_total''}"
    by (auto simp: initialize_def Let_def new emplace_counter_def fst_set_umap_put
        names_init_http_counters)
  show ?thesis
    by (simp add: getCounterCount_sum [OF ok] names auth http)
qed

lemma initialize_histogram_count: "getHistogramCount (fst (initialize new_MetricsRegistry)) = 1"
  by (simp add: initialize_def Let_def getHistogramCount_def emplace_histogram_def
      histograms_init_http_counters emplace_counter_def new_MetricsRegistry_def map_emplace_def)

lemma initialize_report:
  "snd (initialize new_MetricsRegistry) =
     [''[METRICS] Initializing metrics registry...'',
      ''[METRICS] Initialization complete. Counters: '' @
        show_nat (getCounterCount (fst (initialize new_MetricsRegistry))) @
      '', Histograms: '' @ show_nat (getHistogramCount (fst (initialize new_MetricsRegistry)))]"
  by (simp add: initialize_def Let_def new_MetricsRegistry_def getCounterCount_def
      getHistogramCount_def)

text \<open>
  C13. Start-up registers 316 counters (5 methods by 9 paths by 7 statuses, and the authentication
  failures) and one histogram, prints exactly two lines, the second of which reports 316
  counters and one histogram, and runs once: a later call changes nothing and prints nothing.
  Values recorded before \<open>initialize\<close> ran survive it.
\<close>

theorem initialize_registers:
  "getCounterCount (fst (initialize new_MetricsRegistry)) = 316 \<and>
   getHistogramCount (fst (initialize new_MetricsRegistry)) = 1 \<and>
   snd (initialize new_MetricsRegistry) =
     [''[METRICS] Initializing metrics registry...'',
      ''[METRICS] Initialization complete. Counters: 316, Histograms: 1''] \<and>
   initialize (fst (initialize r)) = (fst (initialize r), []) \<and>
   counter_value (fst (initialize r)) k = counter_value r k \<and>
   observations (fst (initialize r)) k = observations r k"
proof (intro conjI)
  show "snd (initialize new_MetricsRegistry) =
     [''[METRICS] Initializing metrics registry...'',
      ''[METRICS] Initialization complete. Counters: 316, Histograms: 1'']"
    by (simp add: initialize_report initialize_counter_count initialize_histogram_count
        show_nat.simps)
  show "initialize (fst (initialize r)) = (fst (initialize r), [])"
    by (simp add: initialize_def Let_def)
qed (simp_all add: initialize_counter_count initialize_histogram_count counter_value_initialize observations_initialize)

section \<open>Buckets\<close>

lemma length_bump_buckets [simp]:
  "length (bump_buckets bs v ns) = min (length bs) (length ns)"
  by (induction bs v ns rule: bump_buckets.induct) auto

lemma nth_bump_buckets:
  "i < length bs \<Longrightarrow> i < length ns \<Longrightarrow>
   bump_buckets bs v ns ! i = (if dle v (bs ! i) then ns ! i + 1 else ns ! i)"
  by (induction bs v ns arbitrary: i rule: bump_buckets.induct) (auto simp: nth_Cons split: nat.splits)

lemma foldl_bump_buckets:
  "length ns = length bs \<Longrightarrow> i < length bs \<Longrightarrow>
   foldl (\<lambda>cs v. bump_buckets bs v cs) ns vs ! i =
   ns ! i + of_nat (length (filter (\<lambda>v. dle v (bs ! i)) vs))"
  by (induction vs arbitrary: ns) (simp_all add: nth_bump_buckets)

lemma bucketCounts_nth:
  "i < length bs \<Longrightarrow>
   bucketCounts bs vs ! i = of_nat (length (filter (\<lambda>v. dle v (bs ! i)) vs))"
  by (simp add: bucketCounts_def foldl_bump_buckets)

lemma dle_trans: "dle a b \<Longrightarrow> dle b c \<Longrightarrow> dle a c"
  by (cases a; cases b; cases c) auto

text \<open>
  C10. The bucket counts of the exposition are cumulative, as the Prometheus format asks: bucket \<open>i\<close>
  counts the observations not above its bound, a bucket with a larger bound counts at least as
  many, and none exceeds the total. The bound on the number of observations is that of the
  64-bit counters.
\<close>

theorem bucket_counts_cumulative:
  assumes "i < length bs" "j < length bs" "dle (bs ! i) (bs ! j)" "length vs < 2 ^ 64"
  shows "unat (bucketCounts bs vs ! i) = length (filter (\<lambda>v. dle v (bs ! i)) vs) \<and>
         bucketCounts bs vs ! i \<le> bucketCounts bs vs ! j \<and>
         bucketCounts bs vs ! j \<le> of_nat (length vs)"
proof -
  have small: "length (filter P vs) < 2 ^ 64" for P
    using assms(4) length_filter_le [of P vs] by linarith
  have un: "unat (of_nat (length (filter P vs)) :: 64 word) = length (filter P vs)" for P
    using small by (simp add: unat_of_nat)
  have "length (filter (\<lambda>v. dle v (bs ! i)) vs) \<le> length (filter (\<lambda>v. dle v (bs ! j)) vs)"
    using dle_trans [OF _ assms(3)] by (induction vs) auto
  moreover have "unat (of_nat (length vs) :: 64 word) = length vs"
    using assms(4) by (simp add: unat_of_nat)
  ultimately show ?thesis
    using assms(1,2) by (simp add: bucketCounts_nth un word_le_nat_alt length_filter_le)
qed

theorem bucket_counts_cumulative_witness:
  "unat (bucketCounts [Fin 1, Fin 5] [Fin 0, Fin 3, Fin 9] ! 0) = 1 \<and>
   bucketCounts [Fin 1, Fin 5] [Fin 0, Fin 3, Fin 9] ! 0 \<le> bucketCounts [Fin 1, Fin 5] [Fin 0, Fin 3, Fin 9] ! 1"
  using bucket_counts_cumulative [of 0 "[Fin 1, Fin 5]" 1 "[Fin 0, Fin 3, Fin 9]"] by simp

section \<open>The scrape output\<close>

lemma contains_sub_append: "contains_sub t s \<Longrightarrow> contains_sub t (a @ s @ b)"
  unfolding contains_sub_iff by (metis append.assoc)

lemma contains_sub_concat: "x \<in> set xs \<Longrightarrow> contains_sub t x \<Longrightarrow> contains_sub t (concat xs)"
  by (metis append.assoc concat.simps(2) concat_append contains_sub_append split_list)

lemma contains_sub_concat_map:
  "x \<in> set xs \<Longrightarrow> contains_sub t (f x) \<Longrightarrow> contains_sub t (concat (map f xs))"
  by (rule contains_sub_concat [of "f x"]) simp_all

lemma contains_sub_refl: "contains_sub t t"
  unfolding contains_sub_iff by (metis append_Nil append_Nil2)

lemma contains_sub_trans: "contains_sub a b \<Longrightarrow> contains_sub b c \<Longrightarrow> contains_sub a c"
  unfolding contains_sub_iff by (metis append.assoc)

lemma Counter_format_in_output:
  assumes "registry_ok r" "\<And>ks. set (ho ks) = set ks"
    and "map_of (um_get (counters r) n) l = Some c"
  shows "contains_sub (Counter_format c) (format ho r)"
proof -
  have mem: "(l, c) \<in> set (um_get (counters r) n)" using assms(3) by (rule map_of_SomeD)
  then have "map_of (counters r) n \<noteq> None" by (cases "map_of (counters r) n") (simp_all add: um_get_def)
  then have "n \<in> set (ho (map fst (counters r)))"
    unfolding assms(2) by (simp add: map_of_eq_None_iff)
  moreover have "contains_sub (Counter_format c) (concat (map (\<lambda>lc. Counter_format (snd lc)) (um_get (counters r) n)))"
    using mem by (intro contains_sub_concat [of "Counter_format c"] contains_sub_refl) force
  then have "contains_sub (Counter_format c)
      (h @ concat (map (\<lambda>lc. Counter_format (snd lc)) (um_get (counters r) n)))" for h
    using contains_sub_append [of _ _ h "[]"] by simp
  ultimately have "contains_sub (Counter_format c) (concat (map (\<lambda>name.
        formatTypeHelp name (case map_of (counterHelps r) name of None \<Rightarrow> [] | Some h \<Rightarrow> h) ''counter'' @
        concat (map (\<lambda>lc. Counter_format (snd lc)) (um_get (counters r) name)))
       (ho (map fst (counters r)))))"
    by (intro contains_sub_concat_map [of n])
  from contains_sub_append [OF this, of "[]"] show ?thesis unfolding format_def by simp
qed

lemma counter_node_labels:
  "registry_ok r \<Longrightarrow> map_of (um_get (counters r) n) l = Some c \<Longrightarrow> c_name c = n \<and> c_labels c = l"
  using table_ok_um_get [of counter_node_ok "counters r" n]
  by (auto simp: registry_ok_def counter_node_ok_def list_all_iff dest!: map_of_SomeD)

lemma scrape_contains_counter_aux:
  assumes "registry_ok r" and "\<And>ks. set (ho ks) = set ks"
    and "map_of (um_get (counters r) n) l = Some c"
  shows "contains_sub (n @ toString l @ '' '' @ show_fixed 0 (counter_value r (n, l)) @ [nl]) (format ho r)"
  using Counter_format_in_output [OF assms] counter_node_labels [OF assms(1,3)] assms(3)
  by (simp add: Counter_format_def counter_value_def)

text \<open>
  The text is made of pieces that end in a line break, so each piece starts a line: \<open>has_line x s\<close>
  says that \<open>x\<close> occurs in \<open>s\<close> at the start or after a line break.
\<close>

definition ends_nl :: "string \<Rightarrow> bool" where
  "ends_nl s \<longleftrightarrow> s = [] \<or> last s = nl"

definition has_line :: "string \<Rightarrow> string \<Rightarrow> bool" where
  "has_line x s \<longleftrightarrow> contains_sub (nl # x) (nl # s)"

lemma ends_nl_append [simp]: "ends_nl a \<Longrightarrow> ends_nl b \<Longrightarrow> ends_nl (a @ b)"
  by (cases "b = []") (auto simp: ends_nl_def)

lemma ends_nl_snoc [simp]: "ends_nl (a @ [nl])"
  by (simp add: ends_nl_def)

lemma ends_nl_concat: "(\<And>x. x \<in> set xs \<Longrightarrow> ends_nl x) \<Longrightarrow> ends_nl (concat xs)"
  by (induction xs) (simp_all add: ends_nl_def [of "[]"])

lemma has_line_self: "has_line x (x @ s)"
  unfolding has_line_def contains_sub_iff by (metis append_Cons append_Nil)

lemma has_line_append: "has_line x s \<Longrightarrow> has_line x (s @ t)"
  unfolding has_line_def contains_sub_iff by (metis append_Cons append.assoc)

lemma has_line_prepend: "ends_nl a \<Longrightarrow> has_line x s \<Longrightarrow> has_line x (a @ s)"
proof (cases "a = []")
  case False
  assume "ends_nl a" "has_line x s"
  with False have a: "a = butlast a @ [nl]" by (simp add: ends_nl_def) (metis append_butlast_last_id)
  from \<open>has_line x s\<close> have "contains_sub (nl # x) ((nl # butlast a) @ (nl # s) @ [])"
    unfolding has_line_def by (rule contains_sub_append)
  then show ?thesis unfolding has_line_def by (subst a) simp
qed simp

lemma has_line_concat:
  assumes "y \<in> set ys" "has_line x y" "\<And>z. z \<in> set ys \<Longrightarrow> ends_nl z"
  shows "has_line x (concat ys)"
proof -
  from assms(1) obtain p q where ys: "ys = p @ y # q" by (meson split_list)
  have "ends_nl (concat p)" using assms(3) by (intro ends_nl_concat) (simp add: ys)
  then have "has_line x (concat p @ y @ concat q)"
    using assms(2) by (intro has_line_prepend has_line_append)
  then show ?thesis by (simp add: ys)
qed

lemma ends_nl_Counter_format: "ends_nl (Counter_format c)"
  using ends_nl_snoc [of "c_name c @ toString (c_labels c) @ '' '' @ show_fixed 0 (c_value c)"]
  by (simp add: Counter_format_def)

lemma ends_nl_formatTypeHelp: "ends_nl (formatTypeHelp n h t)"
  by (simp add: formatTypeHelp_def ends_nl_def)

lemma ends_nl_Counter_formats: "ends_nl (concat (map (\<lambda>lc. Counter_format (snd lc)) ms))"
  by (rule ends_nl_concat) (auto simp: ends_nl_Counter_format)

lemma scrape_line:
  assumes "registry_ok r" "\<And>ks. set (ho ks) = set ks"
    and "map_of (um_get (counters r) n) l = Some c"
  shows "has_line (Counter_format c) (format ho r)"
proof -
  have mem: "(l, c) \<in> set (um_get (counters r) n)" using assms(3) by (rule map_of_SomeD)
  then have "map_of (counters r) n \<noteq> None" by (cases "map_of (counters r) n") (simp_all add: um_get_def)
  then have n: "n \<in> set (ho (map fst (counters r)))"
    unfolding assms(2) by (simp add: map_of_eq_None_iff)
  let ?lines = "\<lambda>name. map (\<lambda>lc. Counter_format (snd lc)) (um_get (counters r) name)"
  let ?block = "\<lambda>name. formatTypeHelp name
      (case map_of (counterHelps r) name of None \<Rightarrow> [] | Some h \<Rightarrow> h) ''counter'' @ concat (?lines name)"
  have "has_line (Counter_format c) (concat (?lines n))"
    using has_line_self [of "Counter_format c" "[]"] mem
    by (intro has_line_concat [of "Counter_format c"]) (force simp: ends_nl_Counter_format)+
  then have "has_line (Counter_format c) (?block n)"
    by (rule has_line_prepend [OF ends_nl_formatTypeHelp])
  then have "has_line (Counter_format c) (concat (map ?block (ho (map fst (counters r)))))"
    using n by (intro has_line_concat [of "?block n"])
      (auto simp: ends_nl_formatTypeHelp ends_nl_Counter_formats)
  then show ?thesis unfolding format_def by (rule has_line_append)
qed

text \<open>
  C11. A scrape is complete: whatever order the hash map is walked in, the text of \<open>/metrics\<close>
  contains for each registered counter a line of its own with its name, labels and current value:
  the line stands at the start of the text or right after a line break, and a line break ends
  it. (The statement puts a line break before the text, for the line that may come first.)
\<close>

theorem scrape_contains_counter:
  assumes "registry_ok r" and "\<And>ks. set (ho ks) = set ks"
    and "map_of (um_get (counters r) n) l = Some c"
  shows "contains_sub (nl # n @ toString l @ '' '' @ show_fixed 0 (counter_value r (n, l)) @ [nl])
           (nl # format ho r)"
  using scrape_line [OF assms] counter_node_labels [OF assms(1,3)] assms(3)
  by (simp add: has_line_def Counter_format_def counter_value_def)

theorem scrape_contains_counter_witness:
  "contains_sub (nl # ''db_operations_total'' @ toString (db_labels ''x'' True) @ '' 1'' @ [nl])
     (nl # format id (recordDbOperation ''x'' True new_MetricsRegistry))"
proof -
  let ?r = "recordDbOperation ''x'' True new_MetricsRegistry"
  have "registry_ok ?r"
    using registry_ok_run [OF registry_ok_new] apply_op_steps [of "DbOperation ''x'' True"] by simp
  moreover have "counter_value ?r (''db_operations_total'', db_labels ''x'' True) = Fin (of_nat 1)"
    using round64_int [of 1]
    by (simp add: recordDbOperation_def counter_value_count_event)
  moreover obtain c where
    "map_of (um_get (counters ?r) ''db_operations_total'') (db_labels ''x'' True) = Some c"
    by (simp add: recordDbOperation_def count_event_def registry_defs um_get_def new_MetricsRegistry_def)
  moreover have "show_fixed 0 (Fin (of_nat 1)) = ''1''"
    by (simp only: show_fixed_nat) (simp add: show_nat.simps)
  ultimately show ?thesis
    using scrape_contains_counter [of ?r id "''db_operations_total''" "db_labels ''x'' True" c] by simp
qed

section \<open>Label text\<close>

text \<open>Label names without \<open>=\<close> and label values without a double quote.\<close>

definition clean_labels :: "Labels \<Rightarrow> bool" where
  "clean_labels ls \<longleftrightarrow> (\<forall>(k, v) \<in> set ls. CHR ''='' \<notin> set k \<and> dq \<notin> set v)"

lemma split_at_first:
  "c \<notin> set a \<Longrightarrow> c \<notin> set b \<Longrightarrow> a @ c # x = b @ c # y \<longleftrightarrow> a = b \<and> x = y"
proof (induction a arbitrary: b)
  case Nil
  then show ?case by (cases b) auto
next
  case (Cons d a)
  then show ?case by (cases b) auto
qed

lemma toString_loop_inject:
  "clean_labels a \<Longrightarrow> clean_labels b \<Longrightarrow> toString_loop f a = toString_loop f b \<Longrightarrow> a = b"
proof (induction f a arbitrary: b rule: toString_loop.induct)
  case (1 f)
  then show ?case by (cases b) auto
next
  case (2 f k v ps)
  from "2.prems"(3) obtain k' v' qs where b: "b = (k', v') # qs" by (cases b) auto
  have "k = k' \<and> v = v' \<and> toString_loop False ps = toString_loop False qs"
    using "2.prems" by (auto simp: b clean_labels_def split_at_first)
  with "2.IH" "2.prems"(1,2) b show ?case by (auto simp: clean_labels_def)
qed

text \<open>
  C14. For label sets whose names contain no \<open>=\<close> and whose values contain no double quote the
  printed form identifies the label set: two different such series never print the same labels.
  Both conditions are needed, since nothing is escaped.
\<close>

theorem toString_inject:
  assumes "clean_labels a" "clean_labels b" "toString a = toString b"
  shows "a = b"
  using assms toString_loop_inject [of a b True]
  by (auto simp: toString_def split: if_splits)

theorem toString_inject_witness:
  "clean_labels [(''a'', ''x'')] \<and> toString [(''a'', ''x'')] = [CHR ''{'', CHR ''a'', CHR ''='', dq, CHR ''x'', dq, CHR ''}''] \<and>
   [(''a'', ''x'')] = map_put ''a'' ''x'' []"
  using toString_inject [of "[(''a'', ''x'')]" "map_put ''a'' ''x'' []"]
  by (simp add: clean_labels_def toString_def)

text \<open>
  C16. Label values are printed without escaping, so text that a client puts into the user name of a
  login request reaches the scrape output verbatim: a user name with line breaks adds lines of
  the client's choice to \<open>/metrics\<close>.
\<close>

theorem label_value_injection:
  assumes "registry_ok r" and "\<And>ks. set (ho ks) = set ks"
  shows "contains_sub (nl # line @ [nl])
    (format ho (recordAuthAttempt (''x'' @ nl # line @ [nl]) ok r))"
proof -
  let ?u = "''x'' @ nl # line @ [nl]" and ?n = "''auth_attempts_total''"
  let ?r = "recordAuthAttempt ?u ok r"
  have r: "registry_ok ?r"
    by (metis apply_op.simps(3) apply_op_steps assms(1) registry_ok_run)
  have present: "map_of (um_get (counters (count_event n h l r)) n) l \<noteq> None" for n h l r
    using counter_present_getCounter [of n h l r]
    by (auto simp: count_event_def at_counter_def case_prod_unfold Let_def)
  have keep: "map_of (um_get (counters (count_event n h l r)) n') l' \<noteq> None"
    if "map_of (um_get (counters r) n') l' \<noteq> None" for n h l n' l' r
    using that by (auto simp: count_event_def case_prod_unfold registry_defs split: option.splits)
  obtain c where c: "map_of (um_get (counters ?r) ?n) (auth_labels ?u ok) = Some c"
    using keep [OF present] present by (fastforce simp: recordAuthAttempt_def Let_def)
  have "contains_sub (nl # line @ [nl]) ?u"
    using contains_sub_append [OF contains_sub_refl, of "nl # line @ [nl]" "''x''" "[]"] by simp
  moreover have "toString (auth_labels ?u ok) =
      (''{success='' @ [dq] @ show_bool ok @ [dq] @ '',username='' @ [dq]) @ ?u @ (dq # ''}'')"
    by (simp add: auth_labels_eq toString_def)
  ultimately have "contains_sub (nl # line @ [nl]) (toString (auth_labels ?u ok))"
    by (metis contains_sub_append)
  then have "contains_sub (nl # line @ [nl])
      (?n @ toString (auth_labels ?u ok) @ '' '' @ show_fixed 0 (counter_value ?r (?n, auth_labels ?u ok)) @ [nl])"
    by (rule contains_sub_append)
  then show ?thesis
    by (rule contains_sub_trans) (rule scrape_contains_counter_aux [OF r assms(2) c])
qed

theorem label_value_injection_witness:
  "contains_sub (nl # ''http_requests_total 0'' @ [nl])
     (format id (recordAuthAttempt (''x'' @ nl # ''http_requests_total 0'' @ [nl]) False new_MetricsRegistry))"
  by (rule label_value_injection [OF registry_ok_new]) simp

text \<open>
  A histogram with labels prints a doubled closing brace in every bucket line, because the brace
  stripped from the front of the label text is not stripped from its end.
\<close>

lemma labelled_bucket_double_brace:
  "bucket_line name le (labelPart ls) n =
     name @ ''_bucket{le='' @ [dq] @ le @ [dq] @
     (if ls = [] then ''} '' else '','' @ toString_loop True ls @ ''}} '') @ n @ [nl]"
  by (simp add: bucket_line_def labelPart_def toString_def Let_def)

end
