(* ===== verification/Logger.thy ===== *)
theory Logger
  imports Prelude
begin

text \<open>
  \<open>src/logger.h\<close>: the \<open>Logger\<close> singleton. Its fields and the effects it has on the outside (console
  lines, log file lines, shell commands, HTTP posts to Loki) are one record. What it reads from
  the outside is an \<open>env\<close>: the local time at each reading of the clock, whether a file can be
  opened, and the results of the curl calls. \<open>tick\<close> counts the readings, so that each call of
  an external function may give a new answer.

  A call is one step of the model. In the source \<open>write\<close> formats and writes its line under the log
  mutex, but reads \<open>minLevel\<close> before it takes the mutex, and the Loki fields (host, port, service
  name, the flag) are read and set without it; calls that race with \<open>init\<close> or with the Loki
  setters are therefore outside the model.
\<close>

section \<open>State\<close>

datatype LogLevel = DEBUG | INFO | WARNING | ERROR

fun level_num :: "LogLevel \<Rightarrow> nat" where
  "level_num DEBUG = 0"
| "level_num INFO = 1"
| "level_num WARNING = 2"
| "level_num ERROR = 3"

instantiation LogLevel :: linorder
begin

definition less_LogLevel :: "LogLevel \<Rightarrow> LogLevel \<Rightarrow> bool" where
  "less_LogLevel a b \<longleftrightarrow> level_num a < level_num b"

definition less_eq_LogLevel :: "LogLevel \<Rightarrow> LogLevel \<Rightarrow> bool" where
  "less_eq_LogLevel a b \<longleftrightarrow> level_num a \<le> level_num b"

instance
proof
  fix a b :: LogLevel
  show "a \<le> b \<Longrightarrow> b \<le> a \<Longrightarrow> a = b"
    by (cases a; cases b) (simp_all add: less_eq_LogLevel_def)
qed (auto simp: less_LogLevel_def less_eq_LogLevel_def)

end

text \<open>The broken-down local time of \<open>std::localtime\<close> and the milliseconds of the same reading.\<close>

record timestamp =
  tm_year :: nat
  tm_mon :: nat
  tm_mday :: nat
  tm_hour :: nat
  tm_min :: nat
  tm_sec :: nat
  tm_ms :: nat

record env =
  now :: "nat \<Rightarrow> timestamp"
  can_open :: "nat \<Rightarrow> string \<Rightarrow> bool"
  curl_init :: "nat \<Rightarrow> bool"
  curl_perform :: "nat \<Rightarrow> string \<Rightarrow> string \<Rightarrow> bool"
  hash_order :: "string list \<Rightarrow> string list"

text \<open>
  \<open>log_open\<close> is the path the stream is associated with, \<open>log_fail\<close> its failbit. The last fields
  collect the effects in order.
\<close>

record Logger =
  log_open :: "string option"
  log_fail :: bool
  minLevel :: LogLevel
  fileEnabled :: bool
  consoleEnabled :: bool
  lokiFormatEnabled :: bool
  logFilePath :: string
  serviceName :: string
  lokiHost :: string
  lokiPort :: int
  out_lines :: "string list"
  err_lines :: "string list"
  file_lines :: "(string \<times> string) list"
  shell_cmds :: "string list"
  loki_posts :: "(string \<times> string) list"
  tick :: nat

definition new_Logger :: Logger where
  "new_Logger = \<lparr>log_open = None, log_fail = False, minLevel = DEBUG, fileEnabled = False,
     consoleEnabled = True, lokiFormatEnabled = False, logFilePath = ''logs/app.log'',
     serviceName = ''service_system'', lokiHost = ''localhost'', lokiPort = 3100,
     out_lines = [], err_lines = [], file_lines = [], shell_cmds = [], loki_posts = [], tick = 0\<rparr>"

type_synonym LokiLabels = "(string \<times> string) list"

definition LokiLabels_add :: "string \<Rightarrow> string \<Rightarrow> LokiLabels \<Rightarrow> LokiLabels" where
  "LokiLabels_add key val ls = umap_put key val ls"

section \<open>Private members\<close>

text \<open>\<open>%Y-%m-%dT%H:%M:%S\<close>, then a dot, three digits of milliseconds and a \<open>Z\<close>.\<close>

definition getCurrentTimestamp :: "timestamp \<Rightarrow> string" where
  "getCurrentTimestamp t =
     show_nat (tm_year t) @ ''-'' @ pad_zero 2 (show_nat (tm_mon t)) @ ''-'' @
     pad_zero 2 (show_nat (tm_mday t)) @ ''T'' @ pad_zero 2 (show_nat (tm_hour t)) @ '':'' @
     pad_zero 2 (show_nat (tm_min t)) @ '':'' @ pad_zero 2 (show_nat (tm_sec t)) @
     ''.'' @ pad_zero 3 (show_nat (tm_ms t)) @ ''Z''"

fun levelToString :: "LogLevel \<Rightarrow> string" where
  "levelToString DEBUG = ''DEBUG''"
| "levelToString INFO = ''INFO''"
| "levelToString WARNING = ''WARNING''"
| "levelToString ERROR = ''ERROR''"

fun levelToLokiString :: "LogLevel \<Rightarrow> string" where
  "levelToLokiString DEBUG = ''debug''"
| "levelToLokiString INFO = ''info''"
| "levelToLokiString WARNING = ''warning''"
| "levelToLokiString ERROR = ''error''"

text \<open>\<open>logFile << s << std::endl\<close>: a stream with the failbit set writes nothing.\<close>

definition file_write :: "string \<Rightarrow> Logger \<Rightarrow> Logger" where
  "file_write s lg =
     (case log_open lg of
        None \<Rightarrow> lg
      | Some path \<Rightarrow> if log_fail lg then lg else lg\<lparr>file_lines := file_lines lg @ [(path, s)]\<rparr>)"

definition log_write :: "env \<Rightarrow> LogLevel \<Rightarrow> string \<Rightarrow> Logger \<Rightarrow> Logger" where
  "log_write e level message lg =
     (if level < minLevel lg then lg
      else
        (let entry = ''['' @ getCurrentTimestamp (now e (tick lg)) @ ''] '' @
                     ''['' @ levelToString level @ ''] '' @ message;
             lg = lg\<lparr>tick := Suc (tick lg)\<rparr>;
             lg = (if consoleEnabled lg
                   then if level = ERROR then lg\<lparr>err_lines := err_lines lg @ [entry]\<rparr>
                        else lg\<lparr>out_lines := out_lines lg @ [entry]\<rparr>
                   else lg)
         in if fileEnabled lg \<and> log_open lg \<noteq> None then file_write entry lg else lg))"

text \<open>The in-place escaping loop over \<open>escapedMessage\<close>, with its index.\<close>

function escape_loop :: "nat \<Rightarrow> string \<Rightarrow> string" where
  "escape_loop i s =
     (if i < length s
      then if s ! i = dq then escape_loop (i + 1) (s[i := bsl])
           else if s ! i = bsl then escape_loop (i + 1 + 1) (take i s @ bsl # drop i s)
           else if s ! i = nl then escape_loop (i + 1) (s[i := bsl])
           else if s ! i = cr then escape_loop (i + 1) (s[i := bsl])
           else escape_loop (i + 1) s
      else s)"
  by pat_completeness auto
termination
  by (relation "measure (\<lambda>(i, s). length s - i)") auto

declare escape_loop.simps [simp del]

definition loki_payload :: "(string list \<Rightarrow> string list) \<Rightarrow> string \<Rightarrow> string \<Rightarrow> string \<Rightarrow> string \<Rightarrow> LokiLabels \<Rightarrow> string" where
  "loki_payload ho service ts level message labels =
     ''{'' @ [dq] @ ''streams'' @ [dq] @ '':[{'' @ [dq] @ ''stream'' @ [dq] @ '':{'' @ [dq] @ ''app'' @ [dq] @ '':'' @ [dq] @
     service @ [dq] @ '','' @ [dq] @
     [dq] @ ''level'' @ [dq] @ '':'' @ [dq] @ level @ [dq] @ '','' @
     concat (map (\<lambda>k. [dq] @ k @ [dq] @ '':'' @ [dq] @ (case map_of labels k of None \<Rightarrow> [] | Some v \<Rightarrow> v) @ [dq] @ '','')
       (ho (map fst labels))) @
     [dq] @ ''job'' @ [dq] @ '':'' @ [dq] @ ''service_system'' @ [dq] @ ''},'' @ [dq] @ ''values'' @ [dq] @ '':[{'' @
     [dq] @ ''ts'' @ [dq] @ '':'' @ [dq] @ ts @ [dq] @ '', '' @ [dq] @ ''line'' @ [dq] @ '':'' @ [dq] @
     escape_loop 0 message @ [dq] @ ''}]}]}''"

definition loki_url :: "Logger \<Rightarrow> string" where
  "loki_url lg = ''http://'' @ lokiHost lg @ '':'' @ show_int (lokiPort lg) @ ''/loki/api/v1/push''"

definition sendToLoki :: "env \<Rightarrow> string \<Rightarrow> string \<Rightarrow> LokiLabels \<Rightarrow> Logger \<Rightarrow> bool \<times> Logger" where
  "sendToLoki e level message labels lg =
     (if \<not> curl_init e (tick lg) then (False, lg\<lparr>tick := Suc (tick lg)\<rparr>)
      else
        (let payload = loki_payload (hash_order e) (serviceName lg)
                         (getCurrentTimestamp (now e (tick lg))) level message labels;
             url = loki_url lg
         in (curl_perform e (tick lg) url payload,
             lg\<lparr>loki_posts := loki_posts lg @ [(url, payload)], tick := Suc (tick lg)\<rparr>)))"

section \<open>Public members\<close>

text \<open>\<open>find_last_of('/')\<close> and \<open>substr(0, lastSlash)\<close>: the part before the last slash, if any.\<close>

definition dir_part :: "string \<Rightarrow> string option" where
  "dir_part path =
     (if CHR ''/'' \<in> set path
      then Some (rev (tl (dropWhile (\<lambda>c. c \<noteq> CHR ''/'') (rev path)))) else None)"

text \<open>
  \<open>logFile.open(path, std::ios::app)\<close>: opening an already open stream sets the failbit and leaves
  the association; a failed open sets the failbit; a successful one clears it.
\<close>

definition file_open :: "env \<Rightarrow> string \<Rightarrow> Logger \<Rightarrow> Logger" where
  "file_open e path lg =
     (if log_open lg \<noteq> None then lg\<lparr>log_fail := True\<rparr>
      else if can_open e (tick lg) path
           then lg\<lparr>log_open := Some path, log_fail := False, tick := Suc (tick lg)\<rparr>
           else lg\<lparr>log_fail := True, tick := Suc (tick lg)\<rparr>)"

definition init :: "env \<Rightarrow> string \<Rightarrow> LogLevel \<Rightarrow> Logger \<Rightarrow> Logger" where
  "init e filepath level lg =
     (let lg = lg\<lparr>logFilePath := filepath, minLevel := level, fileEnabled := True,
                  consoleEnabled := True, lokiFormatEnabled := False\<rparr>;
          lg = (case dir_part filepath of
                  Some dir \<Rightarrow> lg\<lparr>shell_cmds := shell_cmds lg @ [''mkdir -p '' @ dir]\<rparr>
                | None \<Rightarrow> lg);
          lg = file_open e filepath lg
      in if log_open lg = None then lg\<lparr>fileEnabled := False\<rparr> else lg)"

definition initWithLoki :: "env \<Rightarrow> string \<Rightarrow> LogLevel \<Rightarrow> string \<Rightarrow> int \<Rightarrow> Logger \<Rightarrow> Logger" where
  "initWithLoki e filepath level host port lg =
     (init e filepath level lg)\<lparr>lokiHost := host, lokiPort := port, lokiFormatEnabled := True\<rparr>"

definition setLevel :: "LogLevel \<Rightarrow> Logger \<Rightarrow> Logger" where
  "setLevel level lg = lg\<lparr>minLevel := level\<rparr>"

definition enableConsole :: "bool \<Rightarrow> Logger \<Rightarrow> Logger" where
  "enableConsole enabled lg = lg\<lparr>consoleEnabled := enabled\<rparr>"

definition enableFile :: "env \<Rightarrow> bool \<Rightarrow> Logger \<Rightarrow> Logger" where
  "enableFile e enabled lg =
     (if enabled \<and> log_open lg = None
      then (let lg = file_open e (logFilePath lg) lg
            in if log_open lg = None then lg\<lparr>fileEnabled := False\<rparr> else lg\<lparr>fileEnabled := enabled\<rparr>)
      else lg\<lparr>fileEnabled := enabled\<rparr>)"

definition setServiceName :: "string \<Rightarrow> Logger \<Rightarrow> Logger" where
  "setServiceName name lg = lg\<lparr>serviceName := name\<rparr>"

definition log_debug :: "env \<Rightarrow> string \<Rightarrow> Logger \<Rightarrow> Logger" where
  "log_debug e message = log_write e DEBUG message"

definition log_info :: "env \<Rightarrow> string \<Rightarrow> Logger \<Rightarrow> Logger" where
  "log_info e message = log_write e INFO message"

definition log_warning :: "env \<Rightarrow> string \<Rightarrow> Logger \<Rightarrow> Logger" where
  "log_warning e message = log_write e WARNING message"

definition log_error :: "env \<Rightarrow> string \<Rightarrow> Logger \<Rightarrow> Logger" where
  "log_error e message = log_write e ERROR message"

definition debug_ctx :: "env \<Rightarrow> string \<Rightarrow> string \<Rightarrow> Logger \<Rightarrow> Logger" where
  "debug_ctx e message context = log_write e DEBUG (message @ '' ['' @ context @ '']'')"

definition info_ctx :: "env \<Rightarrow> string \<Rightarrow> string \<Rightarrow> Logger \<Rightarrow> Logger" where
  "info_ctx e message context = log_write e INFO (message @ '' ['' @ context @ '']'')"

definition warning_ctx :: "env \<Rightarrow> string \<Rightarrow> string \<Rightarrow> Logger \<Rightarrow> Logger" where
  "warning_ctx e message context = log_write e WARNING (message @ '' ['' @ context @ '']'')"

definition error_ctx :: "env \<Rightarrow> string \<Rightarrow> string \<Rightarrow> Logger \<Rightarrow> Logger" where
  "error_ctx e message context = log_write e ERROR (message @ '' ['' @ context @ '']'')"

text \<open>The common tail of the structured log calls; the result of \<open>sendToLoki\<close> is ignored.\<close>

definition loki_if_enabled :: "env \<Rightarrow> string \<Rightarrow> string \<Rightarrow> LokiLabels \<Rightarrow> Logger \<Rightarrow> Logger" where
  "loki_if_enabled e level message labels lg =
     (if lokiFormatEnabled lg then snd (sendToLoki e level message labels lg) else lg)"

definition request_message :: "string \<Rightarrow> string \<Rightarrow> string \<Rightarrow> int \<Rightarrow> int \<Rightarrow> string" where
  "request_message ip method path status duration_ms =
     ''HTTP Request: '' @ method @ '' '' @ path @ '' | IP: '' @ ip @ '' | Status: '' @ show_int status @
     '' | Duration: '' @ show_int duration_ms @ ''ms''"

definition logRequest :: "env \<Rightarrow> string \<Rightarrow> string \<Rightarrow> string \<Rightarrow> int \<Rightarrow> int \<Rightarrow> Logger \<Rightarrow> Logger" where
  "logRequest e ip method path status duration_ms lg =
     (let s = request_message ip method path status duration_ms
      in loki_if_enabled e ''info'' s
           (LokiLabels_add ''method'' method (LokiLabels_add ''endpoint'' path
             (LokiLabels_add ''component'' ''webserver'' [])))
           (log_write e INFO s lg))"

definition auth_message :: "string \<Rightarrow> bool \<Rightarrow> string \<Rightarrow> string \<Rightarrow> string" where
  "auth_message username success ip details =
     ''Auth attempt: user='' @ [CHR 0x27] @ username @ [CHR 0x27] @ '' '' @ ''success='' @ show_bool success @ '' ip='' @ ip @
     (if details \<noteq> [] then '' details='' @ details else [])"

definition logAuth :: "env \<Rightarrow> string \<Rightarrow> bool \<Rightarrow> string \<Rightarrow> string \<Rightarrow> Logger \<Rightarrow> Logger" where
  "logAuth e username success ip details lg =
     (let s = auth_message username success ip details
      in loki_if_enabled e (if success then ''info'' else ''warning'') s
           (LokiLabels_add ''ip'' ip (LokiLabels_add ''success'' (show_bool success)
             (LokiLabels_add ''user'' username (LokiLabels_add ''component'' ''auth'' []))))
           (log_write e (if success then INFO else WARNING) s lg))"

definition database_message :: "string \<Rightarrow> bool \<Rightarrow> string \<Rightarrow> string" where
  "database_message operation success details =
     ''DB operation: '' @ operation @ '' | success='' @ show_bool success @
     (if details \<noteq> [] then '' | details='' @ details else [])"

definition logDatabase :: "env \<Rightarrow> string \<Rightarrow> bool \<Rightarrow> string \<Rightarrow> Logger \<Rightarrow> Logger" where
  "logDatabase e operation success details lg =
     (let s = database_message operation success details
      in loki_if_enabled e (if success then ''info'' else ''error'') s
           (LokiLabels_add ''success'' (show_bool success) (LokiLabels_add ''operation'' operation
             (LokiLabels_add ''component'' ''database'' [])))
           (log_write e (if success then INFO else ERROR) s lg))"

definition logDevice :: "env \<Rightarrow> int \<Rightarrow> string \<Rightarrow> bool \<Rightarrow> Logger \<Rightarrow> Logger" where
  "logDevice e deviceId operation success lg =
     (let s = ''Device operation: '' @ operation @ '' | device_id='' @ show_int deviceId @
              '' | success='' @ show_bool success
      in loki_if_enabled e (if success then ''info'' else ''warning'') s
           (LokiLabels_add ''device_id'' (show_int deviceId) (LokiLabels_add ''operation'' operation
             (LokiLabels_add ''component'' ''device'' [])))
           (log_write e (if success then INFO else WARNING) s lg))"

definition logService :: "env \<Rightarrow> int \<Rightarrow> string \<Rightarrow> bool \<Rightarrow> Logger \<Rightarrow> Logger" where
  "logService e recordId operation success lg =
     (let s = ''Service operation: '' @ operation @ '' | record_id='' @ show_int recordId @
              '' | success='' @ show_bool success
      in loki_if_enabled e (if success then ''info'' else ''warning'') s
           (LokiLabels_add ''record_id'' (show_int recordId) (LokiLabels_add ''operation'' operation
             (LokiLabels_add ''component'' ''service'' [])))
           (log_write e (if success then INFO else WARNING) s lg))"

definition logLifecycle :: "env \<Rightarrow> string \<Rightarrow> string \<Rightarrow> Logger \<Rightarrow> Logger" where
  "logLifecycle e event details lg =
     (let s = ''Lifecycle event: '' @ event @ (if details \<noteq> [] then '' | details='' @ details else [])
      in loki_if_enabled e ''info'' s
           (LokiLabels_add ''event'' event (LokiLabels_add ''component'' ''lifecycle'' []))
           (log_write e INFO s lg))"

end
