(* ===== verification/Logger_Props.thy ===== *)
theory Logger_Props
  imports Logger
begin

text \<open>
  Correctness of the logger: which lines a sequence of log calls leaves on each sink, the escaping
  loop against its reference definition, and the outcome of (re-)initialisation.
\<close>

section \<open>Log lines\<close>

definition log_entry :: "env \<Rightarrow> nat \<Rightarrow> LogLevel \<times> string \<Rightarrow> string" where
  "log_entry e t lm = ''['' @ getCurrentTimestamp (now e t) @ ''] '' @
     ''['' @ levelToString (fst lm) @ ''] '' @ snd lm"

text \<open>The accepted records with the clock reading each one uses.\<close>

fun accepted :: "LogLevel \<Rightarrow> nat \<Rightarrow> (LogLevel \<times> string) list \<Rightarrow> (nat \<times> LogLevel \<times> string) list" where
  "accepted m t [] = []"
| "accepted m t (lm # ws) =
     (if fst lm < m then accepted m t ws else (t, lm) # accepted m (Suc t) ws)"

definition entries :: "env \<Rightarrow> (LogLevel \<Rightarrow> bool) \<Rightarrow> (nat \<times> LogLevel \<times> string) list \<Rightarrow> string list" where
  "entries e P ts = map (\<lambda>(t, lm). log_entry e t lm) (filter (\<lambda>(t, lm). P (fst lm)) ts)"

definition write_all :: "env \<Rightarrow> (LogLevel \<times> string) list \<Rightarrow> Logger \<Rightarrow> Logger" where
  "write_all e ws lg = fold (\<lambda>(l, m). log_write e l m) ws lg"

lemma log_write_eq:
  "log_write e l m lg =
     (if l < minLevel lg then lg
      else lg\<lparr>tick := Suc (tick lg),
              out_lines := out_lines lg @
                (if consoleEnabled lg \<and> l \<noteq> ERROR then [log_entry e (tick lg) (l, m)] else []),
              err_lines := err_lines lg @
                (if consoleEnabled lg \<and> l = ERROR then [log_entry e (tick lg) (l, m)] else []),
              file_lines := file_lines lg @
                (case log_open lg of Some p \<Rightarrow>
                   if fileEnabled lg \<and> \<not> log_fail lg then [(p, log_entry e (tick lg) (l, m))] else []
                 | None \<Rightarrow> [])\<rparr>)"
  by (auto simp: log_write_def log_entry_def Let_def file_write_def split: option.splits)

lemma log_write_frame [simp]:
  "minLevel (log_write e l m lg) = minLevel lg"
  "consoleEnabled (log_write e l m lg) = consoleEnabled lg"
  "fileEnabled (log_write e l m lg) = fileEnabled lg"
  "log_open (log_write e l m lg) = log_open lg"
  "log_fail (log_write e l m lg) = log_fail lg"
  "tick (log_write e l m lg) = (if l < minLevel lg then tick lg else Suc (tick lg))"
  by (simp_all add: log_write_eq)

lemma write_all_Nil [simp]: "write_all e [] lg = lg"
  by (simp add: write_all_def)

lemma write_all_Cons [simp]: "write_all e ((l, m) # ws) lg = write_all e ws (log_write e l m lg)"
  by (simp add: write_all_def)

lemma entries_simps [simp]:
  "entries e P [] = []"
  "entries e P ((t, l, m) # ts) = (if P l then log_entry e t (l, m) # entries e P ts else entries e P ts)"
  by (simp_all add: entries_def)

lemma write_all_out:
  "out_lines (write_all e ws lg) = out_lines lg @
     (if consoleEnabled lg then entries e (\<lambda>l. l \<noteq> ERROR) (accepted (minLevel lg) (tick lg) ws) else [])"
proof (induction ws arbitrary: lg)
  case (Cons w ws)
  then show ?case by (cases w) (simp add: Cons.IH, simp add: log_write_eq)
qed simp

lemma write_all_err:
  "err_lines (write_all e ws lg) = err_lines lg @
     (if consoleEnabled lg then entries e (\<lambda>l. l = ERROR) (accepted (minLevel lg) (tick lg) ws) else [])"
proof (induction ws arbitrary: lg)
  case (Cons w ws)
  then show ?case by (cases w) (simp add: Cons.IH, simp add: log_write_eq)
qed simp

lemma write_all_file:
  "file_lines (write_all e ws lg) = file_lines lg @
     (case log_open lg of
        None \<Rightarrow> []
      | Some p \<Rightarrow>
          if fileEnabled lg \<and> \<not> log_fail lg
          then map (Pair p) (entries e (\<lambda>_. True) (accepted (minLevel lg) (tick lg) ws)) else [])"
proof (induction ws arbitrary: lg)
  case (Cons w ws)
  then show ?case
    by (cases w; cases "log_open lg") (simp_all add: Cons.IH, simp_all add: log_write_eq)
qed (simp split: option.split)

text \<open>
  C12. For any sequence of log calls on any logger: exactly the records at or above the minimum
  level are written, each once and in order. The \<open>ERROR\<close> records go to standard error and the
  others to standard output when the console is enabled, and nothing goes to either when it is
  not; all of them go to the log file when file logging is enabled and the stream is open and has
  not failed, and none otherwise.
\<close>

theorem log_sinks:
  "out_lines (write_all e ws lg) = out_lines lg @
     (if consoleEnabled lg then entries e (\<lambda>l. l \<noteq> ERROR) (accepted (minLevel lg) (tick lg) ws) else []) \<and>
   err_lines (write_all e ws lg) = err_lines lg @
     (if consoleEnabled lg then entries e (\<lambda>l. l = ERROR) (accepted (minLevel lg) (tick lg) ws) else []) \<and>
   file_lines (write_all e ws lg) = file_lines lg @
     (case log_open lg of
        None \<Rightarrow> []
      | Some p \<Rightarrow>
          if fileEnabled lg \<and> \<not> log_fail lg
          then map (Pair p) (entries e (\<lambda>_. True) (accepted (minLevel lg) (tick lg) ws)) else [])"
  by (simp add: write_all_out write_all_err write_all_file)

definition example_env :: env where
  "example_env = \<lparr>now = (\<lambda>t. \<lparr>tm_year = 2024, tm_mon = 1, tm_mday = 15, tm_hour = 9, tm_min = 5,
       tm_sec = 7, tm_ms = 42\<rparr>),
     can_open = (\<lambda>_ _. True), curl_init = (\<lambda>_. True), curl_perform = (\<lambda>_ _ _. True), hash_order = id\<rparr>"

theorem log_sinks_witness:
  "err_lines (write_all example_env [(DEBUG, ''d''), (ERROR, ''x''), (INFO, ''y'')]
     (init example_env ''logs/a.log'' INFO new_Logger)) = [''[2024-01-15T09:05:07.042Z] [ERROR] x'']"
proof -
  let ?lg = "init example_env ''logs/a.log'' INFO new_Logger"
  have lg: "consoleEnabled ?lg \<and> fileEnabled ?lg \<and> log_open ?lg = Some ''logs/a.log'' \<and> \<not> log_fail ?lg \<and>
      minLevel ?lg = INFO \<and> err_lines ?lg = []"
    by (simp add: init_def new_Logger_def dir_part_def file_open_def Let_def example_env_def)
  have "log_entry example_env t (ERROR, ''x'') = ''[2024-01-15T09:05:07.042Z] [ERROR] x''" for t
    by (simp add: log_entry_def getCurrentTimestamp_def show_nat.simps pad_zero_def example_env_def)
  then show ?thesis
    using log_sinks [of example_env "[(DEBUG, ''d''), (ERROR, ''x''), (INFO, ''y'')]" ?lg] lg
    by (simp add: less_LogLevel_def)
qed

section \<open>Escaping\<close>

text \<open>The reference: what each character of the message becomes.\<close>

definition esc_char :: "char \<Rightarrow> string" where
  "esc_char c = (if c = dq \<or> c = nl \<or> c = cr then [bsl] else if c = bsl then [bsl, bsl] else [c])"

lemma escape_loop_append:
  "escape_loop (length p) (p @ s) = p @ concat (map esc_char s)"
proof (induction s arbitrary: p)
  case Nil
  then show ?case by (simp add: escape_loop.simps)
next
  case (Cons c s)
  have snoc: "escape_loop (Suc (length p)) (p @ d # s) = p @ d # concat (map esc_char s)" for d
    using Cons.IH [of "p @ [d]"] by simp
  have snoc2: "escape_loop (Suc (Suc (length p))) (p @ d # d' # s) = p @ d # d' # concat (map esc_char s)" for d d'
    using Cons.IH [of "p @ [d, d']"] by simp
  show ?case
    by (subst escape_loop.simps) (simp add: snoc snoc2 esc_char_def)
qed

text \<open>
  The index-based in-place loop that escapes a log message equals the character-wise map: double
  quotes and line breaks become one backslash, a backslash becomes two.
\<close>

lemma escape_loop_eq: "escape_loop 0 s = concat (map esc_char s)"
  using escape_loop_append [of "[]" s] by simp

text \<open>
  The escaped message contains no raw double quote or line break, but it is not a faithful
  encoding: a quote and a line break give the same text, and a message that ends in a double
  quote ends in a lone backslash, which escapes the quote that closes the JSON string.
\<close>

lemma escape_loop_flaws:
  "dq \<notin> set (escape_loop 0 s) \<and> nl \<notin> set (escape_loop 0 s) \<and> cr \<notin> set (escape_loop 0 s) \<and>
   escape_loop 0 (a @ dq # b) = escape_loop 0 (a @ nl # b) \<and>
   escape_loop 0 (a @ [dq]) @ [dq] = escape_loop 0 a @ [bsl, dq]"
  by (auto simp: escape_loop_eq esc_char_def)

section \<open>Initialisation\<close>

text \<open>
  C15. Outcome of \<open>init\<close>: file logging is enabled exactly when the stream is open afterwards, and a
  logger whose stream was already open stops writing to any file although it stays enabled,
  because reopening an open stream only sets its failbit.
\<close>

theorem init_outcome:
  "(fileEnabled (init e path lvl lg) \<longleftrightarrow> log_open (init e path lvl lg) \<noteq> None) \<and>
   (log_open lg = None \<longrightarrow>
      (log_open (init e path lvl lg) = Some path \<longleftrightarrow> can_open e (tick lg) path) \<and>
      (can_open e (tick lg) path \<longrightarrow> \<not> log_fail (init e path lvl lg))) \<and>
   (log_open lg \<noteq> None \<longrightarrow>
      fileEnabled (init e path lvl lg) \<and> file_lines (write_all e' ws (init e path lvl lg)) = file_lines lg)"
proof -
  have "fileEnabled (init e path lvl lg) \<longleftrightarrow> log_open (init e path lvl lg) \<noteq> None"
    by (simp add: init_def Let_def file_open_def split: option.splits)
  moreover have "log_open lg = None \<Longrightarrow>
      (log_open (init e path lvl lg) = Some path \<longleftrightarrow> can_open e (tick lg) path) \<and>
      (can_open e (tick lg) path \<longrightarrow> \<not> log_fail (init e path lvl lg))"
    by (auto simp: init_def Let_def file_open_def split: option.splits)
  moreover have "log_open (init e path lvl lg) = log_open lg \<and> log_fail (init e path lvl lg) \<and>
      file_lines (init e path lvl lg) = file_lines lg" if "log_open lg \<noteq> None"
    using that by (auto simp: init_def Let_def file_open_def split: option.splits)
  ultimately show ?thesis by (auto simp: write_all_file)
qed

theorem init_outcome_witness:
  "fileEnabled (init example_env ''b.log'' INFO (init example_env ''a.log'' INFO new_Logger)) \<and>
   file_lines (write_all example_env [(ERROR, ''x'')]
     (init example_env ''b.log'' INFO (init example_env ''a.log'' INFO new_Logger))) = []"
proof -
  define lg where "lg = init example_env ''a.log'' INFO new_Logger"
  have "log_open lg = Some ''a.log'' \<and> file_lines lg = []"
    by (simp add: lg_def example_env_def init_def Let_def new_Logger_def dir_part_def file_open_def)
  then show ?thesis
    using init_outcome [of example_env "''b.log''" INFO lg example_env "[(ERROR, ''x'')]"]
    by (auto simp: lg_def)
qed

end
