(* ===== verification/Json_Lexer.thy ===== *)
theory Json_Lexer
  imports Double
begin

text \<open>
  The scanner of \<open>include/nlohmann/json.hpp\<close> (class \<open>lexer\<close>), which reads every request body and the
  configuration file. The members of the class are a record; \<open>current = None\<close> is
  \<open>char_traits::eof()\<close>. Scan functions return the token type and the new lexer; loops are
  recursive functions that terminate because every turn consumes input. The positions are
  natural numbers (an input of 2^64 bytes is out of reach), and the locale is \<open>"C"\<close>, whose
  decimal point is a dot, as the program never sets another one.
\<close>

datatype token_type = uninitialized | literal_true | literal_false | literal_null | value_string
  | value_unsigned | value_integer | value_float | begin_array | begin_object | end_array
  | end_object | name_separator | value_separator | parse_error | end_of_input | literal_or_value

fun token_type_name :: "token_type \<Rightarrow> string" where
  "token_type_name uninitialized = ''<uninitialized>''"
| "token_type_name literal_true = ''true literal''"
| "token_type_name literal_false = ''false literal''"
| "token_type_name literal_null = ''null literal''"
| "token_type_name value_string = ''string literal''"
| "token_type_name value_unsigned = ''number literal''"
| "token_type_name value_integer = ''number literal''"
| "token_type_name value_float = ''number literal''"
| "token_type_name begin_array = [CHR 0x27, CHR ''['', CHR 0x27]"
| "token_type_name begin_object = [CHR 0x27, CHR ''{'', CHR 0x27]"
| "token_type_name end_array = [CHR 0x27, CHR '']'', CHR 0x27]"
| "token_type_name end_object = [CHR 0x27, CHR ''}'', CHR 0x27]"
| "token_type_name name_separator = [CHR 0x27, CHR '':'', CHR 0x27]"
| "token_type_name value_separator = [CHR 0x27, CHR '','', CHR 0x27]"
| "token_type_name parse_error = ''<parse error>''"
| "token_type_name end_of_input = ''end of input''"
| "token_type_name literal_or_value =
     [CHR 0x27, CHR ''['', CHR 0x27] @ '', '' @ [CHR 0x27, CHR ''{'', CHR 0x27] @ '', or a literal''"

record lexer =
  input :: string
  current :: "char option"
  next_unget :: bool
  chars_read_total :: nat
  chars_read_current_line :: nat
  lines_read :: nat
  token_string :: string
  token_buffer :: string
  error_message :: string
  num_unsigned :: nat
  num_integer :: int
  num_float :: double

definition new_lexer :: "string \<Rightarrow> lexer" where
  "new_lexer s = \<lparr>input = s, current = None, next_unget = False, chars_read_total = 0,
     chars_read_current_line = 0, lines_read = 0, token_string = [], token_buffer = [],
     error_message = [], num_unsigned = 0, num_integer = 0, num_float = Fin 0\<rparr>"

abbreviation byte :: "char \<Rightarrow> nat" where
  "byte c \<equiv> of_char c"

section \<open>Input management\<close>

definition lex_reset :: "lexer \<Rightarrow> lexer" where
  "lex_reset s = s\<lparr>token_buffer := [],
     token_string := (case current s of Some c \<Rightarrow> [c] | None \<Rightarrow> [CHR 0xFF])\<rparr>"

definition lex_fetch :: "lexer \<Rightarrow> lexer" where
  "lex_fetch s =
     (if next_unget s then s\<lparr>next_unget := False\<rparr>
      else case input s of
             [] \<Rightarrow> s\<lparr>current := None\<rparr>
           | c # cs \<Rightarrow> s\<lparr>current := Some c, input := cs\<rparr>)"

definition lex_note :: "lexer \<Rightarrow> lexer" where
  "lex_note s =
     (case current s of
        None \<Rightarrow> s
      | Some c \<Rightarrow>
          if c = nl
          then s\<lparr>token_string := token_string s @ [c], lines_read := Suc (lines_read s),
                 chars_read_current_line := 0\<rparr>
          else s\<lparr>token_string := token_string s @ [c]\<rparr>)"

definition lex_get :: "lexer \<Rightarrow> lexer" where
  "lex_get s = lex_note (lex_fetch (s\<lparr>chars_read_total := Suc (chars_read_total s),
     chars_read_current_line := Suc (chars_read_current_line s)\<rparr>))"

definition lex_unget :: "lexer \<Rightarrow> lexer" where
  "lex_unget s =
     (let s = s\<lparr>next_unget := True, chars_read_total := chars_read_total s - 1\<rparr>;
          s = (if chars_read_current_line s = 0
               then if 0 < lines_read s then s\<lparr>lines_read := lines_read s - 1\<rparr> else s
               else s\<lparr>chars_read_current_line := chars_read_current_line s - 1\<rparr>)
      in if current s \<noteq> None then s\<lparr>token_string := butlast (token_string s)\<rparr> else s)"

definition lex_add :: "char \<Rightarrow> lexer \<Rightarrow> lexer" where
  "lex_add c s = s\<lparr>token_buffer := token_buffer s @ [c]\<rparr>"

definition add_current :: "lexer \<Rightarrow> lexer" where
  "add_current s = (case current s of Some c \<Rightarrow> lex_add c s | None \<Rightarrow> s)"

definition lex_error :: "string \<Rightarrow> lexer \<Rightarrow> token_type \<times> lexer" where
  "lex_error msg s = (parse_error, s\<lparr>error_message := msg\<rparr>)"

text \<open>The bytes a scan can still consume: the decreasing measure of every loop.\<close>

definition remaining :: "lexer \<Rightarrow> nat" where
  "remaining s = length (input s) + (if next_unget s \<and> current s \<noteq> None then 1 else 0)"

named_theorems remaining_intros \<open>scan functions never give input back\<close>

lemma lex_get_state:
  "next_unget (lex_get s) = False"
  "current (lex_get s) = (if next_unget s then current s else case input s of [] \<Rightarrow> None | c # _ \<Rightarrow> Some c)"
  "input (lex_get s) = (if next_unget s then input s else tl (input s))"
  "token_buffer (lex_get s) = token_buffer s"
  "error_message (lex_get s) = error_message s"
  by (simp_all add: lex_get_def lex_note_def lex_fetch_def split: option.split list.split)

lemma remaining_lex_get_le: "remaining (lex_get s) \<le> remaining s"
  by (cases "input s") (simp_all add: remaining_def lex_get_state)

lemma remaining_lex_get_less: "current (lex_get s) \<noteq> None \<Longrightarrow> remaining (lex_get s) < remaining s"
  by (cases "input s") (auto simp: remaining_def lex_get_state split: if_splits)

lemma remaining_lex_getI [remaining_intros]: "remaining s \<le> n \<Longrightarrow> remaining (lex_get s) \<le> n"
  using remaining_lex_get_le order_trans by blast

lemma remaining_simps [simp]:
  "remaining (lex_add c s) = remaining s"
  "remaining (add_current s) = remaining s"
  "remaining (lex_reset s) = remaining s"
  "remaining (s\<lparr>error_message := msg\<rparr>) = remaining s"
  "current (lex_add c s) = current s"
  "current (add_current s) = current s"
  "current (lex_reset s) = current s"
  "next_unget (lex_add c s) = next_unget s"
  "next_unget (add_current s) = next_unget s"
  "next_unget (lex_reset s) = next_unget s"
  by (simp_all add: lex_add_def add_current_def lex_reset_def remaining_def split: option.splits)

lemma remaining_lex_unget:
  "\<not> next_unget s \<Longrightarrow> remaining (lex_unget s) = remaining s + (if current s = None then 0 else 1)"
  by (simp add: lex_unget_def Let_def remaining_def)

section \<open>Strings\<close>

definition hex_digit :: "char \<Rightarrow> nat option" where
  "hex_digit c =
     (if CHR ''0'' \<le> c \<and> c \<le> CHR ''9'' then Some (byte c - 0x30)
      else if CHR ''A'' \<le> c \<and> c \<le> CHR ''F'' then Some (byte c - 0x37)
      else if CHR ''a'' \<le> c \<and> c \<le> CHR ''f'' then Some (byte c - 0x57)
      else None)"

text \<open>The loop over \<open>factors\<close>; \<open>-1\<close> on a character that is not a hex digit or at the end.\<close>

fun get_codepoint_loop :: "nat list \<Rightarrow> int \<Rightarrow> lexer \<Rightarrow> int \<times> lexer" where
  "get_codepoint_loop [] codepoint s = (codepoint, s)"
| "get_codepoint_loop (factor # fs) codepoint s =
     (let s = lex_get s
      in case Option.bind (current s) hex_digit of
           None \<Rightarrow> (- 1, s)
         | Some d \<Rightarrow> get_codepoint_loop fs (codepoint + int d * 2 ^ factor) s)"

definition get_codepoint :: "lexer \<Rightarrow> int \<times> lexer" where
  "get_codepoint s = get_codepoint_loop [12, 8, 4, 0] 0 s"

fun next_byte_loop :: "(nat \<times> nat) list \<Rightarrow> lexer \<Rightarrow> bool \<times> lexer" where
  "next_byte_loop [] s = (True, s)"
| "next_byte_loop ((lo, hi) # ranges) s =
     (let s = lex_get s
      in case current s of
           Some c \<Rightarrow>
             if lo \<le> byte c \<and> byte c \<le> hi then next_byte_loop ranges (lex_add c s)
             else (False, s\<lparr>error_message := ''invalid string: ill-formed UTF-8 byte''\<rparr>)
         | None \<Rightarrow> (False, s\<lparr>error_message := ''invalid string: ill-formed UTF-8 byte''\<rparr>))"

definition next_byte_in_range :: "(nat \<times> nat) list \<Rightarrow> lexer \<Rightarrow> bool \<times> lexer" where
  "next_byte_in_range ranges s = next_byte_loop ranges (add_current s)"

text \<open>UTF-8 bytes of a code point, as \<open>scan_string\<close> assembles them with shifts and masks.\<close>

definition codepoint_bytes :: "nat \<Rightarrow> string" where
  "codepoint_bytes cp =
     (if cp < 0x80 then [char_of cp]
      else if cp \<le> 0x7FF then [char_of (0xC0 + cp div 2 ^ 6), char_of (0x80 + cp mod 2 ^ 6)]
      else if cp \<le> 0xFFFF
      then [char_of (0xE0 + cp div 2 ^ 12), char_of (0x80 + cp div 2 ^ 6 mod 2 ^ 6),
            char_of (0x80 + cp mod 2 ^ 6)]
      else [char_of (0xF0 + cp div 2 ^ 18), char_of (0x80 + cp div 2 ^ 12 mod 2 ^ 6),
            char_of (0x80 + cp div 2 ^ 6 mod 2 ^ 6), char_of (0x80 + cp mod 2 ^ 6)])"

definition add_all :: "string \<Rightarrow> lexer \<Rightarrow> lexer" where
  "add_all bs s = foldl (\<lambda>s c. lex_add c s) s bs"

definition surrogate_error :: string where
  "surrogate_error =
     ''invalid string: surrogate U+D800..U+DBFF must be followed by U+DC00..U+DFFF''"

definition hex_error :: string where
  "hex_error = ''invalid string: '' @ [CHR 0x27, bsl] @ ''u'' @ [CHR 0x27] @ '' must be followed by 4 hex digits''"

text \<open>
  A \<open>\u\<close> escape. The result is \<open>Some t\<close> when the scan function returns \<open>t\<close>, \<open>None\<close> when its
  loop goes on.
\<close>

definition scan_unicode :: "lexer \<Rightarrow> token_type option \<times> lexer" where
  "scan_unicode s =
     (let (cp1, s) = get_codepoint s
      in if cp1 = - 1 then apfst Some (lex_error hex_error s)
         else if 0xD800 \<le> cp1 \<and> cp1 \<le> 0xDBFF
         then (let s = lex_get s
               in if current s = Some bsl
                  then (let s = lex_get s
                        in if current s = Some CHR ''u''
                           then (let (cp2, s) = get_codepoint s
                                 in if cp2 = - 1 then apfst Some (lex_error hex_error s)
                                    else if 0xDC00 \<le> cp2 \<and> cp2 \<le> 0xDFFF
                                    then (None, add_all (codepoint_bytes
                                            (nat (cp1 * 2 ^ 10 + cp2 - 0x35FDC00))) s)
                                    else apfst Some (lex_error surrogate_error s))
                           else apfst Some (lex_error surrogate_error s))
                  else apfst Some (lex_error surrogate_error s))
         else if 0xDC00 \<le> cp1 \<and> cp1 \<le> 0xDFFF
         then apfst Some (lex_error
                ''invalid string: surrogate U+DC00..U+DFFF must follow U+D800..U+DBFF'' s)
         else (None, add_all (codepoint_bytes (nat cp1)) s))"

definition simple_escape :: "char \<Rightarrow> char option" where
  "simple_escape c =
     (if c = dq then Some dq
      else if c = bsl then Some bsl
      else if c = CHR ''/'' then Some CHR ''/''
      else if c = CHR ''b'' then Some CHR 0x08
      else if c = CHR ''f'' then Some CHR 0x0C
      else if c = CHR ''n'' then Some CHR 0x0A
      else if c = CHR ''r'' then Some CHR 0x0D
      else if c = CHR ''t'' then Some CHR 0x09
      else None)"

definition scan_escape :: "lexer \<Rightarrow> token_type option \<times> lexer" where
  "scan_escape s =
     (let s = lex_get s
      in case Option.bind (current s) simple_escape of
           Some c \<Rightarrow> (None, lex_add c s)
         | None \<Rightarrow>
             if current s = Some CHR ''u'' then scan_unicode s
             else apfst Some (lex_error ''invalid string: forbidden character after backslash'' s))"

text \<open>The names in the messages about unescaped control characters, U+0000 to U+001F.\<close>

definition control_names :: "string list" where
  "control_names = [''NUL'', ''SOH'', ''STX'', ''ETX'', ''EOT'', ''ENQ'', ''ACK'', ''BEL'',
     ''BS'', ''HT'', ''LF'', ''VT'', ''FF'', ''CR'', ''SO'', ''SI'',
     ''DLE'', ''DC1'', ''DC2'', ''DC3'', ''DC4'', ''NAK'', ''SYN'', ''ETB'',
     ''CAN'', ''EM'', ''SUB'', ''ESC'', ''FS'', ''GS'', ''RS'', ''US'']"

definition hex_upper :: "nat \<Rightarrow> char" where
  "hex_upper d = (if d < 10 then digit_char d else char_of (55 + d))"

definition hex4 :: "nat \<Rightarrow> string" where
  "hex4 n = [hex_upper (n div 4096 mod 16), hex_upper (n div 256 mod 16),
     hex_upper (n div 16 mod 16), hex_upper (n mod 16)]"

definition control_short :: "nat \<Rightarrow> string" where
  "control_short n =
     (if n = 8 then '' or '' @ [bsl] @ ''b'' else if n = 9 then '' or '' @ [bsl] @ ''t''
      else if n = 10 then '' or '' @ [bsl] @ ''n'' else if n = 12 then '' or '' @ [bsl] @ ''f''
      else if n = 13 then '' or '' @ [bsl] @ ''r'' else [])"

definition control_message :: "nat \<Rightarrow> string" where
  "control_message n =
     ''invalid string: control character U+'' @ hex4 n @ '' ('' @ control_names ! n @
     '') must be escaped to '' @ [bsl] @ ''u'' @ hex4 n @ control_short n"

text \<open>The continuation ranges after a lead byte of a multi-byte sequence.\<close>

definition utf8_ranges :: "nat \<Rightarrow> (nat \<times> nat) list option" where
  "utf8_ranges b =
     (if 0xC2 \<le> b \<and> b \<le> 0xDF then Some [(0x80, 0xBF)]
      else if b = 0xE0 then Some [(0xA0, 0xBF), (0x80, 0xBF)]
      else if 0xE1 \<le> b \<and> b \<le> 0xEC \<or> b = 0xEE \<or> b = 0xEF then Some [(0x80, 0xBF), (0x80, 0xBF)]
      else if b = 0xED then Some [(0x80, 0x9F), (0x80, 0xBF)]
      else if b = 0xF0 then Some [(0x90, 0xBF), (0x80, 0xBF), (0x80, 0xBF)]
      else if 0xF1 \<le> b \<and> b \<le> 0xF3 then Some [(0x80, 0xBF), (0x80, 0xBF), (0x80, 0xBF)]
      else if b = 0xF4 then Some [(0x80, 0x8F), (0x80, 0xBF), (0x80, 0xBF)]
      else None)"

text \<open>The body of the \<open>while (true)\<close> loop of \<open>scan_string\<close>, after \<open>get()\<close>.\<close>

definition scan_string_step :: "lexer \<Rightarrow> token_type option \<times> lexer" where
  "scan_string_step s =
     (case current s of
        None \<Rightarrow> apfst Some (lex_error ''invalid string: missing closing quote'' s)
      | Some c \<Rightarrow>
          if c = dq then (Some value_string, s)
          else if c = bsl then scan_escape s
          else if byte c \<le> 0x1F then apfst Some (lex_error (control_message (byte c)) s)
          else if byte c \<le> 0x7F then (None, add_current s)
          else case utf8_ranges (byte c) of
                 Some ranges \<Rightarrow>
                   (let (ok, s) = next_byte_in_range ranges s
                    in if ok then (None, s) else (Some parse_error, s))
               | None \<Rightarrow> apfst Some (lex_error ''invalid string: ill-formed UTF-8 byte'' s))"

lemma remaining_lex_error [simp]:
  "remaining (snd (lex_error m s)) = remaining s" "fst (lex_error m s) = parse_error"
  by (simp_all add: lex_error_def)

lemma snd_apfst [simp]: "snd (apfst f p) = snd p"
  by (cases p) simp

lemma remaining_add_all [simp]: "remaining (add_all bs s) = remaining s"
proof -
  have "remaining (foldl (\<lambda>s c. lex_add c s) s bs) = remaining s"
    by (induction bs arbitrary: s) simp_all
  then show ?thesis by (simp add: add_all_def)
qed

lemma remaining_get_codepoint_loop:
  "remaining s \<le> n \<Longrightarrow> remaining (snd (get_codepoint_loop fs cp s)) \<le> n"
proof (induction fs arbitrary: cp s)
  case (Cons f fs)
  have "remaining (lex_get s) \<le> n" using Cons.prems by (rule remaining_lex_getI)
  with Cons.IH show ?case by (simp add: Let_def split: option.split)
qed simp

lemma remaining_get_codepointI [remaining_intros]:
  "remaining s \<le> n \<Longrightarrow> remaining (snd (get_codepoint s)) \<le> n"
  unfolding get_codepoint_def by (rule remaining_get_codepoint_loop)

lemma remaining_next_byte_loop:
  "remaining s \<le> n \<Longrightarrow> remaining (snd (next_byte_loop rs s)) \<le> n"
proof (induction rs arbitrary: s)
  case (Cons r rs)
  obtain lo hi where r: "r = (lo, hi)" by fastforce
  have "remaining (lex_get s) \<le> n" using Cons.prems by (rule remaining_lex_getI)
  with Cons.IH show ?case by (simp add: r Let_def split: option.split)
qed simp

lemma remaining_scan_unicodeI [remaining_intros]:
  "remaining s \<le> n \<Longrightarrow> remaining (snd (scan_unicode s)) \<le> n"
  by (simp add: scan_unicode_def Let_def case_prod_unfold remaining_intros)

lemma remaining_scan_escapeI [remaining_intros]:
  "remaining s \<le> n \<Longrightarrow> remaining (snd (scan_escape s)) \<le> n"
  by (simp add: scan_escape_def Let_def remaining_intros split: option.split)

lemma remaining_scan_string_stepI [remaining_intros]:
  "remaining s \<le> n \<Longrightarrow> remaining (snd (scan_string_step s)) \<le> n"
  by (simp add: scan_string_step_def next_byte_in_range_def Let_def case_prod_unfold
      remaining_intros remaining_next_byte_loop split: option.split)

lemma scan_string_step_eof: "current s = None \<Longrightarrow> fst (scan_string_step s) \<noteq> None"
  by (simp add: scan_string_step_def lex_error_def)

function scan_string_loop :: "lexer \<Rightarrow> token_type \<times> lexer" where
  "scan_string_loop s =
     (case scan_string_step (lex_get s) of
        (Some t, s') \<Rightarrow> (t, s')
      | (None, s') \<Rightarrow> scan_string_loop s')"
  by pat_completeness auto
termination
proof (relation "measure remaining")
  fix s t s'
  assume "(t, s') = scan_string_step (lex_get s)" "t = None"
  then have st: "scan_string_step (lex_get s) = (None, s')" by simp
  then have "current (lex_get s) \<noteq> None" using scan_string_step_eof [of "lex_get s"] by fastforce
  then have "remaining (lex_get s) < remaining s" by (rule remaining_lex_get_less)
  moreover have "remaining s' \<le> remaining (lex_get s)"
    using remaining_scan_string_stepI [OF order_refl, of "lex_get s"] st by simp
  ultimately show "(s', s) \<in> measure remaining" by simp
qed simp

declare scan_string_loop.simps [simp del]

definition scan_string :: "lexer \<Rightarrow> token_type \<times> lexer" where
  "scan_string s = scan_string_loop (lex_reset s)"

lemma remaining_scan_string_loop: "remaining (snd (scan_string_loop s)) \<le> remaining s"
proof (induction s rule: scan_string_loop.induct)
  case (1 s)
  obtain t s' where st: "scan_string_step (lex_get s) = (t, s')" by fastforce
  have le: "remaining s' \<le> remaining s"
    using remaining_scan_string_stepI [OF remaining_lex_get_le, of s] st by simp
  show ?case
  proof (cases t)
    case None
    then have "remaining (snd (scan_string_loop s')) \<le> remaining s'" using 1 st by simp
    with le None st show ?thesis by (simp add: scan_string_loop.simps [of s])
  next
    case (Some x)
    with le st show ?thesis by (simp add: scan_string_loop.simps [of s])
  qed
qed

lemma remaining_scan_stringI [remaining_intros]:
  "remaining s \<le> n \<Longrightarrow> remaining (snd (scan_string s)) \<le> n"
  using remaining_scan_string_loop [of "lex_reset s"] by (simp add: scan_string_def)

section \<open>Numbers\<close>

text \<open>
  \<open>strtod\<close> on a buffer that has the shape of a JSON number: the exact value of the decimal
  notation, rounded to the nearest double.
\<close>

definition exponent_val :: "string \<Rightarrow> int" where
  "exponent_val s =
     (case s of
        [] \<Rightarrow> 0
      | c # t \<Rightarrow> if c = CHR ''-'' then - int (digits_val t)
                 else if c = CHR ''+'' then int (digits_val t)
                 else int (digits_val (c # t)))"

definition decimal_val :: "string \<Rightarrow> rat" where
  "decimal_val s =
     (let ip = takeWhile is_digit s; r = dropWhile is_digit s;
          (fp, r) = (case r of
                       c # t \<Rightarrow> if c = CHR ''.'' then (takeWhile is_digit t, dropWhile is_digit t) else ([], r)
                     | [] \<Rightarrow> ([], []));
          ex = (case r of [] \<Rightarrow> 0 | _ # t \<Rightarrow> exponent_val t)
      in of_nat (digits_val (ip @ fp)) * 10 powi (ex - int (length fp)))"

definition strtod :: "string \<Rightarrow> double" where
  "strtod s =
     (case s of
        [] \<Rightarrow> Fin 0
      | c # t \<Rightarrow> if c = CHR ''-'' then round64 (- decimal_val t) else round64 (decimal_val s))"

text \<open>\<open>strtoull\<close> and \<open>strtoll\<close> on such a buffer; \<open>None\<close> is \<open>errno = ERANGE\<close>.\<close>

definition strtoull :: "string \<Rightarrow> nat option" where
  "strtoull s = (let n = digits_val s in if n < 2 ^ 64 then Some n else None)"

definition strtoll :: "string \<Rightarrow> int option" where
  "strtoll s =
     (let i = (case s of
                 [] \<Rightarrow> 0
               | c # t \<Rightarrow> if c = CHR ''-'' then - int (digits_val t) else int (digits_val s))
      in if - (2 ^ 63) \<le> i \<and> i < 2 ^ 63 then Some i else None)"

definition scan_number_float :: "lexer \<Rightarrow> token_type \<times> lexer" where
  "scan_number_float s = (value_float, s\<lparr>num_float := strtod (token_buffer s)\<rparr>)"

definition scan_number_done :: "token_type \<Rightarrow> lexer \<Rightarrow> token_type \<times> lexer" where
  "scan_number_done number_type s =
     (let s = lex_unget s
      in if number_type = value_unsigned
         then (case strtoull (token_buffer s) of
                 Some x \<Rightarrow> (value_unsigned, s\<lparr>num_unsigned := x\<rparr>)
               | None \<Rightarrow> scan_number_float s)
         else if number_type = value_integer
         then (case strtoll (token_buffer s) of
                 Some x \<Rightarrow> (value_integer, s\<lparr>num_integer := x\<rparr>)
               | None \<Rightarrow> scan_number_float s)
         else scan_number_float s)"

abbreviation cur_digit :: "lexer \<Rightarrow> bool" where
  "cur_digit s \<equiv> (case current s of Some c \<Rightarrow> is_digit c | None \<Rightarrow> False)"

abbreviation cur_in :: "char list \<Rightarrow> lexer \<Rightarrow> bool" where
  "cur_in cs s \<equiv> (case current s of Some c \<Rightarrow> c \<in> set cs | None \<Rightarrow> False)"

lemma remaining_get_digit: "cur_digit (lex_get s) \<Longrightarrow> remaining (lex_get s) < remaining s"
  by (rule remaining_lex_get_less) (auto split: option.splits)

function scan_number_any2 :: "token_type \<Rightarrow> lexer \<Rightarrow> token_type \<times> lexer" where
  "scan_number_any2 ty s =
     (if cur_digit (lex_get s) then scan_number_any2 ty (add_current (lex_get s))
      else scan_number_done ty (lex_get s))"
  by pat_completeness auto
termination
  by (relation "measure (\<lambda>(ty, s). remaining s)") (auto dest: remaining_get_digit)

declare scan_number_any2.simps [simp del]

definition scan_number_sign :: "token_type \<Rightarrow> lexer \<Rightarrow> token_type \<times> lexer" where
  "scan_number_sign ty s =
     (let s = lex_get s
      in if cur_digit s then scan_number_any2 ty (add_current s)
         else lex_error ''invalid number; expected digit after exponent sign'' s)"

definition scan_number_exponent :: "lexer \<Rightarrow> token_type \<times> lexer" where
  "scan_number_exponent s =
     (let s = lex_get s
      in if cur_in ''+-'' s then scan_number_sign value_float (add_current s)
         else if cur_digit s then scan_number_any2 value_float (add_current s)
         else lex_error (''invalid number; expected '' @ [CHR 0x27, CHR ''+'', CHR 0x27] @ '', '' @
                [CHR 0x27, CHR ''-'', CHR 0x27] @ '', or digit after exponent'') s)"

function scan_number_decimal2 :: "lexer \<Rightarrow> token_type \<times> lexer" where
  "scan_number_decimal2 s =
     (if cur_digit (lex_get s) then scan_number_decimal2 (add_current (lex_get s))
      else if cur_in ''eE'' (lex_get s) then scan_number_exponent (add_current (lex_get s))
      else scan_number_done value_float (lex_get s))"
  by pat_completeness auto
termination
  by (relation "measure remaining") (auto dest: remaining_get_digit)

declare scan_number_decimal2.simps [simp del]

definition scan_number_decimal1 :: "lexer \<Rightarrow> token_type \<times> lexer" where
  "scan_number_decimal1 s =
     (let s = lex_get s
      in if cur_digit s then scan_number_decimal2 (add_current s)
         else lex_error (''invalid number; expected digit after '' @ [CHR 0x27, CHR ''.'', CHR 0x27]) s)"

function scan_number_any1 :: "token_type \<Rightarrow> lexer \<Rightarrow> token_type \<times> lexer" where
  "scan_number_any1 ty s =
     (if cur_digit (lex_get s) then scan_number_any1 ty (add_current (lex_get s))
      else if cur_in ''.'' (lex_get s) then scan_number_decimal1 (lex_add CHR ''.'' (lex_get s))
      else if cur_in ''eE'' (lex_get s) then scan_number_exponent (add_current (lex_get s))
      else scan_number_done ty (lex_get s))"
  by pat_completeness auto
termination
  by (relation "measure (\<lambda>(ty, s). remaining s)") (auto dest: remaining_get_digit)

declare scan_number_any1.simps [simp del]

definition scan_number_zero :: "token_type \<Rightarrow> lexer \<Rightarrow> token_type \<times> lexer" where
  "scan_number_zero ty s =
     (let s = lex_get s
      in if cur_in ''.'' s then scan_number_decimal1 (lex_add CHR ''.'' s)
         else if cur_in ''eE'' s then scan_number_exponent (add_current s)
         else scan_number_done ty s)"

definition scan_number_minus :: "lexer \<Rightarrow> token_type \<times> lexer" where
  "scan_number_minus s =
     (let s = lex_get s
      in if cur_in ''0'' s then scan_number_zero value_integer (add_current s)
         else if cur_digit s then scan_number_any1 value_integer (add_current s)
         else lex_error (''invalid number; expected digit after '' @ [CHR 0x27, CHR ''-'', CHR 0x27]) s)"

definition scan_number :: "lexer \<Rightarrow> token_type \<times> lexer" where
  "scan_number s =
     (let s = lex_reset s
      in if cur_in ''-'' s then scan_number_minus (add_current s)
         else if cur_in ''0'' s then scan_number_zero value_unsigned (add_current s)
         else scan_number_any1 value_unsigned (add_current s))"

section \<open>Literals, whitespace, tokens\<close>

text \<open>The loop over the characters of the literal after the first.\<close>

fun scan_literal_loop :: "string \<Rightarrow> token_type \<Rightarrow> lexer \<Rightarrow> token_type \<times> lexer" where
  "scan_literal_loop [] return_type s = (return_type, s)"
| "scan_literal_loop (l # ls) return_type s =
     (let s = lex_get s
      in if current s \<noteq> Some l then lex_error ''invalid literal'' s
         else scan_literal_loop ls return_type s)"

definition scan_literal :: "string \<Rightarrow> token_type \<Rightarrow> lexer \<Rightarrow> token_type \<times> lexer" where
  "scan_literal literal_text return_type s = scan_literal_loop (tl literal_text) return_type s"

definition get_token_string :: "lexer \<Rightarrow> string" where
  "get_token_string s =
     concat (map (\<lambda>c. if byte c \<le> 0x1F then ''<U+'' @ hex4 (byte c) @ ''>'' else [c]) (token_string s))"

definition skip_bom :: "lexer \<Rightarrow> bool \<times> lexer" where
  "skip_bom s =
     (let s = lex_get s
      in if current s = Some CHR 0xEF
         then (let s = lex_get s
               in if current s = Some CHR 0xBB
                  then (let s = lex_get s in (current s = Some CHR 0xBF, s))
                  else (False, s))
         else (True, lex_unget s))"

definition is_ws :: "char \<Rightarrow> bool" where
  "is_ws c \<longleftrightarrow> c = CHR '' '' \<or> c = CHR 0x09 \<or> c = CHR 0x0A \<or> c = CHR 0x0D"

abbreviation cur_ws :: "lexer \<Rightarrow> bool" where
  "cur_ws s \<equiv> (case current s of Some c \<Rightarrow> is_ws c | None \<Rightarrow> False)"

lemma remaining_get_ws: "cur_ws (lex_get s) \<Longrightarrow> remaining (lex_get s) < remaining s"
  by (rule remaining_lex_get_less) (auto split: option.splits)

function skip_whitespace :: "lexer \<Rightarrow> lexer" where
  "skip_whitespace s = (if cur_ws (lex_get s) then skip_whitespace (lex_get s) else lex_get s)"
  by pat_completeness auto
termination
  by (relation "measure remaining") (auto dest: remaining_get_ws)

declare skip_whitespace.simps [simp del]

text \<open>The \<open>switch (current)\<close> of \<open>scan\<close>. Comments are not ignored: \<open>parse\<close> passes \<open>false\<close>.\<close>

definition scan_token :: "lexer \<Rightarrow> token_type \<times> lexer" where
  "scan_token s =
     (case current s of
        None \<Rightarrow> (end_of_input, s)
      | Some c \<Rightarrow>
          if c = CHR ''['' then (begin_array, s)
          else if c = CHR '']'' then (end_array, s)
          else if c = CHR ''{'' then (begin_object, s)
          else if c = CHR ''}'' then (end_object, s)
          else if c = CHR '':'' then (name_separator, s)
          else if c = CHR '','' then (value_separator, s)
          else if c = CHR ''t'' then scan_literal ''true'' literal_true s
          else if c = CHR ''f'' then scan_literal ''false'' literal_false s
          else if c = CHR ''n'' then scan_literal ''null'' literal_null s
          else if c = dq then scan_string s
          else if c = CHR ''-'' \<or> is_digit c then scan_number s
          else if c = CHR 0x00 then (end_of_input, s)
          else lex_error ''invalid literal'' s)"

definition scan :: "lexer \<Rightarrow> token_type \<times> lexer" where
  "scan s =
     (let (ok, s) = (if chars_read_total s = 0 then skip_bom s else (True, s))
      in if \<not> ok then lex_error ''invalid BOM; must be 0xEF 0xBB 0xBF if given'' s
         else scan_token (skip_whitespace s))"

end
