(* ===== verification/Json_Parser.thy ===== *)
theory Json_Parser
  imports Json_Lexer
begin

text \<open>
  JSON values, the exceptions of \<open>include/nlohmann/json.hpp\<close>, the token-driven parser
  (\<open>parser::sax_parse_internal\<close> with the \<open>json_sax_dom_parser\<close> handler) and the element access and
  conversions the program uses (\<open>operator[]\<close>, \<open>get<int>\<close>, \<open>get<double>\<close>, \<open>get<std::string>\<close>).
\<close>

datatype json = JNull | JBool bool | JInt int | JUint nat | JFloat double | JString string
  | JArray "json list" | JObject "(string \<times> json) list"

text \<open>
  A thrown exception with its \<open>what()\<close>, and undefined behaviour, which no handler can catch.
\<close>

datatype exn = Exn string | Undefined

fun what :: "exn \<Rightarrow> string" where
  "what (Exn s) = s"
| "what Undefined = []"

definition exn_name :: "string \<Rightarrow> nat \<Rightarrow> string" where
  "exn_name ename i = ''[json.exception.'' @ ename @ ''.'' @ show_nat i @ ''] ''"

definition position_string :: "lexer \<Rightarrow> string" where
  "position_string s =
     '' at line '' @ show_nat (lines_read s + 1) @ '', column '' @ show_nat (chars_read_current_line s)"

definition parse_error_create :: "nat \<Rightarrow> lexer \<Rightarrow> string \<Rightarrow> exn" where
  "parse_error_create i s what_arg =
     Exn (exn_name ''parse_error'' i @ ''parse error'' @ position_string s @ '': '' @ what_arg)"

definition type_error_create :: "nat \<Rightarrow> string \<Rightarrow> exn" where
  "type_error_create i what_arg = Exn (exn_name ''type_error'' i @ what_arg)"

definition out_of_range_create :: "nat \<Rightarrow> string \<Rightarrow> exn" where
  "out_of_range_create i what_arg = Exn (exn_name ''out_of_range'' i @ what_arg)"

fun type_name :: "json \<Rightarrow> string" where
  "type_name JNull = ''null''"
| "type_name (JObject _) = ''object''"
| "type_name (JArray _) = ''array''"
| "type_name (JString _) = ''string''"
| "type_name (JBool _) = ''boolean''"
| "type_name (JInt _) = ''number''"
| "type_name (JUint _) = ''number''"
| "type_name (JFloat _) = ''number''"

section \<open>The DOM handler\<close>

text \<open>
  The reference stack of \<open>json_sax_dom_parser\<close> as a stack of open containers, innermost first; an
  open object carries the key whose value comes next. A finished container is placed into its
  parent when it is closed.
\<close>

datatype frame = FArray "json list" | FObject "(string \<times> json) list" string

record parser =
  m_lexer :: lexer
  last_token :: token_type
  states :: "bool list"
  ref_stack :: "frame list"
  root :: json

definition new_parser :: "string \<Rightarrow> parser" where
  "new_parser s = \<lparr>m_lexer = new_lexer s, last_token = uninitialized, states = [], ref_stack = [],
     root = JNull\<rparr>"

fun place :: "json \<Rightarrow> frame list \<Rightarrow> frame list" where
  "place v [] = []"
| "place v (FArray vs # fs) = FArray (vs @ [v]) # fs"
| "place v (FObject m k # fs) = FObject (map_put k v m) k # fs"

definition handle_value :: "json \<Rightarrow> parser \<Rightarrow> parser" where
  "handle_value v p =
     (if ref_stack p = [] then p\<lparr>root := v\<rparr> else p\<lparr>ref_stack := place v (ref_stack p)\<rparr>)"

definition start_object :: "parser \<Rightarrow> parser" where
  "start_object p = p\<lparr>ref_stack := FObject [] [] # ref_stack p\<rparr>"

definition start_array :: "parser \<Rightarrow> parser" where
  "start_array p = p\<lparr>ref_stack := FArray [] # ref_stack p\<rparr>"

definition sax_key :: "string \<Rightarrow> parser \<Rightarrow> parser" where
  "sax_key k p =
     (case ref_stack p of FObject m _ # fs \<Rightarrow> p\<lparr>ref_stack := FObject m k # fs\<rparr> | _ \<Rightarrow> p)"

definition end_container :: "parser \<Rightarrow> parser" where
  "end_container p =
     (case ref_stack p of
        FObject m _ # fs \<Rightarrow> handle_value (JObject m) (p\<lparr>ref_stack := fs\<rparr>)
      | FArray vs # fs \<Rightarrow> handle_value (JArray vs) (p\<lparr>ref_stack := fs\<rparr>)
      | [] \<Rightarrow> p)"

section \<open>The parser\<close>

definition get_token :: "parser \<Rightarrow> parser" where
  "get_token p = (let (t, s) = scan (m_lexer p) in p\<lparr>m_lexer := s, last_token := t\<rparr>)"

definition exception_message :: "token_type \<Rightarrow> string \<Rightarrow> parser \<Rightarrow> string" where
  "exception_message expected context p =
     ''syntax error '' @
     (if context \<noteq> [] then ''while parsing '' @ context @ '' '' else []) @ ''- '' @
     (if last_token p = parse_error
      then error_message (m_lexer p) @ ''; last read: '' @ [CHR 0x27] @ get_token_string (m_lexer p) @ [CHR 0x27]
      else ''unexpected '' @ token_type_name (last_token p)) @
     (if expected \<noteq> uninitialized then ''; expected '' @ token_type_name expected else [])"

definition syntax_error :: "token_type \<Rightarrow> string \<Rightarrow> parser \<Rightarrow> exn + 'a" where
  "syntax_error expected context p =
     Inl (parse_error_create 101 (m_lexer p) (exception_message expected context p))"

text \<open>
  An object member: the key is the last token. \<open>get_token\<close> reads the separator and then the first
  token of the value.
\<close>

definition parse_key :: "parser \<Rightarrow> exn + parser" where
  "parse_key p =
     (if last_token p \<noteq> value_string then syntax_error value_string ''object key'' p
      else
        (let p = get_token (sax_key (token_buffer (m_lexer p)) p)
         in if last_token p \<noteq> name_separator then syntax_error name_separator ''object separator'' p
            else Inr p))"

text \<open>
  The \<open>switch (last_token)\<close> of the main loop: \<open>Inr (True, p)\<close> is \<open>continue\<close>, \<open>Inr (False, p)\<close> falls
  through to the evaluation of the state stack.
\<close>

definition value_step :: "parser \<Rightarrow> exn + (bool \<times> parser)" where
  "value_step p =
     (case last_token p of
        begin_object \<Rightarrow>
          (let p = get_token (start_object p)
           in if last_token p = end_object then Inr (False, end_container p)
              else case parse_key p of
                     Inl e \<Rightarrow> Inl e
                   | Inr p \<Rightarrow> Inr (True, get_token (p\<lparr>states := False # states p\<rparr>)))
      | begin_array \<Rightarrow>
          (let p = get_token (start_array p)
           in if last_token p = end_array then Inr (False, end_container p)
              else Inr (True, p\<lparr>states := True # states p\<rparr>))
      | value_float \<Rightarrow>
          (case num_float (m_lexer p) of
             Fin x \<Rightarrow> Inr (False, handle_value (JFloat (Fin x)) p)
           | _ \<Rightarrow> Inl (out_of_range_create 406
                   (''number overflow parsing '' @ [CHR 0x27] @ get_token_string (m_lexer p) @ [CHR 0x27])))
      | literal_false \<Rightarrow> Inr (False, handle_value (JBool False) p)
      | literal_null \<Rightarrow> Inr (False, handle_value JNull p)
      | literal_true \<Rightarrow> Inr (False, handle_value (JBool True) p)
      | value_integer \<Rightarrow> Inr (False, handle_value (JInt (num_integer (m_lexer p))) p)
      | value_string \<Rightarrow> Inr (False, handle_value (JString (token_buffer (m_lexer p))) p)
      | value_unsigned \<Rightarrow> Inr (False, handle_value (JUint (num_unsigned (m_lexer p))) p)
      | parse_error \<Rightarrow> syntax_error uninitialized ''value'' p
      | end_of_input \<Rightarrow>
          if chars_read_total (m_lexer p) = 1
          then Inl (parse_error_create 101 (m_lexer p)
                 ''attempting to parse an empty input; check that your input string or stream contains the expected JSON'')
          else syntax_error literal_or_value ''value'' p
      | _ \<Rightarrow> syntax_error literal_or_value ''value'' p)"

text \<open>
  The rest of the loop body, after a value: \<open>Inr None\<close> is \<open>return true\<close>, \<open>Inr (Some (skip, p))\<close> goes
  on with \<open>skip_to_state_evaluation = skip\<close>.
\<close>

definition state_step :: "parser \<Rightarrow> exn + (bool \<times> parser) option" where
  "state_step p =
     (case states p of
        [] \<Rightarrow> Inr None
      | True # st \<Rightarrow>
          (let p = get_token p
           in if last_token p = value_separator then Inr (Some (False, get_token p))
              else if last_token p = end_array
              then Inr (Some (True, (end_container p)\<lparr>states := st\<rparr>))
              else syntax_error end_array ''array'' p)
      | False # st \<Rightarrow>
          (let p = get_token p
           in if last_token p = value_separator
              then (case parse_key (get_token p) of
                      Inl e \<Rightarrow> Inl e
                    | Inr p \<Rightarrow> Inr (Some (False, get_token p)))
              else if last_token p = end_object
              then Inr (Some (True, (end_container p)\<lparr>states := st\<rparr>))
              else syntax_error end_object ''object'' p))"

section \<open>Termination\<close>

lemma remaining_unget_get: "remaining (lex_unget (lex_get s)) \<le> remaining s"
proof (cases "current (lex_get s) = None")
  case True
  with remaining_lex_get_le [of s] show ?thesis by (simp add: remaining_lex_unget lex_get_state(1))
next
  case False
  with remaining_lex_get_less [of s] show ?thesis
    by (simp add: remaining_lex_unget lex_get_state(1))
qed

lemma remaining_field_updates [simp]:
  "remaining (s\<lparr>num_unsigned := a\<rparr>) = remaining s"
  "remaining (s\<lparr>num_integer := b\<rparr>) = remaining s"
  "remaining (s\<lparr>num_float := c\<rparr>) = remaining s"
  by (simp_all add: remaining_def)

lemma remaining_number_done: "remaining (snd (scan_number_done ty (lex_get s))) \<le> remaining s"
  using remaining_unget_get [of s]
  by (simp add: scan_number_done_def scan_number_float_def Let_def split: option.split)

lemma remaining_doneI:
  "remaining s \<le> n \<Longrightarrow> remaining (snd (scan_number_done ty (lex_get s))) \<le> n"
  using remaining_number_done order_trans by blast

lemma remaining_any2: "remaining s \<le> n \<Longrightarrow> remaining (snd (scan_number_any2 ty s)) \<le> n"
proof (induction ty s rule: scan_number_any2.induct)
  case (1 ty s)
  then show ?case
    by (subst scan_number_any2.simps) (simp add: remaining_doneI remaining_lex_getI)
qed

lemma remaining_sign: "remaining s \<le> n \<Longrightarrow> remaining (snd (scan_number_sign ty s)) \<le> n"
  by (simp add: scan_number_sign_def Let_def remaining_any2 remaining_lex_getI)

lemma remaining_exponent: "remaining s \<le> n \<Longrightarrow> remaining (snd (scan_number_exponent s)) \<le> n"
  by (simp add: scan_number_exponent_def Let_def remaining_any2 remaining_sign remaining_lex_getI)

lemma remaining_decimal2: "remaining s \<le> n \<Longrightarrow> remaining (snd (scan_number_decimal2 s)) \<le> n"
proof (induction s rule: scan_number_decimal2.induct)
  case (1 s)
  then show ?case
    by (subst scan_number_decimal2.simps)
      (simp add: remaining_doneI remaining_exponent remaining_lex_getI)
qed

lemma remaining_decimal1: "remaining s \<le> n \<Longrightarrow> remaining (snd (scan_number_decimal1 s)) \<le> n"
  by (simp add: scan_number_decimal1_def Let_def remaining_decimal2 remaining_lex_getI)

lemma remaining_any1: "remaining s \<le> n \<Longrightarrow> remaining (snd (scan_number_any1 ty s)) \<le> n"
proof (induction ty s rule: scan_number_any1.induct)
  case (1 ty s)
  then show ?case
    by (subst scan_number_any1.simps)
      (simp add: remaining_doneI remaining_exponent remaining_decimal1 remaining_lex_getI)
qed

lemma remaining_zero: "remaining s \<le> n \<Longrightarrow> remaining (snd (scan_number_zero ty s)) \<le> n"
  by (simp add: scan_number_zero_def Let_def remaining_doneI remaining_decimal1 remaining_exponent
      remaining_lex_getI)

lemma remaining_minus: "remaining s \<le> n \<Longrightarrow> remaining (snd (scan_number_minus s)) \<le> n"
  by (simp add: scan_number_minus_def Let_def remaining_any1 remaining_zero remaining_lex_getI)

lemma remaining_scan_number: "remaining s \<le> n \<Longrightarrow> remaining (snd (scan_number s)) \<le> n"
  by (simp add: scan_number_def Let_def remaining_any1 remaining_zero remaining_minus)

lemma remaining_literal: "remaining s \<le> n \<Longrightarrow> remaining (snd (scan_literal_loop ls t s)) \<le> n"
  by (induction ls t s rule: scan_literal_loop.induct) (simp_all add: Let_def remaining_lex_getI)

lemma remaining_scan_literal: "remaining s \<le> n \<Longrightarrow> remaining (snd (scan_literal l t s)) \<le> n"
  unfolding scan_literal_def by (rule remaining_literal)

lemma remaining_scan_token: "remaining s \<le> n \<Longrightarrow> remaining (snd (scan_token s)) \<le> n"
  by (simp add: scan_token_def remaining_scan_literal remaining_scan_number
      remaining_scan_stringI split: option.split)

lemma remaining_skip_whitespace:
  "remaining (skip_whitespace s) \<le> remaining s \<and>
   (current (skip_whitespace s) \<noteq> None \<longrightarrow> remaining (skip_whitespace s) < remaining s)"
proof (induction s rule: skip_whitespace.induct)
  case (1 s)
  show ?case
  proof (cases "cur_ws (lex_get s)")
    case True
    then have "skip_whitespace s = skip_whitespace (lex_get s)"
      by (simp add: skip_whitespace.simps [of s])
    with 1 True remaining_get_ws [of s] show ?thesis by auto
  next
    case False
    then have "skip_whitespace s = lex_get s" by (simp add: skip_whitespace.simps [of s])
    with remaining_lex_get_le [of s] remaining_lex_get_less [of s] show ?thesis by auto
  qed
qed

lemma remaining_skip_bom:
  "remaining (snd (skip_bom s)) \<le> remaining s \<and>
   (\<not> fst (skip_bom s) \<longrightarrow> remaining (snd (skip_bom s)) < remaining s)"
proof (cases "current (lex_get s) = Some CHR 0xEF")
  case True
  then have "remaining (lex_get s) < remaining s" by (intro remaining_lex_get_less) simp
  moreover have "remaining (snd (skip_bom s)) \<le> remaining (lex_get s)"
    using True by (simp add: skip_bom_def Let_def remaining_lex_getI)
  ultimately show ?thesis by linarith
next
  case False
  then show ?thesis using remaining_unget_get by (simp add: skip_bom_def Let_def)
qed

lemma remaining_scan:
  "remaining (snd (scan s)) \<le> remaining s \<and>
   (fst (scan s) \<noteq> end_of_input \<longrightarrow> remaining (snd (scan s)) < remaining s)"
proof -
  define r where "r = (if chars_read_total s = 0 then skip_bom s else (True, s))"
  have le: "remaining (snd r) \<le> remaining s"
    and less: "\<not> fst r \<Longrightarrow> remaining (snd r) < remaining s"
    using remaining_skip_bom [of s] by (simp_all add: r_def split: if_splits)
  have eq: "scan s = (if \<not> fst r then lex_error ''invalid BOM; must be 0xEF 0xBB 0xBF if given'' (snd r)
      else scan_token (skip_whitespace (snd r)))"
    by (simp add: scan_def r_def case_prod_unfold Let_def)
  let ?w = "skip_whitespace (snd r)"
  have tok: "remaining (snd (scan_token ?w)) \<le> remaining ?w" by (simp add: remaining_scan_token)
  have eof: "current ?w = None \<Longrightarrow> fst (scan_token ?w) = end_of_input" by (simp add: scan_token_def)
  show ?thesis
    using le less tok eof remaining_skip_whitespace [of "snd r"] by (auto simp: eq)
qed

definition parser_size :: "parser \<Rightarrow> nat" where
  "parser_size p = 2 * remaining (m_lexer p) + (if last_token p = end_of_input then 0 else 1)"

lemma lexer_frames [simp]:
  "m_lexer (start_object p) = m_lexer p" "m_lexer (start_array p) = m_lexer p"
  "m_lexer (sax_key k p) = m_lexer p" "m_lexer (end_container p) = m_lexer p"
  "m_lexer (handle_value v p) = m_lexer p"
  "last_token (handle_value v p) = last_token p" "last_token (end_container p) = last_token p"
  by (simp_all add: start_object_def start_array_def sax_key_def end_container_def handle_value_def
      split: list.split frame.split)

lemma remaining_get_token:
  "remaining (m_lexer (get_token p)) \<le> remaining (m_lexer p)"
  "last_token (get_token p) \<noteq> end_of_input \<Longrightarrow> remaining (m_lexer (get_token p)) < remaining (m_lexer p)"
  using remaining_scan [of "m_lexer p"] by (simp_all add: get_token_def case_prod_unfold Let_def)

lemma remaining_parse_key:
  "parse_key p = Inr p' \<Longrightarrow> remaining (m_lexer p') \<le> remaining (m_lexer p)"
  using remaining_get_token(1) [of "sax_key (token_buffer (m_lexer p)) p"]
  by (auto simp: parse_key_def syntax_error_def Let_def split: if_splits)

lemma value_step_size:
  "value_step p = Inr (c, p') \<Longrightarrow>
   remaining (m_lexer p') \<le> remaining (m_lexer p) \<and> (c \<longrightarrow> parser_size p' < parser_size p)"
proof (cases "last_token p = begin_object \<or> last_token p = begin_array")
  case False
  assume "value_step p = Inr (c, p')"
  with False show ?thesis
    by (auto simp: value_step_def syntax_error_def split: token_type.splits double.splits if_splits)
next
  case True
  assume v: "value_step p = Inr (c, p')"
  from True show ?thesis
  proof
    assume t: "last_token p = begin_object"
    let ?q = "get_token (start_object p)"
    have q: "remaining (m_lexer ?q) \<le> remaining (m_lexer p)"
      using remaining_get_token(1) [of "start_object p"] by simp
    show ?thesis
    proof (cases "last_token ?q = end_object")
      case True
      with v t q show ?thesis by (auto simp: value_step_def Let_def)
    next
      case False
      with v t obtain k where k: "parse_key ?q = Inr k" "c"
        and p': "p' = get_token (k\<lparr>states := False # states k\<rparr>)"
        by (auto simp: value_step_def Let_def split: sum.splits)
      have "last_token ?q = value_string"
        using k(1) by (auto simp: parse_key_def syntax_error_def split: if_splits)
      then have "remaining (m_lexer ?q) < remaining (m_lexer p)"
        using remaining_get_token(2) [of "start_object p"] by simp
      moreover have "remaining (m_lexer p') \<le> remaining (m_lexer ?q)"
        using remaining_get_token(1) [of "k\<lparr>states := False # states k\<rparr>"] remaining_parse_key [OF k(1)]
        by (simp add: p')
      ultimately show ?thesis by (auto simp: parser_size_def)
    qed
  next
    assume t: "last_token p = begin_array"
    have "remaining (m_lexer (get_token (start_array p))) \<le> remaining (m_lexer p)"
      "last_token (get_token (start_array p)) \<noteq> end_of_input \<Longrightarrow>
       remaining (m_lexer (get_token (start_array p))) < remaining (m_lexer p)"
      using remaining_get_token [of "start_array p"] by simp_all
    with v t show ?thesis
      by (auto simp: value_step_def Let_def parser_size_def split: if_splits)
  qed
qed

lemma state_step_size:
  assumes "state_step p = Inr (Some (sk, p'))"
  shows "parser_size p' < parser_size q \<or> remaining (m_lexer q) < remaining (m_lexer p)"
proof -
  let ?q = "get_token p"
  have cases: "last_token ?q \<in> {value_separator, end_array, end_object} \<and>
      remaining (m_lexer p') \<le> remaining (m_lexer ?q)"
  proof (cases "states p")
    case Nil
    with assms show ?thesis by (simp add: state_step_def)
  next
    case (Cons b st)
    have key: "remaining (m_lexer (get_token k)) \<le> remaining (m_lexer ?q)"
      if "parse_key (get_token ?q) = Inr k" for k
      using remaining_parse_key [OF that] remaining_get_token(1) [of k] remaining_get_token(1) [of ?q]
      by linarith
    from Cons assms key show ?thesis
      by (cases b)
        (auto simp: state_step_def syntax_error_def Let_def remaining_get_token(1)
          split: if_splits sum.splits)
  qed
  then have "remaining (m_lexer ?q) < remaining (m_lexer p)"
    using remaining_get_token(2) [of p] by auto
  with cases show ?thesis by (auto simp: parser_size_def)
qed

function sax_loop :: "bool \<Rightarrow> parser \<Rightarrow> exn + parser" where
  "sax_loop skip p =
     (case (if skip then Inr (False, p) else value_step p) of
        Inl e \<Rightarrow> Inl e
      | Inr (continue, q) \<Rightarrow>
          if continue then sax_loop False q
          else (case state_step q of
                  Inl e \<Rightarrow> Inl e
                | Inr None \<Rightarrow> Inr q
                | Inr (Some (skip', r)) \<Rightarrow> sax_loop skip' r))"
  by pat_completeness auto
termination
proof (relation "measure (\<lambda>(skip, p). parser_size p)")
  fix skip p x continue q
  assume "(if skip then Inr (False, p) else value_step p) = Inr x" "(continue, q) = x" "continue"
  then have "value_step p = Inr (True, q)" by (auto split: if_splits)
  then show "((False, q), skip, p) \<in> measure (\<lambda>(skip, p). parser_size p)"
    using value_step_size by auto
next
  fix skip p x continue q y z skip' r
  assume "(if skip then Inr (False, p) else value_step p) = Inr x" "(continue, q) = x" "\<not> continue"
    and st: "state_step q = Inr y" "y = Some z" "(skip', r) = z"
  then have "remaining (m_lexer q) \<le> remaining (m_lexer p)"
    using value_step_size by (auto split: if_splits)
  then show "((skip', r), skip, p) \<in> measure (\<lambda>(skip, p). parser_size p)"
    using state_step_size [of q skip' r p] st by auto
qed simp

declare sax_loop.simps [simp del]

section \<open>Entry points\<close>

text \<open>
  \<open>parser::parse\<close>: the constructor reads the first token; in strict mode the input has to be read
  completely. \<open>json::parse\<close> is strict, the extraction operator of streams is not.
\<close>

definition parser_parse :: "bool \<Rightarrow> string \<Rightarrow> exn + json" where
  "parser_parse strict text =
     (case sax_loop False (get_token (new_parser text)) of
        Inl e \<Rightarrow> Inl e
      | Inr p \<Rightarrow>
          if strict
          then (let p = get_token p
                in if last_token p \<noteq> end_of_input then syntax_error end_of_input ''value'' p
                   else Inr (root p))
          else Inr (root p))"

definition json_parse :: "string \<Rightarrow> exn + json" where
  "json_parse text = parser_parse True text"

definition json_extract :: "string \<Rightarrow> exn + json" where
  "json_extract text = parser_parse False text"

section \<open>Element access and conversions\<close>

text \<open>
  \<open>operator[]\<close> with a string key returns a reference: the element, and the value with the element in
  it (a null value becomes an object, a missing element is inserted as null). \<open>json_assign\<close> is an
  assignment through that reference.
\<close>

definition json_index :: "string \<Rightarrow> json \<Rightarrow> exn + (json \<times> json)" where
  "json_index key j =
     (case (case j of JNull \<Rightarrow> JObject [] | _ \<Rightarrow> j) of
        JObject m \<Rightarrow>
          (case map_of m key of
             Some v \<Rightarrow> Inr (v, JObject m)
           | None \<Rightarrow> Inr (JNull, JObject (map_put key JNull m)))
      | j \<Rightarrow> Inl (type_error_create 305
               (''cannot use operator[] with a string argument with '' @ type_name j)))"

definition json_assign :: "string \<Rightarrow> json \<Rightarrow> json \<Rightarrow> exn + json" where
  "json_assign key v j =
     (case json_index key j of
        Inl e \<Rightarrow> Inl e
      | Inr (_, JObject m) \<Rightarrow> Inr (JObject (map_put key v m))
      | Inr (_, j) \<Rightarrow> Inr j)"

text \<open>\<open>push_back\<close>: a null value becomes an array.\<close>

definition json_push_back :: "json \<Rightarrow> json \<Rightarrow> exn + json" where
  "json_push_back v j =
     (case j of
        JNull \<Rightarrow> Inr (JArray [v])
      | JArray vs \<Rightarrow> Inr (JArray (vs @ [v]))
      | _ \<Rightarrow> Inl (type_error_create 308 (''cannot use push_back() with '' @ type_name j)))"

fun get_string :: "json \<Rightarrow> exn + string" where
  "get_string (JString s) = Inr s"
| "get_string j = Inl (type_error_create 302 (''type must be string, but is '' @ type_name j))"

text \<open>
  \<open>get<int>\<close> narrows a 64-bit integer to 32 bits by truncation. The conversion of a floating-point
  value drops the fraction and is undefined when the result does not fit.
\<close>

definition to_int32 :: "int \<Rightarrow> int" where
  "to_int32 i = sint (word_of_int i :: 32 word)"

definition truncate_rat :: "rat \<Rightarrow> int" where
  "truncate_rat x = (if 0 \<le> x then \<lfloor>x\<rfloor> else \<lceil>x\<rceil>)"

definition double_to_int :: "double \<Rightarrow> exn + int" where
  "double_to_int d =
     (case d of
        Fin x \<Rightarrow> (let i = truncate_rat x
                  in if - (2 ^ 31) \<le> i \<and> i < 2 ^ 31 then Inr i else Inl Undefined)
      | _ \<Rightarrow> Inl Undefined)"

fun get_int :: "json \<Rightarrow> exn + int" where
  "get_int (JUint n) = Inr (to_int32 (int n))"
| "get_int (JInt i) = Inr (to_int32 i)"
| "get_int (JFloat d) = double_to_int d"
| "get_int (JBool b) = Inr (if b then 1 else 0)"
| "get_int j = Inl (type_error_create 302 (''type must be number, but is '' @ type_name j))"

fun get_double :: "json \<Rightarrow> exn + double" where
  "get_double (JUint n) = Inr (round64 (of_nat n))"
| "get_double (JInt i) = Inr (round64 (of_int i))"
| "get_double (JFloat d) = Inr d"
| "get_double j = Inl (type_error_create 302 (''type must be number, but is '' @ type_name j))"

end
