(* ===== verification/Logger_Loki.thy ===== *)
theory Logger_Loki
  imports Logger_Props Json_Parser "HOL-Library.Code_Target_Nat"
begin

text \<open>
  The request body that the logger builds by hand for Loki, read with the JSON parser of the
  repository.
\<close>

text \<open>The text up to the member \<open>level\<close> is no beginning of a JSON text, whatever follows.\<close>

lemma loki_prefix_malformed:
  "isl (json_parse (''{'' @ [dq] @ ''streams'' @ [dq] @ '':[{'' @ [dq] @ ''stream'' @ [dq] @ '':{'' @ [dq] @ ''app'' @
     [dq] @ '':'' @ [dq] @ ''service_system'' @ [dq] @ '','' @ [dq] @ [dq] @ ''level'' @ [dq] @ rest))"
  by code_simp

text \<open>
  C40. No message reaches Loki as JSON: the quotation mark that opens the member \<open>level\<close> is written
  twice, so that for the name of the service that the server sets, whatever the level, the message,
  the labels and the time are, the body of the request does not parse.
\<close>

theorem loki_payload_malformed:
  "isl (json_parse (loki_payload ho ''service_system'' ts level message labels))"
  unfolding loki_payload_def by (rule loki_prefix_malformed)

end
