(* ===== verification/Json_Dtoa.thy ===== *)
theory Json_Dtoa
  imports Double "HOL-Library.Signed_Division"
begin

text \<open>
  The conversion of a double to text in \<open>include/nlohmann/json.hpp\<close> (namespace \<open>dtoa_impl\<close>): the
  Grisu2 algorithm on 64-bit words, with its table of cached powers of ten. Loops without a bound
  are \<open>partial_function (option)\<close>s: not returning is the value \<open>None\<close>. The assertions of the source
  are compiled out in the release build that the Dockerfile makes, so they are not part of the model.
\<close>

unbundle bit_operations_syntax

section \<open>Unsigned floating-point numbers f * 2 ^ e\<close>

record diyfp =
  fp_f :: "64 word"
  fp_e :: int

definition diyfp_sub :: "diyfp \<Rightarrow> diyfp \<Rightarrow> diyfp" where
  "diyfp_sub x y = \<lparr>fp_f = fp_f x - fp_f y, fp_e = fp_e x\<rparr>"

definition diyfp_mul :: "diyfp \<Rightarrow> diyfp \<Rightarrow> diyfp" where
  "diyfp_mul x y =
     (let u_lo = fp_f x AND 0xFFFFFFFF;
          u_hi = drop_bit 32 (fp_f x);
          v_lo = fp_f y AND 0xFFFFFFFF;
          v_hi = drop_bit 32 (fp_f y);
          p0 = u_lo * v_lo;
          p1 = u_lo * v_hi;
          p2 = u_hi * v_lo;
          p3 = u_hi * v_hi;
          p0_hi = drop_bit 32 p0;
          p1_lo = p1 AND 0xFFFFFFFF;
          p1_hi = drop_bit 32 p1;
          p2_lo = p2 AND 0xFFFFFFFF;
          p2_hi = drop_bit 32 p2;
          Q = p0_hi + p1_lo + p2_lo;
          Q = Q + push_bit 31 1;
          h = p3 + p2_hi + p1_hi + drop_bit 32 Q
      in \<lparr>fp_f = h, fp_e = fp_e x + fp_e y + 64\<rparr>)"

partial_function (option) diyfp_normalize :: "diyfp \<Rightarrow> diyfp option" where
  "diyfp_normalize x =
     (if drop_bit 63 (fp_f x) = 0
      then diyfp_normalize \<lparr>fp_f = push_bit 1 (fp_f x), fp_e = fp_e x - 1\<rparr>
      else Some x)"

definition diyfp_normalize_to :: "diyfp \<Rightarrow> int \<Rightarrow> diyfp" where
  "diyfp_normalize_to x target_exponent =
     (let delta = fp_e x - target_exponent
      in \<lparr>fp_f = push_bit (nat delta) (fp_f x), fp_e = target_exponent\<rparr>)"

record boundaries =
  bd_w :: diyfp
  bd_minus :: diyfp
  bd_plus :: diyfp

text \<open>The IEEE 754 encoding of a positive double: what \<open>reinterpret_bits\<close> reads.\<close>

definition double_bits :: "rat \<Rightarrow> 64 word" where
  "double_bits x =
     (let u = ulp_exp x; sig = \<lfloor>x / 2 powi u\<rfloor>
      in if sig < 2 ^ 52 then word_of_int sig
         else word_of_int ((u + 1075) * 2 ^ 52 + (sig - 2 ^ 52)))"

definition compute_boundaries :: "rat \<Rightarrow> boundaries option" where
  "compute_boundaries value =
     (let kPrecision = 53;
          kBias = 1024 - 1 + (kPrecision - 1);
          kMinExp = 1 - kBias;
          kHiddenBit = push_bit 52 (1 :: 64 word);
          bits = double_bits value;
          E = drop_bit 52 bits;
          F = bits AND (kHiddenBit - 1);
          is_denormal = (E = 0);
          v = (if is_denormal then \<lparr>fp_f = F, fp_e = kMinExp\<rparr>
               else \<lparr>fp_f = F + kHiddenBit, fp_e = uint E - kBias\<rparr>);
          lower_boundary_is_closer = (F = 0 \<and> 1 < E);
          m_plus = \<lparr>fp_f = 2 * fp_f v + 1, fp_e = fp_e v - 1\<rparr>;
          m_minus = (if lower_boundary_is_closer
                     then \<lparr>fp_f = 4 * fp_f v - 1, fp_e = fp_e v - 2\<rparr>
                     else \<lparr>fp_f = 2 * fp_f v - 1, fp_e = fp_e v - 1\<rparr>)
      in case diyfp_normalize m_plus of
           None \<Rightarrow> None
         | Some w_plus \<Rightarrow>
             (case diyfp_normalize v of
                None \<Rightarrow> None
              | Some w \<Rightarrow>
                  Some \<lparr>bd_w = w, bd_minus = diyfp_normalize_to m_minus (fp_e w_plus), bd_plus = w_plus\<rparr>))"

section \<open>Cached powers of ten\<close>

definition kAlpha :: int where
  "kAlpha = - 60"

definition kGamma :: int where
  "kGamma = - 32"

text \<open>Significand, binary exponent and decimal exponent of each entry.\<close>

definition kCachedPowers :: "(64 word \<times> int \<times> int) list" where
  "kCachedPowers = [
     (0xAB70FE17C79AC6CA, - 1060, - 300),
     (0xFF77B1FCBEBCDC4F, - 1034, - 292),
     (0xBE5691EF416BD60C, - 1007, - 284),
     (0x8DD01FAD907FFC3C, - 980, - 276),
     (0xD3515C2831559A83, - 954, - 268),
     (0x9D71AC8FADA6C9B5, - 927, - 260),
     (0xEA9C227723EE8BCB, - 901, - 252),
     (0xAECC49914078536D, - 874, - 244),
     (0x823C12795DB6CE57, - 847, - 236),
     (0xC21094364DFB5637, - 821, - 228),
     (0x9096EA6F3848984F, - 794, - 220),
     (0xD77485CB25823AC7, - 768, - 212),
     (0xA086CFCD97BF97F4, - 741, - 204),
     (0xEF340A98172AACE5, - 715, - 196),
     (0xB23867FB2A35B28E, - 688, - 188),
     (0x84C8D4DFD2C63F3B, - 661, - 180),
     (0xC5DD44271AD3CDBA, - 635, - 172),
     (0x936B9FCEBB25C996, - 608, - 164),
     (0xDBAC6C247D62A584, - 582, - 156),
     (0xA3AB66580D5FDAF6, - 555, - 148),
     (0xF3E2F893DEC3F126, - 529, - 140),
     (0xB5B5ADA8AAFF80B8, - 502, - 132),
     (0x87625F056C7C4A8B, - 475, - 124),
     (0xC9BCFF6034C13053, - 449, - 116),
     (0x964E858C91BA2655, - 422, - 108),
     (0xDFF9772470297EBD, - 396, - 100),
     (0xA6DFBD9FB8E5B88F, - 369, - 92),
     (0xF8A95FCF88747D94, - 343, - 84),
     (0xB94470938FA89BCF, - 316, - 76),
     (0x8A08F0F8BF0F156B, - 289, - 68),
     (0xCDB02555653131B6, - 263, - 60),
     (0x993FE2C6D07B7FAC, - 236, - 52),
     (0xE45C10C42A2B3B06, - 210, - 44),
     (0xAA242499697392D3, - 183, - 36),
     (0xFD87B5F28300CA0E, - 157, - 28),
     (0xBCE5086492111AEB, - 130, - 20),
     (0x8CBCCC096F5088CC, - 103, - 12),
     (0xD1B71758E219652C, - 77, - 4),
     (0x9C40000000000000, - 50, 4),
     (0xE8D4A51000000000, - 24, 12),
     (0xAD78EBC5AC620000, 3, 20),
     (0x813F3978F8940984, 30, 28),
     (0xC097CE7BC90715B3, 56, 36),
     (0x8F7E32CE7BEA5C70, 83, 44),
     (0xD5D238A4ABE98068, 109, 52),
     (0x9F4F2726179A2245, 136, 60),
     (0xED63A231D4C4FB27, 162, 68),
     (0xB0DE65388CC8ADA8, 189, 76),
     (0x83C7088E1AAB65DB, 216, 84),
     (0xC45D1DF942711D9A, 242, 92),
     (0x924D692CA61BE758, 269, 100),
     (0xDA01EE641A708DEA, 295, 108),
     (0xA26DA3999AEF774A, 322, 116),
     (0xF209787BB47D6B85, 348, 124),
     (0xB454E4A179DD1877, 375, 132),
     (0x865B86925B9BC5C2, 402, 140),
     (0xC83553C5C8965D3D, 428, 148),
     (0x952AB45CFA97A0B3, 455, 156),
     (0xDE469FBD99A05FE3, 481, 164),
     (0xA59BC234DB398C25, 508, 172),
     (0xF6C69A72A3989F5C, 534, 180),
     (0xB7DCBF5354E9BECE, 561, 188),
     (0x88FCF317F22241E2, 588, 196),
     (0xCC20CE9BD35C78A5, 614, 204),
     (0x98165AF37B2153DF, 641, 212),
     (0xE2A0B5DC971F303A, 667, 220),
     (0xA8D9D1535CE3B396, 694, 228),
     (0xFB9B7CD9A4A7443C, 720, 236),
     (0xBB764C4CA7A44410, 747, 244),
     (0x8BAB8EEFB6409C1A, 774, 252),
     (0xD01FEF10A657842C, 800, 260),
     (0x9B10A4E5E9913129, 827, 268),
     (0xE7109BFBA19C0C9D, 853, 276),
     (0xAC2820D9623BF429, 880, 284),
     (0x80444B5E7AA7CF85, 907, 292),
     (0xBF21E44003ACDD2D, 933, 300),
     (0x8E679C2F5E44FF8F, 960, 308),
     (0xD433179D9C8CB841, 986, 316),
     (0x9E19DB92B4E31BA9, 1013, 324)]"

definition get_cached_power_for_binary_exponent :: "int \<Rightarrow> 64 word \<times> int \<times> int" where
  "get_cached_power_for_binary_exponent e =
     (let f = kAlpha - e - 1;
          k = (f * 78913) sdiv (2 ^ 18) + (if 0 < f then 1 else 0);
          index = (300 + k + (8 - 1)) sdiv 8
      in kCachedPowers ! nat index)"

definition find_largest_pow10 :: "32 word \<Rightarrow> int \<times> 32 word" where
  "find_largest_pow10 n =
     (if 1000000000 \<le> n then (10, 1000000000)
      else if 100000000 \<le> n then (9, 100000000)
      else if 10000000 \<le> n then (8, 10000000)
      else if 1000000 \<le> n then (7, 1000000)
      else if 100000 \<le> n then (6, 100000)
      else if 10000 \<le> n then (5, 10000)
      else if 1000 \<le> n then (4, 1000)
      else if 100 \<le> n then (3, 100)
      else if 10 \<le> n then (2, 10)
      else (1, 1))"

section \<open>Digit generation\<close>

text \<open>The buffer holds the first \<open>length\<close> characters written so far.\<close>

definition decrement_last :: "string \<Rightarrow> string" where
  "decrement_last buf =
     (case buf of [] \<Rightarrow> [] | _ \<Rightarrow> butlast buf @ [char_of (of_char (last buf) - (1::nat))])"

partial_function (option) grisu2_round ::
  "string \<Rightarrow> 64 word \<Rightarrow> 64 word \<Rightarrow> 64 word \<Rightarrow> 64 word \<Rightarrow> string option" where
  "grisu2_round buf distance delta rest ten_k =
     (if rest < distance \<and> ten_k \<le> delta - rest \<and>
         (rest + ten_k < distance \<or> rest + ten_k - distance < distance - rest)
      then grisu2_round (decrement_last buf) distance delta (rest + ten_k) ten_k
      else Some buf)"

text \<open>
  The first loop of \<open>grisu2_digit_gen\<close>, over the digits of the integral part: \<open>Inl\<close> when it returns
  early with the digits and \<open>n\<close>, \<open>Inr\<close> with the digits when all of them are generated.
\<close>

fun digit_gen_integral :: "nat \<Rightarrow> string \<Rightarrow> 32 word \<Rightarrow> 32 word \<Rightarrow> 64 word \<Rightarrow> nat \<Rightarrow> 64 word \<Rightarrow> 64 word
    \<Rightarrow> (string option \<times> nat) + string" where
  "digit_gen_integral 0 buffer p1 pow10 p2 shift delta distance = Inr buffer"
| "digit_gen_integral (Suc n) buffer p1 pow10 p2 shift delta distance =
     (let d = p1 div pow10;
          r = p1 mod pow10;
          buffer = buffer @ [char_of (48 + unat d)];
          rest = push_bit shift (ucast r) + p2
      in if rest \<le> delta
         then Inl (grisu2_round buffer distance delta rest (push_bit shift (ucast pow10)), n)
         else digit_gen_integral n buffer r (pow10 div 10) p2 shift delta distance)"

text \<open>The second loop, over the fractional part: the digits and \<open>m\<close>.\<close>

partial_function (option) digit_gen_fraction ::
  "string \<Rightarrow> int \<Rightarrow> 64 word \<Rightarrow> nat \<Rightarrow> 64 word \<Rightarrow> 64 word \<Rightarrow> (string \<times> int) option" where
  "digit_gen_fraction buffer m p2 shift delta distance =
     (let p2 = p2 * 10;
          d = drop_bit shift p2;
          r = p2 AND (push_bit shift 1 - 1);
          buffer = buffer @ [char_of (48 + unat d)];
          delta = delta * 10;
          distance = distance * 10
      in if r \<le> delta
         then map_option (\<lambda>b. (b, m + 1)) (grisu2_round buffer distance delta r (push_bit shift 1))
         else digit_gen_fraction buffer (m + 1) r shift delta distance)"

definition grisu2_digit_gen :: "int \<Rightarrow> diyfp \<Rightarrow> diyfp \<Rightarrow> diyfp \<Rightarrow> (string \<times> int) option" where
  "grisu2_digit_gen decimal_exponent M_minus w M_plus =
     (let delta = fp_f (diyfp_sub M_plus M_minus);
          distance = fp_f (diyfp_sub M_plus w);
          shift = nat (- fp_e M_plus);
          p1 = ucast (drop_bit shift (fp_f M_plus)) :: 32 word;
          p2 = fp_f M_plus AND (push_bit shift 1 - 1);
          (k, pow10) = find_largest_pow10 p1
      in case digit_gen_integral (nat k) [] p1 pow10 p2 shift delta distance of
           Inl (buf, n) \<Rightarrow> map_option (\<lambda>b. (b, decimal_exponent + int n)) buf
         | Inr buffer \<Rightarrow>
             map_option (\<lambda>(b, m). (b, decimal_exponent - m))
               (digit_gen_fraction buffer 0 p2 shift delta distance))"

definition grisu2_diyfp :: "diyfp \<Rightarrow> diyfp \<Rightarrow> diyfp \<Rightarrow> (string \<times> int) option" where
  "grisu2_diyfp m_minus v m_plus =
     (let (cf, ce, ck) = get_cached_power_for_binary_exponent (fp_e m_plus);
          c_minus_k = \<lparr>fp_f = cf, fp_e = ce\<rparr>;
          w = diyfp_mul v c_minus_k;
          w_minus = diyfp_mul m_minus c_minus_k;
          w_plus = diyfp_mul m_plus c_minus_k;
          M_minus = \<lparr>fp_f = fp_f w_minus + 1, fp_e = fp_e w_minus\<rparr>;
          M_plus = \<lparr>fp_f = fp_f w_plus - 1, fp_e = fp_e w_plus\<rparr>
      in grisu2_digit_gen (- ck) M_minus w M_plus)"

definition grisu2 :: "rat \<Rightarrow> (string \<times> int) option" where
  "grisu2 value =
     (case compute_boundaries value of
        None \<Rightarrow> None
      | Some w \<Rightarrow> grisu2_diyfp (bd_minus w) (bd_w w) (bd_plus w))"

declare diyfp_normalize.simps [code] grisu2_round.simps [code] digit_gen_fraction.simps [code]

section \<open>Formatting\<close>

definition append_exponent :: "int \<Rightarrow> string" where
  "append_exponent e =
     (let k = nat \<bar>e\<bar>
      in (if e < 0 then ''-'' else ''+'') @
         (if k < 10 then [CHR ''0'', char_of (48 + k)]
          else if k < 100 then [char_of (48 + k div 10), char_of (48 + k mod 10)]
          else [char_of (48 + k div 100), char_of (48 + k mod 100 div 10),
                char_of (48 + k mod 100 mod 10)]))"

definition format_buffer :: "string \<Rightarrow> int \<Rightarrow> int \<Rightarrow> int \<Rightarrow> string" where
  "format_buffer buf decimal_exponent min_exp max_exp =
     (let k = int (length buf); n = k + decimal_exponent
      in if k \<le> n \<and> n \<le> max_exp
         then buf @ replicate (nat (n - k)) CHR ''0'' @ ''.0''
         else if 0 < n \<and> n \<le> max_exp
         then take (nat n) buf @ ''.'' @ drop (nat n) buf
         else if min_exp < n \<and> n \<le> 0
         then ''0.'' @ replicate (nat (- n)) CHR ''0'' @ buf
         else (if k = 1 then buf else take 1 buf @ ''.'' @ drop 1 buf) @ ''e'' @ append_exponent (n - 1))"

text \<open>
  \<open>to_chars\<close> on a finite value. The sign comes from \<open>std::signbit\<close>, which is set for the negative zero
  too; the rational \<open>value\<close> cannot tell the two zeros apart, so the bit is an argument.
\<close>

definition to_chars :: "bool \<Rightarrow> rat \<Rightarrow> string option" where
  "to_chars signbit value =
     (let sign = (if signbit then ''-'' else []); value = (if signbit then - value else value)
      in if value = 0 then Some (sign @ ''0.0'')
         else case grisu2 value of
                None \<Rightarrow> None
              | Some (buf, decimal_exponent) \<Rightarrow> Some (sign @ format_buffer buf decimal_exponent (- 4) 15))"

end
