(* ===== verification/Json_Serializer.thy ===== *)
theory Json_Serializer
  imports Json_Parser Json_Dtoa
begin

text \<open>
  The output side of \<open>include/nlohmann/json.hpp\<close> (class \<open>serializer\<close>): the UTF-8 decoder, string
  escaping with its buffer, integers, floating-point numbers and compact \<open>dump\<close>. The exceptions of
  the strict error handler are values of the \<open>exn\<close> type. The output adapter is the string written
  so far.
\<close>

unbundle bit_operations_syntax

section \<open>UTF-8 decoder\<close>

definition utf8d :: "nat list" where
  "utf8d = [
     0, 0, 0, 0, 0, 0, 0, 0, 0, 0, 0, 0, 0, 0, 0, 0, 0, 0, 0, 0, 0, 0, 0, 0, 0, 0, 0, 0, 0, 0, 0, 0,
     0, 0, 0, 0, 0, 0, 0, 0, 0, 0, 0, 0, 0, 0, 0, 0, 0, 0, 0, 0, 0, 0, 0, 0, 0, 0, 0, 0, 0, 0, 0, 0,
     0, 0, 0, 0, 0, 0, 0, 0, 0, 0, 0, 0, 0, 0, 0, 0, 0, 0, 0, 0, 0, 0, 0, 0, 0, 0, 0, 0, 0, 0, 0, 0,
     0, 0, 0, 0, 0, 0, 0, 0, 0, 0, 0, 0, 0, 0, 0, 0, 0, 0, 0, 0, 0, 0, 0, 0, 0, 0, 0, 0, 0, 0, 0, 0,
     1, 1, 1, 1, 1, 1, 1, 1, 1, 1, 1, 1, 1, 1, 1, 1, 9, 9, 9, 9, 9, 9, 9, 9, 9, 9, 9, 9, 9, 9, 9, 9,
     7, 7, 7, 7, 7, 7, 7, 7, 7, 7, 7, 7, 7, 7, 7, 7, 7, 7, 7, 7, 7, 7, 7, 7, 7, 7, 7, 7, 7, 7, 7, 7,
     8, 8, 2, 2, 2, 2, 2, 2, 2, 2, 2, 2, 2, 2, 2, 2, 2, 2, 2, 2, 2, 2, 2, 2, 2, 2, 2, 2, 2, 2, 2, 2,
     10, 3, 3, 3, 3, 3, 3, 3, 3, 3, 3, 3, 3, 4, 3, 3,
     11, 6, 6, 6, 5, 8, 8, 8, 8, 8, 8, 8, 8, 8, 8, 8,
     0, 1, 2, 3, 5, 8, 7, 1, 1, 1, 4, 6, 1, 1, 1, 1,
     1, 1, 1, 1, 1, 1, 1, 1, 1, 1, 1, 1, 1, 1, 1, 1, 1, 0, 1, 1, 1, 1, 1, 0, 1, 0, 1, 1, 1, 1, 1, 1,
     1, 2, 1, 1, 1, 1, 1, 2, 1, 2, 1, 1, 1, 1, 1, 1, 1, 1, 1, 1, 1, 1, 1, 2, 1, 1, 1, 1, 1, 1, 1, 1,
     1, 2, 1, 1, 1, 1, 1, 1, 1, 2, 1, 1, 1, 1, 1, 1, 1, 1, 1, 1, 1, 1, 1, 3, 1, 3, 1, 1, 1, 1, 1, 1,
     1, 3, 1, 1, 1, 1, 1, 3, 1, 3, 1, 1, 1, 1, 1, 1, 1, 3, 1, 1, 1, 1, 1, 1, 1, 1, 1, 1, 1, 1, 1, 1]"

definition UTF8_ACCEPT :: nat where
  "UTF8_ACCEPT = 0"

definition UTF8_REJECT :: nat where
  "UTF8_REJECT = 1"

text \<open>The new state and the new code point (a 32-bit unsigned integer).\<close>

definition decode :: "nat \<Rightarrow> nat \<Rightarrow> nat \<Rightarrow> nat \<times> nat" where
  "decode state codep b =
     (let type = utf8d ! b;
          codep = (if state \<noteq> UTF8_ACCEPT
                   then (b AND 0x3F) OR take_bit 32 (push_bit 6 codep)
                   else drop_bit type 0xFF AND b);
          index = 256 + state * 16 + type
      in (utf8d ! index, codep))"

section \<open>Strings\<close>

datatype error_handler_t = eh_strict | eh_replace | eh_ignore

text \<open>
  The local variables of \<open>dump_escaped\<close> and the output: \<open>string_buffer\<close> is the part of the member
  array before \<open>bytes\<close>, so that \<open>bytes\<close> is its length.
\<close>

record dump_state =
  utf8_state :: nat
  codepoint :: nat
  string_buffer :: string
  bytes_after_last_accept :: nat
  undumped_chars :: nat
  out :: string

definition hex_lower :: "nat \<Rightarrow> char" where
  "hex_lower d = (if d < 10 then digit_char d else char_of (87 + d))"

text \<open>\<open>snprintf\<close> with \<open>%04x\<close> of a 16-bit value.\<close>

definition u_escape :: "nat \<Rightarrow> string" where
  "u_escape n =
     [bsl, CHR ''u'', hex_lower (n div 4096 mod 16), hex_lower (n div 256 mod 16),
      hex_lower (n div 16 mod 16), hex_lower (n mod 16)]"

text \<open>What one accepted code point adds to the buffer; \<open>c\<close> is the byte that completed it.\<close>

definition escape_codepoint :: "bool \<Rightarrow> nat \<Rightarrow> char \<Rightarrow> string" where
  "escape_codepoint ensure_ascii cp c =
     (if cp = 0x08 then [bsl, CHR ''b'']
      else if cp = 0x09 then [bsl, CHR ''t'']
      else if cp = 0x0A then [bsl, CHR ''n'']
      else if cp = 0x0C then [bsl, CHR ''f'']
      else if cp = 0x0D then [bsl, CHR ''r'']
      else if cp = 0x22 then [bsl, dq]
      else if cp = 0x5C then [bsl, bsl]
      else if cp \<le> 0x1F \<or> ensure_ascii \<and> 0x7F \<le> cp
      then (if cp \<le> 0xFFFF then u_escape cp
            else u_escape ((0xD7C0 + drop_bit 10 cp) mod 2 ^ 16) @
                 u_escape ((0xDC00 + (cp AND 0x3FF)) mod 2 ^ 16))
      else [c])"

text \<open>The buffer is written out when fewer than 13 of its 512 bytes are left.\<close>

definition flush_buffer :: "dump_state \<Rightarrow> dump_state" where
  "flush_buffer d =
     (if 512 - length (string_buffer d) < 13
      then d\<lparr>out := out d @ string_buffer d, string_buffer := []\<rparr> else d)"

definition on_accept :: "bool \<Rightarrow> char \<Rightarrow> dump_state \<Rightarrow> dump_state" where
  "on_accept ensure_ascii c d =
     (let d = flush_buffer (d\<lparr>string_buffer := string_buffer d @ escape_codepoint ensure_ascii (codepoint d) c\<rparr>)
      in d\<lparr>bytes_after_last_accept := length (string_buffer d), undumped_chars := 0\<rparr>)"

definition on_incomplete :: "bool \<Rightarrow> char \<Rightarrow> dump_state \<Rightarrow> dump_state" where
  "on_incomplete ensure_ascii c d =
     (let d = (if ensure_ascii then d else d\<lparr>string_buffer := string_buffer d @ [c]\<rparr>)
      in d\<lparr>undumped_chars := Suc (undumped_chars d)\<rparr>)"

definition replacement :: "bool \<Rightarrow> string" where
  "replacement ensure_ascii =
     (if ensure_ascii then [bsl, CHR ''u'', CHR ''f'', CHR ''f'', CHR ''f'', CHR ''d'']
      else [CHR 0xEF, CHR 0xBF, CHR 0xBD])"

text \<open>A rejected byte under the handlers that go on.\<close>

definition on_reject :: "bool \<Rightarrow> bool \<Rightarrow> dump_state \<Rightarrow> dump_state" where
  "on_reject replacing ensure_ascii d =
     (let d = d\<lparr>string_buffer := take (bytes_after_last_accept d) (string_buffer d)\<rparr>;
          d = (if replacing
               then (let d = flush_buffer (d\<lparr>string_buffer := string_buffer d @ replacement ensure_ascii\<rparr>)
                     in d\<lparr>bytes_after_last_accept := length (string_buffer d)\<rparr>)
               else d)
      in d\<lparr>undumped_chars := 0, utf8_state := UTF8_ACCEPT\<rparr>)"

definition hex_bytes :: "nat \<Rightarrow> string" where
  "hex_bytes b = [hex_upper (b div 16), hex_upper (b mod 16)]"

definition decode_next :: "char \<Rightarrow> dump_state \<Rightarrow> dump_state" where
  "decode_next c d =
     (let (st, cp) = decode (utf8_state d) (codepoint d) (byte c)
      in d\<lparr>utf8_state := st, codepoint := cp\<rparr>)"

lemma undumped_on_reject [simp]: "undumped_chars (on_reject r e d) = 0"
  by (simp add: on_reject_def Let_def)

lemma decode_next_fields [simp]:
  "undumped_chars (decode_next c d) = undumped_chars d" "string_buffer (decode_next c d) = string_buffer d"
  "bytes_after_last_accept (decode_next c d) = bytes_after_last_accept d" "out (decode_next c d) = out d"
  by (simp_all add: decode_next_def case_prod_unfold Let_def)

text \<open>
  The loop over the bytes from index \<open>i\<close> on. A byte rejected inside a sequence is read again
  (\<open>--i\<close>); \<open>undumped_chars\<close> is zero then, so it is not read a third time.
\<close>

function dump_escaped_loop ::
  "error_handler_t \<Rightarrow> bool \<Rightarrow> nat \<Rightarrow> string \<Rightarrow> dump_state \<Rightarrow> exn + dump_state" where
  "dump_escaped_loop eh ensure_ascii i [] d = Inr d"
| "dump_escaped_loop eh ensure_ascii i (c # cs) d =
     (if utf8_state (decode_next c d) = UTF8_ACCEPT
      then dump_escaped_loop eh ensure_ascii (Suc i) cs (on_accept ensure_ascii c (decode_next c d))
      else if utf8_state (decode_next c d) = UTF8_REJECT
      then if eh = eh_strict
           then Inl (type_error_create 316
                  (''invalid UTF-8 byte at index '' @ show_nat i @ '': 0x'' @ hex_bytes (byte c)))
           else if 0 < undumped_chars d
           then dump_escaped_loop eh ensure_ascii i (c # cs)
                  (on_reject (eh = eh_replace) ensure_ascii (decode_next c d))
           else dump_escaped_loop eh ensure_ascii (Suc i) cs
                  (on_reject (eh = eh_replace) ensure_ascii (decode_next c d))
      else dump_escaped_loop eh ensure_ascii (Suc i) cs (on_incomplete ensure_ascii c (decode_next c d)))"
  by pat_completeness auto

termination
  by (relation "measure (\<lambda>(eh, e, i, cs, d). 2 * length cs + (if 0 < undumped_chars d then 1 else 0))")
    auto

definition new_dump_state :: "dump_state" where
  "new_dump_state = \<lparr>utf8_state = UTF8_ACCEPT, codepoint = 0, string_buffer = [],
     bytes_after_last_accept = 0, undumped_chars = 0, out = []\<rparr>"

definition dump_escaped :: "error_handler_t \<Rightarrow> bool \<Rightarrow> string \<Rightarrow> exn + string" where
  "dump_escaped eh ensure_ascii s =
     (case dump_escaped_loop eh ensure_ascii 0 s new_dump_state of
        Inl e \<Rightarrow> Inl e
      | Inr d \<Rightarrow>
          if utf8_state d = UTF8_ACCEPT then Inr (out d @ string_buffer d)
          else case eh of
                 eh_strict \<Rightarrow> Inl (type_error_create 316
                   (''incomplete UTF-8 string; last byte: 0x'' @ hex_bytes (byte (last s))))
               | eh_ignore \<Rightarrow> Inr (out d @ take (bytes_after_last_accept d) (string_buffer d))
               | eh_replace \<Rightarrow> Inr (out d @ take (bytes_after_last_accept d) (string_buffer d) @
                   replacement ensure_ascii))"

section \<open>Numbers\<close>

fun count_digits :: "nat \<Rightarrow> nat \<Rightarrow> nat" where
  "count_digits n_digits x =
     (if x < 10 then n_digits
      else if x < 100 then n_digits + 1
      else if x < 1000 then n_digits + 2
      else if x < 10000 then n_digits + 3
      else count_digits (n_digits + 4) (x div 10000))"

declare count_digits.simps [simp del]

text \<open>The absolute value, computed so that the smallest 64-bit integer does not overflow.\<close>

definition remove_sign :: "int \<Rightarrow> nat" where
  "remove_sign x = nat (- (x + 1)) + 1"

definition digits_to_99 :: "nat \<Rightarrow> char \<times> char" where
  "digits_to_99 i = (digit_char (i div 10), digit_char (i mod 10))"

text \<open>
  The loop that fills \<open>number_buffer\<close> backwards, two digits at a time; \<open>ptr\<close> is the position
  \<open>buffer_ptr\<close> points to.
\<close>

fun fill_digits :: "nat \<Rightarrow> nat \<Rightarrow> string \<Rightarrow> string" where
  "fill_digits abs_value ptr buf =
     (if 100 \<le> abs_value
      then (let (d0, d1) = digits_to_99 (abs_value mod 100)
            in fill_digits (abs_value div 100) (ptr - 2) (buf[ptr - 1 := d1, ptr - 2 := d0]))
      else if 10 \<le> abs_value
      then (let (d0, d1) = digits_to_99 abs_value in buf[ptr - 1 := d1, ptr - 2 := d0])
      else buf[ptr - 1 := digit_char abs_value])"

declare fill_digits.simps [simp del]

definition dump_integer :: "string \<Rightarrow> int \<Rightarrow> string" where
  "dump_integer number_buffer x =
     (if x = 0 then ''0''
      else if x < 0
      then (let abs_value = remove_sign x; n_chars = 1 + count_digits 1 abs_value
            in take n_chars (fill_digits abs_value n_chars (number_buffer[0 := CHR ''-''])))
      else (let abs_value = nat x; n_chars = count_digits 1 abs_value
            in take n_chars (fill_digits abs_value n_chars number_buffer)))"

text \<open>
  A conversion that does not return is the value \<open>Undefined\<close>. A JSON value of the model has one zero,
  the positive one; the negative zero of a C++ \<open>double\<close> is printed with its sign (\<open>to_chars\<close>).
\<close>

definition dump_float :: "double \<Rightarrow> exn + string" where
  "dump_float x =
     (case x of
        Fin r \<Rightarrow> (case to_chars (r < 0) r of Some s \<Rightarrow> Inr s | None \<Rightarrow> Inl Undefined)
      | _ \<Rightarrow> Inr ''null'')"

section \<open>Values\<close>

text \<open>
  \<open>serializer::dump\<close>. The arguments that stay the same in all recursive calls are a record. The member
  \<open>indent_string\<close> is passed along: it holds the indentation of a line and is doubled, with blanks, when
  the next level needs more than it holds. \<open>write_characters\<close> reads \<open>n\<close> bytes from its start, of which
  those up to the terminating zero exist; reading on is undefined. The content of \<open>number_buffer\<close>
  before a call does not matter (\<open>dump_integer_eq\<close>), so every call gets a fresh one. Values of type
  binary come from the binary formats only and are not part of the model.
\<close>

record dump_format =
  fmt_pretty :: bool
  fmt_ascii :: bool
  fmt_step :: nat
  fmt_handler :: error_handler_t

definition write_indent :: "nat \<Rightarrow> string \<Rightarrow> exn + string" where
  "write_indent n indent_string =
     (if n \<le> Suc (length indent_string) then Inr (take n (indent_string @ [CHR 0x00])) else Inl Undefined)"

definition grow_indent :: "nat \<Rightarrow> string \<Rightarrow> string" where
  "grow_indent new_indent indent_string =
     (if length indent_string < new_indent
      then indent_string @ replicate (length indent_string) CHR '' ''
      else indent_string)"

definition quoted :: "dump_format \<Rightarrow> string \<Rightarrow> exn + string" where
  "quoted f s = sum_bind (dump_escaped (fmt_handler f) (fmt_ascii f) s) (\<lambda>t. Inr (dq # t @ [dq]))"

text \<open>What \<open>pretty_print\<close> adds around the elements of a container and between them.\<close>

definition bracket_open :: "dump_format \<Rightarrow> char \<Rightarrow> string" where
  "bracket_open f c = (if fmt_pretty f then [c, nl] else [c])"

definition separator :: "dump_format \<Rightarrow> string" where
  "separator f = (if fmt_pretty f then [CHR '','', nl] else '','')"

definition line_start :: "dump_format \<Rightarrow> nat \<Rightarrow> string \<Rightarrow> exn + string" where
  "line_start f n indent_string = (if fmt_pretty f then write_indent n indent_string else Inr [])"

definition bracket_close :: "dump_format \<Rightarrow> nat \<Rightarrow> string \<Rightarrow> char \<Rightarrow> exn + string" where
  "bracket_close f current_indent indent_string c =
     (if fmt_pretty f
      then sum_bind (write_indent current_indent indent_string) (\<lambda>w. Inr (nl # w @ [c]))
      else Inr [c])"

definition new_indent :: "dump_format \<Rightarrow> nat \<Rightarrow> nat" where
  "new_indent f current_indent =
     (if fmt_pretty f then (current_indent + fmt_step f) mod 2 ^ 32 else current_indent)"

definition level_indent :: "dump_format \<Rightarrow> nat \<Rightarrow> string \<Rightarrow> string" where
  "level_indent f current_indent indent_string =
     (if fmt_pretty f then grow_indent (new_indent f current_indent) indent_string else indent_string)"

fun dump_value :: "dump_format \<Rightarrow> nat \<Rightarrow> json \<Rightarrow> string \<Rightarrow> exn + (string \<times> string)"
  and dump_members :: "dump_format \<Rightarrow> nat \<Rightarrow> (string \<times> json) list \<Rightarrow> string \<Rightarrow> exn + (string \<times> string)"
  and dump_elements :: "dump_format \<Rightarrow> nat \<Rightarrow> json list \<Rightarrow> string \<Rightarrow> exn + (string \<times> string)" where
  "dump_value f n (JObject m) ind =
     (if m = [] then Inr (''{}'', ind)
      else sum_bind (dump_members f (new_indent f n) m (level_indent f n ind)) (\<lambda>(t, ind).
           sum_bind (bracket_close f n ind CHR ''}'') (\<lambda>e. Inr (bracket_open f CHR ''{'' @ t @ e, ind))))"
| "dump_value f n (JArray vs) ind =
     (if vs = [] then Inr (''[]'', ind)
      else sum_bind (dump_elements f (new_indent f n) vs (level_indent f n ind)) (\<lambda>(t, ind).
           sum_bind (bracket_close f n ind CHR '']'') (\<lambda>e. Inr (bracket_open f CHR ''['' @ t @ e, ind))))"
| "dump_value f n (JString s) ind = sum_bind (quoted f s) (\<lambda>t. Inr (t, ind))"
| "dump_value f n (JBool b) ind = Inr (if b then ''true'' else ''false'', ind)"
| "dump_value f n (JInt i) ind = Inr (dump_integer (replicate 64 CHR 0x00) i, ind)"
| "dump_value f n (JUint k) ind = Inr (dump_integer (replicate 64 CHR 0x00) (int k), ind)"
| "dump_value f n (JFloat x) ind = sum_bind (dump_float x) (\<lambda>t. Inr (t, ind))"
| "dump_value f n JNull ind = Inr (''null'', ind)"
| "dump_members f n [] ind = Inr ([], ind)"
| "dump_members f n ((k, v) # m) ind =
     sum_bind (line_start f n ind) (\<lambda>w. sum_bind (quoted f k) (\<lambda>key.
     sum_bind (dump_value f n v ind) (\<lambda>(t, ind).
       let member = w @ key @ (if fmt_pretty f then '': '' else '':'') @ t
       in if m = [] then Inr (member, ind)
          else sum_bind (dump_members f n m ind) (\<lambda>(ts, ind). Inr (member @ separator f @ ts, ind)))))"
| "dump_elements f n [] ind = Inr ([], ind)"
| "dump_elements f n (v # vs) ind =
     sum_bind (line_start f n ind) (\<lambda>w. sum_bind (dump_value f n v ind) (\<lambda>(t, ind).
       if vs = [] then Inr (w @ t, ind)
       else sum_bind (dump_elements f n vs ind) (\<lambda>(ts, ind). Inr (w @ t @ separator f @ ts, ind))))"

text \<open>
  \<open>basic_json::dump\<close>: a negative \<open>indent\<close> selects the compact form. The program calls it without
  arguments.
\<close>

definition dump_with :: "int \<Rightarrow> char \<Rightarrow> bool \<Rightarrow> error_handler_t \<Rightarrow> json \<Rightarrow> exn + string" where
  "dump_with indent indent_char ascii eh j =
     sum_bind (dump_value \<lparr>fmt_pretty = 0 \<le> indent, fmt_ascii = ascii, fmt_step = nat indent, fmt_handler = eh\<rparr>
       0 j (replicate 512 indent_char)) (\<lambda>(t, ind). Inr t)"

definition json_dump :: "json \<Rightarrow> exn + string" where
  "json_dump j = dump_with (- 1) CHR '' '' False eh_strict j"

abbreviation compact :: "dump_format" where
  "compact \<equiv> \<lparr>fmt_pretty = False, fmt_ascii = False, fmt_step = 0, fmt_handler = eh_strict\<rparr>"

lemma json_dump_compact: "json_dump j = sum_bind (dump_value compact 0 j (replicate 512 CHR '' '')) (\<lambda>(t, ind). Inr t)"
  by (simp add: json_dump_def dump_with_def)

lemmas layout_defs = bracket_open_def separator_def line_start_def bracket_close_def new_indent_def level_indent_def

end
