(* ===== verification/Json_Text.thy ===== *)
theory Json_Text
  imports Json_Serializer
begin

text \<open>
  Correctness of the text layer of the JSON library: integers are printed in plain decimal
  notation, strings are escaped byte for byte exactly when they are well-formed UTF-8, and the
  scanner hands out well-formed UTF-8 only.
\<close>

unbundle bit_operations_syntax

section \<open>Integers\<close>

lemma show_nat_two_digits:
  "100 \<le> n \<Longrightarrow> show_nat n = show_nat (n div 100) @ [digit_char (n mod 100 div 10), digit_char (n mod 100 mod 10)]"
  by (simp add: show_nat.simps [of n] show_nat.simps [of "n div 10"] div_mult2_eq [symmetric]
      mod_mult2_eq [of n 10 10, simplified])

lemma show_nat_small:
  "n < 10 \<Longrightarrow> show_nat n = [digit_char n]"
  "10 \<le> n \<Longrightarrow> n < 100 \<Longrightarrow> show_nat n = [digit_char (n div 10), digit_char (n mod 10)]"
  by (simp_all add: show_nat.simps [of n] show_nat.simps [of "n div 10"])

lemma fill_digits_eq:
  "length (show_nat n) \<le> ptr \<Longrightarrow> ptr \<le> length buf \<Longrightarrow>
   fill_digits n ptr buf = take (ptr - length (show_nat n)) buf @ show_nat n @ drop ptr buf"
proof (induction n ptr buf rule: fill_digits.induct)
  case (1 n ptr buf)
  consider "100 \<le> n" | "10 \<le> n" "n < 100" | "n < 10" by linarith
  then show ?case
  proof cases
    case 1
    let ?a = "digit_char (n mod 100 div 10)" and ?b = "digit_char (n mod 100 mod 10)"
    let ?buf = "buf[ptr - 1 := ?b, ptr - 2 := ?a]"
    have sh: "show_nat n = show_nat (n div 100) @ [?a, ?b]" using 1 by (rule show_nat_two_digits)
    then have len: "2 \<le> ptr" "length (show_nat (n div 100)) \<le> ptr - 2" using "1.prems" by simp_all
    have "fill_digits n ptr buf = fill_digits (n div 100) (ptr - 2) ?buf"
      using 1 by (simp add: fill_digits.simps [of n] digits_to_99_def)
    also have "\<dots> = take (ptr - 2 - length (show_nat (n div 100))) ?buf @ show_nat (n div 100) @ drop (ptr - 2) ?buf"
      using "1.IH" 1 len "1.prems" by (simp add: digits_to_99_def)
    also have "drop (ptr - 2) ?buf = [?a, ?b] @ drop ptr buf"
      using len(1) "1.prems"(2)
      by (intro nth_equalityI) (auto simp: nth_append nth_Cons' nth_list_update numeral_2_eq_2)
    finally show ?thesis using sh by (simp add: diff_diff_eq)
  next
    case 2
    then have sh: "show_nat n = [digit_char (n div 10), digit_char (n mod 10)]" by (rule show_nat_small)
    with 2 have eq: "fill_digits n ptr buf = buf[ptr - 1 := digit_char (n mod 10), ptr - 2 := digit_char (n div 10)]"
      by (simp add: fill_digits.simps [of n] digits_to_99_def)
    show ?thesis
      using "1.prems" unfolding eq sh
      by (intro nth_equalityI) (auto simp: nth_append nth_Cons' nth_list_update)
  next
    case 3
    then have sh: "show_nat n = [digit_char n]" by (rule show_nat_small)
    with 3 have eq: "fill_digits n ptr buf = buf[ptr - 1 := digit_char n]"
      by (simp add: fill_digits.simps [of n])
    show ?thesis
      using "1.prems" unfolding eq sh
      by (intro nth_equalityI) (auto simp: nth_append nth_Cons' nth_list_update)
  qed
qed

lemma length_show_nat_div: "10 \<le> n \<Longrightarrow> length (show_nat n) = Suc (length (show_nat (n div 10)))"
  by (simp add: show_nat.simps [of n])

lemma count_digits_eq: "count_digits k n = k + length (show_nat n) - 1"
proof (induction k n rule: count_digits.induct)
  case (1 k n)
  have div: "n div 10 div 10 = n div 100" "n div 100 div 10 = n div 1000" "n div 1000 div 10 = n div 10000"
    by (simp_all add: div_mult2_eq [symmetric])
  show ?case
  proof (cases "n < 10000")
    case False
    then have "length (show_nat n) = 4 + length (show_nat (n div 10000))"
      using length_show_nat_div [of n] length_show_nat_div [of "n div 10"]
        length_show_nat_div [of "n div 100"] length_show_nat_div [of "n div 1000"] by (simp add: div)
    with False 1 show ?thesis by (simp add: count_digits.simps [of k n])
  next
    case True
    have small: "n < 10 \<Longrightarrow> length (show_nat n) = 1" for n by (simp add: show_nat_small)
    consider "n < 10" | "10 \<le> n" "n < 100" | "100 \<le> n" "n < 1000" | "1000 \<le> n" by linarith
    then show ?thesis
      using True length_show_nat_div [of n] length_show_nat_div [of "n div 10"]
        length_show_nat_div [of "n div 100"]
        small [of n] small [of "n div 10"] small [of "n div 100"] small [of "n div 1000"]
      by cases (simp_all add: count_digits.simps [of k n] div)
  qed
qed

lemma length_show_nat_le: "n < 10 ^ k \<Longrightarrow> 0 < k \<Longrightarrow> length (show_nat n) \<le> k"
proof (induction k arbitrary: n)
  case (Suc k)
  show ?case
  proof (cases "n < 10")
    case False
    then have "n div 10 < 10 ^ k" using Suc.prems by (simp add: less_mult_imp_div_less mult.commute)
    moreover from this False have "0 < k" by (cases k) auto
    ultimately show ?thesis using Suc.IH False by (simp add: length_show_nat_div)
  qed (simp add: show_nat_small)
qed simp

lemma length_show_uint64: "n < 2 ^ 64 \<Longrightarrow> length (show_nat n) \<le> 20"
  using length_show_nat_le [of n 20] by simp

lemma dump_integer_eq:
  assumes "length buf = 64" "- (2 ^ 63) \<le> x" "x < 2 ^ 64"
  shows "dump_integer buf x = show_int x"
proof -
  have fill: "take p (fill_digits n p b) = take (p - length (show_nat n)) b @ show_nat n"
    if "length (show_nat n) \<le> p" "p \<le> length b" for n p b
    using that by (simp add: fill_digits_eq)
  consider "x = 0" | "0 < x" | "x < 0" by linarith
  then show ?thesis
  proof cases
    case 1
    then show ?thesis by (simp add: dump_integer_def show_int_def show_nat_small)
  next
    case 2
    then have "length (show_nat (nat x)) \<le> 20" using assms by (intro length_show_uint64) (simp add: nat_less_iff)
    with 2 fill [of "nat x" "length (show_nat (nat x))" buf] assms(1) show ?thesis
      by (simp add: dump_integer_def show_int_def count_digits_eq)
  next
    case 3
    then have abs: "remove_sign x = nat (- x)" by (simp add: remove_sign_def)
    have "length (show_nat (nat (- x))) \<le> 20" using assms by (intro length_show_uint64) (simp add: nat_less_iff)
    with 3 fill [of "nat (- x)" "Suc (length (show_nat (nat (- x))))" "buf[0 := CHR ''-'']"] assms(1)
    show ?thesis
      by (cases buf) (simp_all add: dump_integer_def show_int_def count_digits_eq abs)
  qed
qed

section \<open>Well-formed UTF-8\<close>

text \<open>
  The reference: the byte ranges of the Unicode standard, as ranges that the next bytes have to
  lie in. \<open>expect\<close> reads one byte, \<open>utf8_scan\<close> a string.
\<close>

fun expect :: "(nat \<times> nat) list \<Rightarrow> nat \<Rightarrow> (nat \<times> nat) list option" where
  "expect [] b = (if b < 0x80 then Some [] else utf8_ranges b)"
| "expect ((lo, hi) # rs) b = (if lo \<le> b \<and> b \<le> hi then Some rs else None)"

fun utf8_scan :: "(nat \<times> nat) list \<Rightarrow> string \<Rightarrow> (nat \<times> nat) list option" where
  "utf8_scan rs [] = Some rs"
| "utf8_scan rs (c # s) = Option.bind (expect rs (byte c)) (\<lambda>rs'. utf8_scan rs' s)"

definition utf8_ok :: "string \<Rightarrow> bool" where
  "utf8_ok s \<longleftrightarrow> utf8_scan [] s = Some []"

lemma utf8_scan_append: "utf8_scan rs (s @ t) = Option.bind (utf8_scan rs s) (\<lambda>rs'. utf8_scan rs' t)"
  by (induction rs s rule: utf8_scan.induct) (simp_all split: bind_split)

lemma utf8_ok_append: "utf8_ok s \<Longrightarrow> utf8_ok t \<Longrightarrow> utf8_ok (s @ t)"
  by (simp add: utf8_ok_def utf8_scan_append)

lemma utf8_ok_Nil [simp]: "utf8_ok []"
  by (simp add: utf8_ok_def)

lemma utf8_ok_ascii: "byte c < 0x80 \<Longrightarrow> utf8_ok [c]"
  by (simp add: utf8_ok_def)

lemma utf8_ok_Cons_ascii [simp]: "byte c < 0x80 \<Longrightarrow> utf8_ok (c # s) \<longleftrightarrow> utf8_ok s"
  by (simp add: utf8_ok_def)

lemma utf8_ok_all_ascii: "\<forall>c \<in> set s. byte c < 0x80 \<Longrightarrow> utf8_ok s"
  by (induction s) simp_all

section \<open>The decoder table\<close>

text \<open>
  The first 256 entries of \<open>utf8d\<close> classify the bytes, the rest is the transition table. The
  ranges that a state waits for are \<open>pending\<close>; every transition of the table is a step of \<open>expect\<close>.
\<close>

definition byte_type :: "nat \<Rightarrow> nat" where
  "byte_type b =
     (if b < 0x80 then 0 else if b < 0x90 then 1 else if b < 0xA0 then 9 else if b < 0xC0 then 7
      else if b < 0xC2 then 8 else if b < 0xE0 then 2 else if b = 0xE0 then 10
      else if b = 0xED then 4 else if b < 0xF0 then 3 else if b = 0xF0 then 11
      else if b < 0xF4 then 6 else if b = 0xF4 then 5 else 8)"

definition next_state :: "nat \<Rightarrow> nat \<Rightarrow> nat" where
  "next_state st t = utf8d ! (256 + st * 16 + t)"

definition pending :: "nat \<Rightarrow> (nat \<times> nat) list" where
  "pending st =
     (if st = 2 then [(0x80, 0xBF)]
      else if st = 3 then [(0x80, 0xBF), (0x80, 0xBF)]
      else if st = 4 then [(0xA0, 0xBF), (0x80, 0xBF)]
      else if st = 5 then [(0x80, 0x9F), (0x80, 0xBF)]
      else if st = 6 then [(0x90, 0xBF), (0x80, 0xBF), (0x80, 0xBF)]
      else if st = 7 then [(0x80, 0xBF), (0x80, 0xBF), (0x80, 0xBF)]
      else if st = 8 then [(0x80, 0x8F), (0x80, 0xBF), (0x80, 0xBF)]
      else [])"

definition dfa_states :: "nat list" where
  "dfa_states = [0, 2, 3, 4, 5, 6, 7, 8]"

lemma utf8d_types: "take 256 utf8d = map byte_type [0..<256]"
  by code_simp

lemma utf8d_byte: "b < 256 \<Longrightarrow> utf8d ! b = byte_type b"
  using arg_cong [OF utf8d_types, of "\<lambda>l. l ! b"] by simp

lemma upt_12: "[0..<12] = [0, 1, 2, 3, 4, 5, 6, 7, 8, 9, 10, 11]"
  by code_simp

lemma next_state_rows:
  "map (next_state 0) [0..<12] = [0, 1, 2, 3, 5, 8, 7, 1, 1, 1, 4, 6]"
  "map (next_state 2) [0..<12] = [1, 0, 1, 1, 1, 1, 1, 0, 1, 0, 1, 1]"
  "map (next_state 3) [0..<12] = [1, 2, 1, 1, 1, 1, 1, 2, 1, 2, 1, 1]"
  "map (next_state 4) [0..<12] = [1, 1, 1, 1, 1, 1, 1, 2, 1, 1, 1, 1]"
  "map (next_state 5) [0..<12] = [1, 2, 1, 1, 1, 1, 1, 1, 1, 2, 1, 1]"
  "map (next_state 6) [0..<12] = [1, 1, 1, 1, 1, 1, 1, 3, 1, 3, 1, 1]"
  "map (next_state 7) [0..<12] = [1, 3, 1, 1, 1, 1, 1, 3, 1, 3, 1, 1]"
  "map (next_state 8) [0..<12] = [1, 3, 1, 1, 1, 1, 1, 1, 1, 1, 1, 1]"
  by code_simp+

lemmas next_state_simps = next_state_rows [unfolded upt_12 list.map list.inject, simplified]

lemma byte_classes:
  obtains "b < (0x80 :: nat)" | "0x80 \<le> b" "b < 0x90" | "0x90 \<le> b" "b < 0xA0" | "0xA0 \<le> b" "b < 0xC0"
    | "0xC0 \<le> b" "b < 0xC2" | "0xC2 \<le> b" "b < 0xE0" | "b = 0xE0" | "0xE1 \<le> b" "b < 0xED"
    | "b = 0xED" | "b = 0xEE" | "b = 0xEF" | "b = 0xF0" | "0xF1 \<le> b" "b < 0xF4" | "b = 0xF4"
    | "0xF5 \<le> b"
proof (cases "b < 0xE0")
  case True
  then show ?thesis
    using that(1-6)
    by (cases "b < 0x80"; cases "b < 0x90"; cases "b < 0xA0"; cases "b < 0xC0"; cases "b < 0xC2") simp_all
next
  case ge: False
  show ?thesis
  proof (cases "b < 0xEE")
    case True
    with ge show ?thesis using that(7-9) by (cases "b = 0xE0"; cases "b < 0xED") simp_all
  next
    case False
    then show ?thesis
      using that(10-15)
      by (cases "b = 0xEE"; cases "b = 0xEF"; cases "b = 0xF0"; cases "b < 0xF4"; cases "b = 0xF4") simp_all
  qed
qed

lemma dfa_step:
  assumes "st \<in> set dfa_states" "b < 256"
  shows "case expect (pending st) b of
           None \<Rightarrow> next_state st (byte_type b) = 1
         | Some rs \<Rightarrow> next_state st (byte_type b) \<in> set dfa_states \<and> pending (next_state st (byte_type b)) = rs"
proof -
  have "\<forall>st \<in> set dfa_states. case expect (pending st) b of
           None \<Rightarrow> next_state st (byte_type b) = 1
         | Some rs \<Rightarrow> next_state st (byte_type b) \<in> set dfa_states \<and> pending (next_state st (byte_type b)) = rs"
    using assms(2)
    by (cases b rule: byte_classes)
      (simp_all add: dfa_states_def next_state_simps byte_type_def pending_def utf8_ranges_def)
  with assms(1) show ?thesis by blast
qed

lemma pending_empty: "st \<in> set dfa_states \<Longrightarrow> pending st = [] \<longleftrightarrow> st = 0"
  by (auto simp: dfa_states_def pending_def)

section \<open>Escaping\<close>

text \<open>Reference: every byte on its own; bytes from \<open>0x80\<close> on are copied.\<close>

definition esc_byte :: "char \<Rightarrow> string" where
  "esc_byte c = (if byte c < 0x80 then escape_codepoint False (byte c) c else [c])"

definition escape_string :: "string \<Rightarrow> string" where
  "escape_string s = concat (map esc_byte s)"

lemma nat_and_masks:
  "(255 :: nat) AND b = b mod 256" "(63 :: nat) AND b = b mod 64" "(31 :: nat) AND b = b mod 32"
  "(3 :: nat) AND b = b mod 4" "b AND (63 :: nat) = b mod 64"
  using take_bit_eq_mask [of 8 b] take_bit_eq_mask [of 6 b] take_bit_eq_mask [of 5 b] take_bit_eq_mask [of 2 b]
  by (simp_all add: mask_eq_exp_minus_1 take_bit_eq_mod and.commute)

lemma append_bits:
  assumes "cp < 2 ^ 18"
  shows "(b AND 0x3F) OR take_bit 32 (push_bit 6 cp) = b mod 64 + 64 * (cp :: nat)"
proof -
  have "take_bit 32 (push_bit 6 cp) = push_bit 6 cp"
    using assms by (simp add: take_bit_nat_eq_self_iff push_bit_eq_mult)
  moreover have "take_bit 6 b OR push_bit 6 cp = take_bit 6 b + push_bit 6 cp"
    by (rule disjunctive_add [symmetric]) (auto simp: bit_simps)
  ultimately show ?thesis
    by (simp add: nat_and_masks(5) take_bit_eq_mod push_bit_eq_mult mult.commute)
qed

text \<open>Bounds on the code point collected so far, in each state of the decoder.\<close>

definition cp_ok :: "nat \<Rightarrow> nat \<Rightarrow> bool" where
  "cp_ok st cp \<longleftrightarrow>
     (st = 0 \<or> cp < 2 ^ (6 * (4 - length (pending st)))) \<and> (st = 2 \<longrightarrow> 2 \<le> cp) \<and>
     (st \<in> {3, 5, 7, 8} \<longrightarrow> 1 \<le> cp)"

lemma decode_eq:
  "b < 256 \<Longrightarrow> decode st cp b =
     (next_state st (byte_type b),
      if st = 0 then drop_bit (byte_type b) 0xFF AND b
      else (b AND 0x3F) OR take_bit 32 (push_bit 6 cp))"
  by (simp add: decode_def utf8d_byte next_state_def UTF8_ACCEPT_def Let_def)

lemma mod_block: "k * m \<le> b \<Longrightarrow> b < (k + 1) * m \<Longrightarrow> b mod m = b - k * m" for b m k :: nat
  using mod_mult_self1 [of "b - k * m" k m] by simp

lemma byte_mods:
  "194 \<le> b \<Longrightarrow> b < 224 \<Longrightarrow> b mod 64 = b - 192" "225 \<le> b \<Longrightarrow> b < 237 \<Longrightarrow> b mod 32 = b - 224"
  "241 \<le> b \<Longrightarrow> b < 244 \<Longrightarrow> b mod 4 = b - 240" "128 \<le> b \<Longrightarrow> b < 192 \<Longrightarrow> b mod 64 = b - 128" for b :: nat
  using mod_block [of 3 64 b] mod_block [of 7 32 b] mod_block [of 60 4 b] mod_block [of 2 64 b] by simp_all

lemma lead_cp:
  assumes "b < 256" "next_state 0 (byte_type b) \<noteq> 1"
  shows "if b < 0x80 then next_state 0 (byte_type b) = 0 \<and> drop_bit (byte_type b) 0xFF AND b = b
         else next_state 0 (byte_type b) \<noteq> 0 \<and> cp_ok (next_state 0 (byte_type b)) (drop_bit (byte_type b) 0xFF AND b)"
  using assms
  by (cases b rule: byte_classes;
      simp add: byte_type_def next_state_simps cp_ok_def pending_def nat_and_masks drop_bit_eq_div byte_mods;
      (intro conjI; linarith)?)

lemma cont_byte:
  assumes "st \<in> set dfa_states" "st \<noteq> 0" "b < 256" "next_state st (byte_type b) \<noteq> 1"
  shows "0x80 \<le> b" "b < 0xC0"
proof -
  have "expect (pending st) b \<noteq> None" using dfa_step [OF assms(1,3)] assms(4) by (auto split: option.splits)
  then have "0x80 \<le> b \<and> b < 0xC0"
    using assms(1,2) by (auto simp: dfa_states_def pending_def split: if_splits)
  then show "0x80 \<le> b" "b < 0xC0" by simp_all
qed

lemma cont_cp:
  assumes st: "st \<in> set dfa_states" "st \<noteq> 0" and b: "b < 256" and cp: "cp_ok st cp"
    and ns: "next_state st (byte_type b) \<noteq> 1"
  shows "if next_state st (byte_type b) = 0 then 0x80 \<le> b mod 64 + 64 * cp
         else cp_ok (next_state st (byte_type b)) (b mod 64 + 64 * cp)"
proof -
  note range = cont_byte [OF st b ns]
  then consider "b < 0x90" | "0x90 \<le> b" "b < 0xA0" | "0xA0 \<le> b" by linarith
  moreover have "st = 2 \<or> st = 3 \<or> st = 4 \<or> st = 5 \<or> st = 6 \<or> st = 7 \<or> st = 8"
    using st by (auto simp: dfa_states_def)
  moreover define r where "r = b mod 64"
  moreover have "r < 64" "0x90 \<le> b \<Longrightarrow> 16 \<le> r" "0xA0 \<le> b \<Longrightarrow> 32 \<le> r"
    using range byte_mods(4) [of b] by (simp_all add: r_def)
  ultimately show ?thesis
    using range cp ns unfolding r_def [symmetric]
    by cases (elim disjE; clarsimp simp: byte_type_def next_state_simps cp_ok_def pending_def)+
qed

lemma cp_bound: "st \<in> set dfa_states \<Longrightarrow> st \<noteq> 0 \<Longrightarrow> cp_ok st cp \<Longrightarrow> cp < 2 ^ 18"
  by (auto simp: dfa_states_def cp_ok_def pending_def)

lemma byte_less_256: "byte c < (256 :: nat)"
  using nat_of_char_less_256 by simp

abbreviation content :: "dump_state \<Rightarrow> string" where
  "content d \<equiv> out d @ string_buffer d"

lemma on_accept_fields [simp]:
  "content (on_accept ea c d) = content d @ escape_codepoint ea (codepoint d) c"
  "utf8_state (on_accept ea c d) = utf8_state d" "codepoint (on_accept ea c d) = codepoint d"
  by (simp_all add: on_accept_def flush_buffer_def Let_def)

lemma on_incomplete_fields [simp]:
  "content (on_incomplete False c d) = content d @ [c]"
  "utf8_state (on_incomplete ea c d) = utf8_state d" "codepoint (on_incomplete ea c d) = codepoint d"
  by (simp_all add: on_incomplete_def Let_def)

lemma decode_next_state:
  "utf8_state (decode_next c d) = next_state (utf8_state d) (byte_type (byte c))"
  "codepoint (decode_next c d) =
     (if utf8_state d = 0 then drop_bit (byte_type (byte c)) 0xFF AND byte c
      else (byte c AND 0x3F) OR take_bit 32 (push_bit 6 (codepoint d)))"
  by (simp_all add: decode_next_def decode_eq case_prod_unfold Let_def)

lemma escape_codepoint_copy: "0x80 \<le> cp \<Longrightarrow> escape_codepoint False cp c = [c]"
  by (simp add: escape_codepoint_def)

text \<open>A byte that the decoder accepts leaves a good state and adds its own escape sequence.\<close>

definition dump_ok :: "dump_state \<Rightarrow> bool" where
  "dump_ok d \<longleftrightarrow> utf8_state d \<in> set dfa_states \<and> cp_ok (utf8_state d) (codepoint d)"

lemma decode_next_ok:
  assumes ok: "dump_ok d" and ns: "utf8_state (decode_next c d) \<noteq> 1"
  shows "dump_ok (decode_next c d)" and
    "esc_byte c = (if utf8_state (decode_next c d) = 0 then escape_codepoint False (codepoint (decode_next c d)) c else [c])"
proof -
  let ?st = "utf8_state d" and ?b = "byte c" and ?ns = "next_state (utf8_state d) (byte_type (byte c))"
  have st: "?st \<in> set dfa_states" and cp: "cp_ok ?st (codepoint d)" using ok by (simp_all add: dump_ok_def)
  have b: "?b < 256" by (rule byte_less_256)
  have ns': "?ns \<noteq> 1" using ns by (simp add: decode_next_state)
  then have dfa: "?ns \<in> set dfa_states" using dfa_step [OF st b] by (simp split: option.splits)
  show "dump_ok (decode_next c d)"
  proof (cases "?st = 0")
    case True
    then show ?thesis
      using lead_cp [OF b] ns' dfa
      by (auto simp: dump_ok_def decode_next_state cp_ok_def split: if_splits)
  next
    case False
    then show ?thesis
      using cont_cp [OF st False b cp ns'] dfa append_bits [OF cp_bound [OF st False cp]]
      by (auto simp: dump_ok_def decode_next_state cp_ok_def split: if_splits)
  qed
  show "esc_byte c = (if utf8_state (decode_next c d) = 0 then escape_codepoint False (codepoint (decode_next c d)) c else [c])"
  proof (cases "?st = 0")
    case True
    then show ?thesis
      using lead_cp [OF b] ns' by (auto simp: esc_byte_def decode_next_state split: if_splits)
  next
    case False
    then show ?thesis
      using cont_cp [OF st False b cp ns'] cont_byte [OF st False b ns'] append_bits [OF cp_bound [OF st False cp]]
      by (auto simp: esc_byte_def decode_next_state escape_codepoint_copy split: if_splits)
  qed
qed

lemma dump_strict_loop:
  "dump_ok d \<Longrightarrow>
   case utf8_scan (pending (utf8_state d)) s of
     None \<Rightarrow> \<exists>m. dump_escaped_loop eh_strict False i s d = Inl (type_error_create 316 m)
   | Some rs \<Rightarrow> \<exists>d'. dump_escaped_loop eh_strict False i s d = Inr d' \<and> dump_ok d' \<and>
       pending (utf8_state d') = rs \<and> content d' = content d @ escape_string s"
proof (induction s arbitrary: i d)
  case Nil
  then show ?case by (simp add: escape_string_def)
next
  case (Cons c s)
  let ?d = "decode_next c d"
  let ?d' = "if utf8_state ?d = 0 then on_accept False c ?d else on_incomplete False c ?d"
  have step: "case expect (pending (utf8_state d)) (byte c) of
      None \<Rightarrow> utf8_state ?d = 1 | Some rs \<Rightarrow> utf8_state ?d \<noteq> 1 \<and> pending (utf8_state ?d) = rs"
    using dfa_step [of "utf8_state d" "byte c"] Cons.prems byte_less_256 [of c]
    by (auto simp: decode_next_state dump_ok_def dfa_states_def split: option.splits)
  show ?case
  proof (cases "utf8_state ?d = 1")
    case True
    with step show ?thesis by (auto simp: UTF8_ACCEPT_def UTF8_REJECT_def split: option.splits)
  next
    case False
    note ok = decode_next_ok [OF Cons.prems False]
    define d1 where "d1 = ?d'"
    have ok1: "dump_ok d1" using ok by (auto simp: dump_ok_def d1_def)
    have content: "content d1 = content d @ esc_byte c" using ok(2) by (simp add: d1_def)
    have loop: "dump_escaped_loop eh_strict False i (c # s) d = dump_escaped_loop eh_strict False (Suc i) s d1"
      using False by (simp add: UTF8_ACCEPT_def UTF8_REJECT_def d1_def)
    have scan: "utf8_scan (pending (utf8_state d)) (c # s) = utf8_scan (pending (utf8_state d1)) s"
      using step False by (auto simp: d1_def split: option.splits)
    have esc: "escape_string (c # s) = esc_byte c @ escape_string s" by (simp add: escape_string_def)
    show ?thesis
      unfolding loop scan esc
      using Cons.IH [OF ok1, of "Suc i"] content by (auto split: option.splits)
  qed
qed

lemma dump_escaped_cases:
  "if utf8_ok s then dump_escaped eh_strict False s = Inr (escape_string s)
   else \<exists>m. dump_escaped eh_strict False s = Inl (type_error_create 316 m)"
proof -
  have ok: "dump_ok new_dump_state" and st: "pending (utf8_state new_dump_state) = []"
    and content: "content new_dump_state = []"
    by (simp_all add: dump_ok_def new_dump_state_def dfa_states_def cp_ok_def pending_def UTF8_ACCEPT_def)
  have empty: "utf8_state d = UTF8_ACCEPT \<longleftrightarrow> pending (utf8_state d) = []" if "dump_ok d" for d
    using that pending_empty by (auto simp: dump_ok_def UTF8_ACCEPT_def)
  show ?thesis
    using dump_strict_loop [OF ok, where s = s and i = 0] empty
    by (auto simp: utf8_ok_def st content dump_escaped_def split: option.splits)
qed

section \<open>Strings that the scanner accepts\<close>

lemma token_buffer_lex [simp]:
  "token_buffer (lex_add c s) = token_buffer s @ [c]"
  "token_buffer (s\<lparr>error_message := m\<rparr>) = token_buffer s"
  by (simp_all add: lex_add_def)

lemma token_buffer_add_all [simp]: "token_buffer (add_all bs s) = token_buffer s @ bs"
proof -
  have "token_buffer (foldl (\<lambda>s c. lex_add c s) s bs) = token_buffer s @ bs"
    by (induction bs arbitrary: s) simp_all
  then show ?thesis by (simp add: add_all_def)
qed

lemma token_buffer_codepoint_loop [simp]:
  "token_buffer (snd (get_codepoint_loop fs cp s)) = token_buffer s"
  by (induction fs arbitrary: cp s) (simp_all add: Let_def lex_get_state split: option.split)

lemma hex_digit_less: "hex_digit c = Some d \<Longrightarrow> d < 16"
  by (auto simp: hex_digit_def less_eq_char_def split: if_splits)

lemma get_codepoint_range:
  assumes "get_codepoint s = (cp, s')" "cp \<noteq> - 1"
  shows "0 \<le> cp" "cp \<le> 0xFFFF" "token_buffer s' = token_buffer s"
proof -
  have loop: "get_codepoint_loop fs a s = (cp, s') \<Longrightarrow> cp \<noteq> - 1 \<Longrightarrow>
      a \<le> cp \<and> cp \<le> a + (\<Sum>f \<leftarrow> fs. 15 * 2 ^ f)" for fs a s
  proof (induction fs arbitrary: a s)
    case (Cons f fs)
    from Cons.prems obtain d where d: "Option.bind (current (lex_get s)) hex_digit = Some d"
      and rec: "get_codepoint_loop fs (a + int d * 2 ^ f) (lex_get s) = (cp, s')"
      by (auto simp: Let_def split: option.splits)
    have "int d * 2 ^ f \<le> 15 * 2 ^ f"
      using d hex_digit_less by (intro mult_right_mono) (fastforce simp: bind_eq_Some_conv)+
    moreover have "0 \<le> int d * 2 ^ f" by simp
    ultimately show ?case using Cons.IH [OF rec Cons.prems(2)] by (simp only: list.map sum_list.Cons) linarith
  qed simp
  show "0 \<le> cp" "cp \<le> 0xFFFF" using loop [of "[12, 8, 4, 0]" 0 s] assms by (simp_all add: get_codepoint_def)
  show "token_buffer s' = token_buffer s"
    using assms token_buffer_codepoint_loop [of "[12, 8, 4, 0]" 0 s] by (simp add: get_codepoint_def)
qed

lemma utf8_ok_codepoint_bytes:
  assumes "cp \<le> 0x10FFFF" "\<not> (0xD800 \<le> cp \<and> cp \<le> 0xDFFF)"
  shows "utf8_ok (codepoint_bytes cp)"
proof -
  consider "cp < 0x80" | "0x80 \<le> cp" "cp \<le> 0x7FF" | "0x800 \<le> cp" "cp \<le> 0xFFFF" | "0x10000 \<le> cp" by linarith
  then show ?thesis
  proof cases
    case 1
    then show ?thesis by (simp add: codepoint_bytes_def utf8_ok_def)
  next
    case 2
    then have "2 \<le> cp div 64" "cp div 64 < 32" by auto
    with 2 show ?thesis by (simp add: codepoint_bytes_def utf8_ok_def utf8_ranges_def)
  next
    case 3
    define a where "a = cp div 4096"
    define b where "b = cp div 64 mod 64"
    have "cp div 64 = 64 * a + b" using div_mult_mod_eq [of "cp div 64" 64] by (simp add: a_def b_def div_mult2_eq [of cp 64 64, simplified])
    then have cp: "cp = 4096 * a + 64 * b + cp mod 64" using div_mult_mod_eq [of cp 64] by linarith
    have r: "a < 16" "b < 64" "cp mod 64 < 64" using 3 by (simp_all add: a_def b_def)
    have "a = 0 \<Longrightarrow> 32 \<le> b" using cp 3 r by linarith
    moreover have "a \<le> 12 \<or> a = 13 \<and> b < 32 \<or> a = 14 \<or> a = 15" using cp assms(2) r by linarith
    moreover have "cp mod 64 \<le> 63" using r by simp
    ultimately have "utf8_ok [char_of (0xE0 + a), char_of (0x80 + b), char_of (0x80 + cp mod 64)]"
      using r by (auto simp: utf8_ok_def utf8_ranges_def)
    with 3 show ?thesis by (simp add: codepoint_bytes_def a_def b_def)
  next
    case 4
    define a where "a = cp div 262144"
    define b where "b = cp div 4096 mod 64"
    have "cp div 4096 = 64 * a + b" using div_mult_mod_eq [of "cp div 4096" 64] by (simp add: a_def b_def div_mult2_eq [of cp 4096 64, simplified])
    then have cp: "cp = 262144 * a + 4096 * b + cp mod 4096" using div_mult_mod_eq [of cp 4096] by linarith
    have r: "a < 5" "b < 64" "cp mod 4096 < 4096" using assms(1) by (simp_all add: a_def b_def)
    have "a = 0 \<Longrightarrow> 16 \<le> b" using cp 4 r by linarith
    moreover have "a \<le> 3 \<or> a = 4 \<and> b < 16" using cp assms(1) r by linarith
    moreover have "cp mod 64 \<le> 63" "cp div 64 mod 64 \<le> 63" by (simp_all flip: less_Suc_eq_le)
    ultimately have "utf8_ok [char_of (0xF0 + a), char_of (0x80 + b), char_of (0x80 + cp div 64 mod 64),
        char_of (0x80 + cp mod 64)]"
      using r by (auto simp: utf8_ok_def utf8_ranges_def)
    with 4 show ?thesis by (simp add: codepoint_bytes_def a_def b_def)
  qed
qed

lemma next_byte_loop_utf8:
  "next_byte_loop rs s = (True, s') \<Longrightarrow> \<exists>bs. token_buffer s' = token_buffer s @ bs \<and> utf8_scan rs bs = Some []"
proof (induction rs s rule: next_byte_loop.induct)
  case (1 s)
  then show ?case by auto
next
  case (2 lo hi rs s)
  from "2.prems" obtain c where c: "current (lex_get s) = Some c" "lo \<le> byte c" "byte c \<le> hi"
    and rec: "next_byte_loop rs (lex_add c (lex_get s)) = (True, s')"
    by (auto simp: Let_def split: option.splits if_splits)
  from "2.IH" [OF refl c(1)] c rec obtain bs
    where "token_buffer s' = token_buffer s @ c # bs" "utf8_scan rs bs = Some []"
    by (auto simp: lex_get_state)
  with c show ?case by (intro exI [of _ "c # bs"]) simp
qed

lemma simple_escape_ascii: "simple_escape c = Some d \<Longrightarrow> byte d < 0x80"
  by (auto simp: simple_escape_def split: if_splits)

lemma scan_unicode_utf8:
  assumes "scan_unicode s = (None, s')"
  shows "\<exists>bs. token_buffer s' = token_buffer s @ bs \<and> utf8_ok bs"
proof -
  obtain cp1 s1 where 1: "get_codepoint s = (cp1, s1)" by fastforce
  have ne: "cp1 \<noteq> - 1" using assms by (auto simp: scan_unicode_def 1 lex_error_def)
  note r1 = get_codepoint_range [OF 1 ne]
  show ?thesis
  proof (cases "0xD800 \<le> cp1 \<and> cp1 \<le> 0xDBFF")
    case True
    obtain cp2 s2 where 2: "get_codepoint (lex_get (lex_get s1)) = (cp2, s2)" by fastforce
    from assms True ne have c: "cp2 \<noteq> - 1" "0xDC00 \<le> cp2 \<and> cp2 \<le> 0xDFFF"
      "s' = add_all (codepoint_bytes (nat (cp1 * 2 ^ 10 + cp2 - 0x35FDC00))) s2"
      by (auto simp: scan_unicode_def 1 2 lex_error_def Let_def split: if_splits)
    have "utf8_ok (codepoint_bytes (nat (cp1 * 2 ^ 10 + cp2 - 0x35FDC00)))"
      using True c(2) by (intro utf8_ok_codepoint_bytes) auto
    moreover have "token_buffer s2 = token_buffer s"
      using get_codepoint_range(3) [OF 2 c(1)] r1(3) by (simp add: lex_get_state)
    ultimately show ?thesis using c(3) by auto
  next
    case False
    with assms ne have "\<not> (0xDC00 \<le> cp1 \<and> cp1 \<le> 0xDFFF)" "s' = add_all (codepoint_bytes (nat cp1)) s1"
      by (auto simp: scan_unicode_def 1 lex_error_def split: if_splits)
    moreover from this False r1 have "utf8_ok (codepoint_bytes (nat cp1))"
      by (intro utf8_ok_codepoint_bytes) auto
    ultimately show ?thesis using r1(3) by auto
  qed
qed

lemma scan_string_step_utf8:
  assumes "scan_string_step s = (None, s')"
  shows "\<exists>bs. token_buffer s' = token_buffer s @ bs \<and> utf8_ok bs"
proof -
  from assms obtain c where c: "current s = Some c" and q: "c \<noteq> dq"
    by (auto simp: scan_string_step_def lex_error_def split: option.splits if_splits)
  consider "c = bsl" | "c \<noteq> bsl" "0x1F < byte c" "byte c \<le> 0x7F"
    | rs where "c \<noteq> bsl" "\<not> byte c \<le> 0x7F" "utf8_ranges (byte c) = Some rs" "next_byte_in_range rs s = (True, s')"
    using assms c q
    by (auto simp: scan_string_step_def lex_error_def Let_def not_le split: option.splits if_splits prod.splits)
  then show ?thesis
  proof cases
    case 1
    with assms c have esc: "scan_escape s = (None, s')" by (simp add: scan_string_step_def)
    show ?thesis
    proof (cases "Option.bind (current (lex_get s)) simple_escape")
      case None
      with esc have "scan_unicode (lex_get s) = (None, s')"
        by (auto simp: scan_escape_def Let_def lex_error_def split: if_splits)
      then show ?thesis using scan_unicode_utf8 by (fastforce simp: lex_get_state)
    next
      case (Some d)
      with esc have "s' = lex_add d (lex_get s)" by (auto simp: scan_escape_def Let_def)
      moreover have "byte d < 0x80" using Some simple_escape_ascii by (auto simp: bind_eq_Some_conv)
      ultimately show ?thesis by (auto simp: lex_get_state utf8_ok_ascii)
    qed
  next
    case 2
    with assms c q have "s' = add_current s" by (simp add: scan_string_step_def)
    with 2 c show ?thesis by (auto simp: add_current_def utf8_ok_ascii)
  next
    case (3 rs)
    then obtain bs where "token_buffer s' = token_buffer (add_current s) @ bs" "utf8_scan rs bs = Some []"
      using next_byte_loop_utf8 [of rs "add_current s" s'] by (auto simp: next_byte_in_range_def)
    with 3 c show ?thesis
      by (intro exI [of _ "c # bs"]) (simp add: add_current_def utf8_ok_def)
  qed
qed

lemma scan_string_loop_utf8:
  "utf8_ok (token_buffer s) \<Longrightarrow> scan_string_loop s = (value_string, s') \<Longrightarrow> utf8_ok (token_buffer s')"
proof (induction s rule: scan_string_loop.induct)
  case (1 s)
  obtain t s1 where st: "scan_string_step (lex_get s) = (t, s1)" by fastforce
  show ?case
  proof (cases t)
    case None
    with st obtain bs where bs: "token_buffer s1 = token_buffer s @ bs" "utf8_ok bs"
      using scan_string_step_utf8 [of "lex_get s"] by (auto simp: lex_get_state)
    from st None "1.prems"(2) have "scan_string_loop s1 = (value_string, s')"
      by (simp add: scan_string_loop.simps [of s])
    with "1.IH" [OF st [symmetric] None] bs "1.prems"(1) show ?thesis by (simp add: utf8_ok_append)
  next
    case (Some x)
    with st "1.prems"(2) have "scan_string_step (lex_get s) = (Some value_string, s')"
      by (simp add: scan_string_loop.simps [of s])
    then have "s' = lex_get s"
      by (auto simp: scan_string_step_def scan_escape_def scan_unicode_def lex_error_def Let_def case_prod_unfold
          split: option.splits if_splits)
    with "1.prems"(1) show ?thesis by (simp add: lex_get_state)
  qed
qed

end
