(* ===== verification/Json_Grisu.thy ===== *)
theory Json_Grisu
  imports Json_Dtoa
begin

text \<open>
  What the digit generation of \<open>Json_Dtoa\<close> computes: the machine words of the algorithm read as natural
  numbers, the two loops of \<open>grisu2_digit_gen\<close> by induction on the digits, and the boundaries of a
  double by the bits of its encoding.
\<close>

unbundle bit_operations_syntax

lemma unat_low: "unat (take_bit n x :: 64 word) = unat x mod 2 ^ n"
  using unsigned_take_bit_eq [of n x, where 'a = nat] take_bit_eq_mod [of n "unat x"] by (simp only:)

lemma unat_low32: "unat (x AND 0xFFFFFFFF :: 64 word) = unat x mod 2 ^ 32"
proof -
  have "(0xFFFFFFFF :: 64 word) = mask 32" by (simp add: mask_eq_exp_minus_1)
  then have "x AND 0xFFFFFFFF = take_bit 32 x" by (simp only: take_bit_eq_mask)
  then show ?thesis using unat_low [of 32 x] by (simp only:)
qed

lemma unat_drop: "unat (drop_bit n x :: 64 word) = unat x div 2 ^ n"
  using unat_drop_bit_eq [of n x] drop_bit_eq_div [of n "unat x"] by (simp only:)

lemma unat_push: "unat x * 2 ^ n < 2 ^ 64 \<Longrightarrow> unat (push_bit n x :: 64 word) = unat x * 2 ^ n"
proof -
  assume "unat x * 2 ^ n < 2 ^ 64"
  moreover have "unat (push_bit n x) = (unat x * 2 ^ n) mod 2 ^ 64"
    using unsigned_push_bit_eq [of n x, where 'a = nat] take_bit_eq_mod [of 64 "push_bit n (unat x)"]
      push_bit_eq_mult [of n "unat x"] by (simp only: len_bit0 len_num1 mult_1_right mult_2_right) simp
  ultimately show ?thesis by simp
qed

lemma unat_mask: "n < 64 \<Longrightarrow> unat (x AND (push_bit n 1 - 1) :: 64 word) = unat x mod 2 ^ n"
proof -
  have "(push_bit n 1 - 1 :: 64 word) = mask n" by (simp add: mask_eq_exp_minus_1 push_bit_eq_mult)
  then have "x AND (push_bit n 1 - 1) = take_bit n x" by (simp only: take_bit_eq_mask)
  then show ?thesis using unat_low [of n x] by (simp only:)
qed

lemma unat_add64: "unat x + unat y < 2 ^ 64 \<Longrightarrow> unat (x + y :: 64 word) = unat x + unat y"
  by (simp add: unat_word_ariths)

lemma unat_add64_4:
  "unat a + unat b + unat c + unat d < 2 ^ 64 \<Longrightarrow>
   unat (a + b + c + d :: 64 word) = unat a + unat b + unat c + unat d"
  by (simp add: unat_add64)

lemma unat_mult64: "unat x * unat y < 2 ^ 64 \<Longrightarrow> unat (x * y :: 64 word) = unat x * unat y"
  by (simp add: unat_word_ariths)

lemma unat_sub64: "unat y \<le> unat x \<Longrightarrow> unat (x - y :: 64 word) = unat x - unat y"
  by (simp add: unat_sub word_le_nat_alt)

lemma unat_less64: "unat (x :: 64 word) < 2 ^ 64"
  using unsigned_less [of x, where 'a = nat] by simp

section \<open>Multiplication\<close>

lemma mul_split:
  fixes B :: nat
  assumes "0 < B"
  shows "(p3 * (B * B) + (p1 + p2) * B + p0 + c * B) div (B * B) =
    p3 + p1 div B + p2 div B + (p0 div B + p1 mod B + p2 mod B + c) div B"
proof -
  have "p3 * (B * B) + (p1 + p2) * B + p0 + c * B = (p3 * B + p1 + p2 + c) * B + p0"
    by (simp add: algebra_simps)
  then have "(p3 * (B * B) + (p1 + p2) * B + p0 + c * B) div (B * B) = ((p3 * B + p1 + p2 + c) * B + p0) div B div B"
    by (simp only: div_mult2_eq)
  also have "((p3 * B + p1 + p2 + c) * B + p0) div B = p3 * B + p1 + p2 + c + p0 div B"
    using assms by (subst add.commute) (simp only: div_mult_self1 add.commute)
  also have "p3 * B + p1 + p2 + c + p0 div B =
      (p0 div B + p1 mod B + p2 mod B + c) + (p3 + p1 div B + p2 div B) * B"
    by (simp add: algebra_simps)
  also have "\<dots> div B = p3 + p1 div B + p2 div B + (p0 div B + p1 mod B + p2 mod B + c) div B"
    using assms by simp
  finally show ?thesis .
qed

lemma half_product: "x < 2 ^ 32 \<Longrightarrow> y < 2 ^ 32 \<Longrightarrow> x * y \<le> (2 ^ 32 - 1) * (2 ^ 32 - (1 :: nat))"
  by (intro mult_le_mono) simp_all

lemma carry_bound: "a < 2 ^ 32 \<Longrightarrow> b < 2 ^ 32 \<Longrightarrow> c < 2 ^ 32 \<Longrightarrow> a + b + c + 2 ^ 31 < (2 :: nat) ^ 64"
  by simp

text \<open>The product rounds half up.\<close>

lemma diyfp_mul_f:
  "unat (fp_f (diyfp_mul x y)) = (unat (fp_f x) * unat (fp_f y) + 2 ^ 63) div 2 ^ 64"
proof -
  define U V where "U = unat (fp_f x)" and "V = unat (fp_f y)"
  define ul uh vl vh where "ul = U mod 2 ^ 32" and "uh = U div 2 ^ 32" and "vl = V mod 2 ^ 32" and "vh = V div 2 ^ 32"
  have UV: "U < 2 ^ 64" "V < 2 ^ 64" unfolding U_def V_def by (rule unat_less64)+
  then have b: "ul < 2 ^ 32" "uh < 2 ^ 32" "vl < 2 ^ 32" "vh < 2 ^ 32"
    by (simp_all add: ul_def uh_def vl_def vh_def less_mult_imp_div_less)
  define p0 p1 p2 p3 where "p0 = ul * vl" and "p1 = ul * vh" and "p2 = uh * vl" and "p3 = uh * vh"
  have p: "p0 \<le> (2 ^ 32 - 1) * (2 ^ 32 - 1)" "p1 \<le> (2 ^ 32 - 1) * (2 ^ 32 - 1)"
    "p2 \<le> (2 ^ 32 - 1) * (2 ^ 32 - 1)" "p3 \<le> (2 ^ 32 - 1) * (2 ^ 32 - 1)"
    unfolding p0_def p1_def p2_def p3_def by (rule half_product; rule b)+
  have w: "unat (fp_f x AND 0xFFFFFFFF) = ul" "unat (drop_bit 32 (fp_f x)) = uh"
    "unat (fp_f y AND 0xFFFFFFFF) = vl" "unat (drop_bit 32 (fp_f y)) = vh"
    by (simp_all only: unat_low32 unat_drop ul_def uh_def vl_def vh_def U_def V_def)
  have m: "unat ((fp_f x AND 0xFFFFFFFF) * (fp_f y AND 0xFFFFFFFF)) = p0"
    "unat ((fp_f x AND 0xFFFFFFFF) * drop_bit 32 (fp_f y)) = p1"
    "unat (drop_bit 32 (fp_f x) * (fp_f y AND 0xFFFFFFFF)) = p2"
    "unat (drop_bit 32 (fp_f x) * drop_bit 32 (fp_f y)) = p3"
    using p by (subst unat_mult64; simp only: w; simp add: p0_def p1_def p2_def p3_def)+
  define P0 P1 P2 P3 where "P0 = (fp_f x AND 0xFFFFFFFF) * (fp_f y AND 0xFFFFFFFF)"
    and "P1 = (fp_f x AND 0xFFFFFFFF) * drop_bit 32 (fp_f y)"
    and "P2 = drop_bit 32 (fp_f x) * (fp_f y AND 0xFFFFFFFF)"
    and "P3 = drop_bit 32 (fp_f x) * drop_bit 32 (fp_f y)"
  note m = m [folded P0_def P1_def P2_def P3_def]
  define Q where "Q = drop_bit 32 P0 + (P1 AND 0xFFFFFFFF) + (P2 AND 0xFFFFFFFF) + push_bit 31 1"
  have parts: "unat (drop_bit 32 P0) = p0 div 2 ^ 32" "unat (P1 AND 0xFFFFFFFF) = p1 mod 2 ^ 32"
    "unat (P2 AND 0xFFFFFFFF) = p2 mod 2 ^ 32" "unat (drop_bit 32 P1) = p1 div 2 ^ 32"
    "unat (drop_bit 32 P2) = p2 div 2 ^ 32"
    by (simp_all only: unat_low32 unat_drop m)
  have one: "unat (push_bit 31 1 :: 64 word) = 2 ^ 31" by simp
  have small: "p0 div 2 ^ 32 < 2 ^ 32" "p1 div 2 ^ 32 < 2 ^ 32" "p2 div 2 ^ 32 < 2 ^ 32"
    "p1 mod 2 ^ 32 < 2 ^ 32" "p2 mod 2 ^ 32 < 2 ^ 32"
    using p by (simp_all add: less_mult_imp_div_less)
  have Q: "unat Q = p0 div 2 ^ 32 + p1 mod 2 ^ 32 + p2 mod 2 ^ 32 + 2 ^ 31"
    unfolding Q_def
  proof (subst unat_add64_4)
    show "unat (drop_bit 32 P0) + unat (P1 AND 0xFFFFFFFF) + unat (P2 AND 0xFFFFFFFF) + unat (push_bit 31 1 :: 64 word) < 2 ^ 64"
      unfolding parts one by (rule carry_bound; rule small)
  qed (simp only: parts one)
  define h where "h = p3 + p2 div 2 ^ 32 + p1 div 2 ^ 32 + (p0 div 2 ^ 32 + p1 mod 2 ^ 32 + p2 mod 2 ^ 32 + 2 ^ 31) div 2 ^ 32"
  have eq: "h = (U * V + 2 ^ 63) div 2 ^ 64"
  proof -
    have "U = uh * 2 ^ 32 + ul" "V = vh * 2 ^ 32 + vl" by (simp_all add: uh_def ul_def vh_def vl_def)
    then have "U * V + 2 ^ 63 = p3 * (2 ^ 32 * 2 ^ 32) + (p1 + p2) * 2 ^ 32 + p0 + 2 ^ 31 * 2 ^ 32"
      by (simp add: p0_def p1_def p2_def p3_def algebra_simps)
    then show ?thesis using mul_split [of "2 ^ 32" p3 p1 p2 p0 "2 ^ 31"] by (simp add: h_def)
  qed
  have "U * V + 2 ^ 63 < 2 ^ 64 * 2 ^ 64"
  proof -
    have "U * V \<le> (2 ^ 64 - 1) * (2 ^ 64 - 1)" using UV by (intro mult_le_mono) simp_all
    then show ?thesis by simp
  qed
  then have hb: "h < 2 ^ 64" unfolding eq by (simp add: less_mult_imp_div_less)
  have f: "fp_f (diyfp_mul x y) = P3 + drop_bit 32 P2 + drop_bit 32 P1 + drop_bit 32 Q"
    by (simp only: diyfp_mul_def Let_def P0_def P1_def P2_def P3_def Q_def diyfp.simps)
  have "unat (fp_f (diyfp_mul x y)) = h"
    unfolding f
  proof (subst unat_add64_4)
    show "unat P3 + unat (drop_bit 32 P2) + unat (drop_bit 32 P1) + unat (drop_bit 32 Q) < 2 ^ 64"
      using hb by (simp only: parts m unat_drop Q h_def)
  qed (simp only: parts m unat_drop Q h_def)
  then show ?thesis by (simp only: eq U_def V_def)
qed

section \<open>Rounding the last digit\<close>

lemma decrement_digit: "0 < d \<Longrightarrow> d \<le> 9 \<Longrightarrow> decrement_last (b @ [digit_char d]) = b @ [digit_char (d - 1)]"
proof -
  assume d: "0 < d" "d \<le> 9"
  have snoc: "(case b @ [x] of [] \<Rightarrow> u | _ \<Rightarrow> v) = v" for x :: char and u v :: string by (cases b) simp_all
  have "(of_char (digit_char d) :: nat) - 1 = 48 + (d - 1)" using d by (simp add: of_char_digit_char)
  then show ?thesis by (simp only: decrement_last_def snoc butlast_snoc last_snoc digit_char_def [of "d - 1"])
qed

text \<open>
  The digit at the end is lowered by \<open>j\<close> while the remainder grows by \<open>j\<close> steps of \<open>ten_k\<close>, and stays
  a positive digit, as the distance to the next candidate above is more than \<open>delta\<close>.
\<close>

lemma grisu2_round_ends:
  assumes "unat rest \<le> unat delta" "0 < unat ten_k" "unat delta < unat rest + d * unat ten_k" "d \<le> 9"
  shows "\<exists>j. j < d \<and> unat rest + j * unat ten_k \<le> unat delta \<and>
    grisu2_round (b @ [digit_char d]) distance delta rest ten_k = Some (b @ [digit_char (d - j)])"
  using assms
proof (induction d arbitrary: rest)
  case (Suc d)
  show ?case
  proof (cases "rest < distance \<and> ten_k \<le> delta - rest \<and>
      (rest + ten_k < distance \<or> rest + ten_k - distance < distance - rest)")
    case False
    then have "grisu2_round (b @ [digit_char (Suc d)]) distance delta rest ten_k = Some (b @ [digit_char (Suc d)])"
      by (subst grisu2_round.simps) (simp only: if_False)
    with Suc.prems show ?thesis by (intro exI [of _ 0]) simp
  next
    case True
    have "unat (delta - rest) = unat delta - unat rest" using Suc.prems(1) by (rule unat_sub64)
    with True have le: "unat ten_k \<le> unat delta - unat rest" by (simp add: word_le_nat_alt)
    then have sum: "unat rest + unat ten_k \<le> unat delta" using Suc.prems(1) by simp
    have add: "unat (rest + ten_k) = unat rest + unat ten_k"
      using sum unat_less64 [of delta] by (intro unat_add64) (rule le_less_trans)
    have "grisu2_round (b @ [digit_char (Suc d)]) distance delta rest ten_k =
        grisu2_round (b @ [digit_char d]) distance delta (rest + ten_k) ten_k"
      using True decrement_digit [of "Suc d" b, OF zero_less_Suc Suc.prems(4), unfolded diff_Suc_1] by (subst grisu2_round.simps) (simp only: if_True simp_thms)
    moreover obtain j where "j < d" "unat (rest + ten_k) + j * unat ten_k \<le> unat delta"
        "grisu2_round (b @ [digit_char d]) distance delta (rest + ten_k) ten_k = Some (b @ [digit_char (d - j)])"
      using Suc.IH [of "rest + ten_k"] Suc.prems sum by (auto simp: add)
    ultimately show ?thesis by (intro exI [of _ "Suc j"]) (simp add: add)
  qed
qed simp

section \<open>The integral part\<close>

text \<open>A string of digits, the first of which is not zero.\<close>

definition lead_digits :: "string \<Rightarrow> bool" where
  "lead_digits b \<longleftrightarrow> b \<noteq> [] \<and> hd b \<noteq> CHR ''0'' \<and> list_all is_digit b"

text \<open>The digits stand for a number between \<open>M - delta\<close> and \<open>M\<close>, in units of \<open>u\<close>.\<close>

definition near_below :: "nat \<Rightarrow> nat \<Rightarrow> nat \<Rightarrow> string \<Rightarrow> bool" where
  "near_below M delta u b \<longleftrightarrow> digits_val b * u \<le> M \<and> M \<le> digits_val b * u + delta"

lemma digit_char_zero_iff: "d \<le> 9 \<Longrightarrow> digit_char d = CHR ''0'' \<longleftrightarrow> d = 0"
  using digit_val_digit_char [of d] digit_val_digit_char [of 0] by auto

lemma lead_snoc:
  assumes "lead_digits b \<or> b = [] \<and> 0 < d" "d \<le> 9"
  shows "lead_digits (b @ [digit_char d])"
  using assms digit_char_zero_iff [of d] by (auto simp: lead_digits_def is_digit_digit_char)

text \<open>The common end of both loops.\<close>

lemma round_step:
  assumes "unat rest \<le> unat delta" "0 < unat ten_k" "unat delta < unat rest + d * unat ten_k" "d \<le> 9"
    and "lead_digits b \<or> b = [] \<and> 0 < d"
  obtains buf where "grisu2_round (b @ [digit_char d]) distance delta rest ten_k = Some buf"
    "lead_digits buf" "length buf = Suc (length b)" "last buf \<noteq> CHR ''0''"
    "near_below ((10 * digits_val b + d) * unat ten_k + unat rest) (unat delta) (unat ten_k) buf"
proof -
  obtain j where j: "j < d" "unat rest + j * unat ten_k \<le> unat delta"
    "grisu2_round (b @ [digit_char d]) distance delta rest ten_k = Some (b @ [digit_char (d - j)])"
    using grisu2_round_ends [OF assms(1-4)] by blast
  have dj: "d - j \<le> 9" "0 < d - j" using j(1) assms(4) by simp_all
  have v: "digits_val (b @ [digit_char (d - j)]) = 10 * digits_val b + (d - j)"
    using dj by (simp add: digits_val_snoc digit_val_digit_char)
  have "(10 * digits_val b + d) * unat ten_k = (10 * digits_val b + (d - j)) * unat ten_k + j * unat ten_k"
  proof -
    have "10 * digits_val b + d = 10 * digits_val b + (d - j) + j" using j(1) by simp
    then show ?thesis by (metis add_mult_distrib)
  qed
  then have "near_below ((10 * digits_val b + d) * unat ten_k + unat rest) (unat delta) (unat ten_k) (b @ [digit_char (d - j)])"
    using j(2) by (simp add: near_below_def v)
  then show ?thesis
    using j(3) dj assms(5) digit_char_zero_iff [of "d - j"] lead_snoc [of b "d - j"]
    by (intro that [of "b @ [digit_char (d - j)]"]) auto
qed

text \<open>
  The state of the first loop with \<open>n\<close> digits to come: the digits so far and what is left make up
  \<open>M\<close>, and what is left is more than \<open>delta\<close>.
\<close>

definition integral_inv :: "nat \<Rightarrow> nat \<Rightarrow> string \<Rightarrow> 32 word \<Rightarrow> 32 word \<Rightarrow> 64 word \<Rightarrow> nat \<Rightarrow> 64 word \<Rightarrow> bool" where
  "integral_inv M n b p1 pow10 p2 shift delta \<longleftrightarrow>
     M = digits_val b * (10 ^ n * 2 ^ shift) + unat p1 * 2 ^ shift + unat p2 \<and> M < 2 ^ 64 \<and> n \<le> 10 \<and>
     shift \<le> 60 \<and> unat p1 < 10 ^ n \<and> unat p2 < 2 ^ shift \<and> unat delta < unat p1 * 2 ^ shift + unat p2 \<and>
     (0 < n \<longrightarrow> unat pow10 = 10 ^ (n - 1) \<and> 10 ^ (n - 1) * 2 ^ shift < (2 :: nat) ^ 64) \<and>
     (lead_digits b \<or> b = [] \<and> 0 < n \<and> 10 ^ (n - 1) \<le> unat p1)"

lemma unat_ucast32: "unat (ucast (x :: 32 word) :: 64 word) = unat x"
proof -
  have "unat x < 2 ^ 32" using unsigned_less [of x, where 'a = nat] by simp
  then have "unat x < 2 ^ 64" by simp
  moreover have "unat (ucast x :: 64 word) = take_bit 64 (unat x)"
    by (simp add: unsigned_ucast_eq)
  ultimately show ?thesis by (simp only: take_bit_nat_eq_self)
qed

lemma pow10_step: "unat (pow10 :: 32 word) = 10 ^ Suc n \<Longrightarrow> unat (pow10 div 10) = 10 ^ n"
  by (simp add: unat_div)

lemma integral_step:
  assumes inv: "integral_inv M (Suc n) b p1 pow10 p2 shift delta"
  defines "d \<equiv> p1 div pow10" and "r \<equiv> p1 mod pow10"
  defines "rest \<equiv> push_bit shift (ucast r) + p2" and "ten_k \<equiv> (push_bit shift (ucast pow10) :: 64 word)"
  shows "unat d \<le> 9" "unat rest = unat r * 2 ^ shift + unat p2" "unat ten_k = 10 ^ n * 2 ^ shift"
    and "unat p1 * 2 ^ shift + unat p2 = unat d * unat ten_k + unat rest"
    and "lead_digits b \<or> b = [] \<and> 0 < unat d"
    and "M = (10 * digits_val b + unat d) * unat ten_k + unat rest"
    and "\<not> rest \<le> delta \<Longrightarrow> integral_inv M n (b @ [digit_char (unat d)]) r (pow10 div 10) p2 shift delta"
proof -
  note i = inv [unfolded integral_inv_def]
  have pow: "unat pow10 = 10 ^ n" using i by simp
  have d: "unat d = unat p1 div 10 ^ n" and r: "unat r = unat p1 mod 10 ^ n"
    by (simp_all only: d_def r_def unat_div unat_mod pow)
  show d9: "unat d \<le> 9"
    using i by (simp add: d less_mult_imp_div_less less_Suc_eq_le [symmetric, of _ 9])
  have p1: "unat p1 = unat d * 10 ^ n + unat r" by (simp only: d r div_mult_mod_eq)
  have "unat r * 2 ^ shift \<le> unat p1 * 2 ^ shift" by (rule mult_le_mono1) (simp add: p1)
  moreover have left: "unat p1 * 2 ^ shift + unat p2 < 2 ^ 64" using i by linarith
  ultimately have small: "unat r * 2 ^ shift + unat p2 < 2 ^ 64" by linarith
  have push_r: "unat (push_bit shift (ucast r :: 64 word)) = unat r * 2 ^ shift"
    using small by (subst unat_push) (simp_all only: unat_ucast32)
  show rest: "unat rest = unat r * 2 ^ shift + unat p2"
    unfolding rest_def using small by (subst unat_add64) (simp_all only: push_r)
  show ten: "unat ten_k = 10 ^ n * 2 ^ shift"
  proof -
    have "10 ^ n * 2 ^ shift < (2 :: nat) ^ 64" using i by simp
    then show ?thesis unfolding ten_k_def by (subst unat_push) (simp_all only: unat_ucast32 pow)
  qed
  show split: "unat p1 * 2 ^ shift + unat p2 = unat d * unat ten_k + unat rest"
    by (simp add: p1 ten rest algebra_simps)
  show lead: "lead_digits b \<or> b = [] \<and> 0 < unat d" using i by (auto simp: d div_greater_zero_iff)
  have "digits_val b * (10 ^ Suc n * 2 ^ shift) = 10 * digits_val b * unat ten_k" by (simp add: ten)
  then show M: "M = (10 * digits_val b + unat d) * unat ten_k + unat rest"
    using i split by (simp only: add_mult_distrib add.assoc)
  assume gt: "\<not> rest \<le> delta"
  have "unat delta < unat r * 2 ^ shift + unat p2" using gt by (simp add: word_le_nat_alt rest)
  moreover have "M = digits_val (b @ [digit_char (unat d)]) * (10 ^ n * 2 ^ shift) + unat r * 2 ^ shift + unat p2"
    using d9 by (simp add: M ten rest digits_val_snoc digit_val_digit_char)
  moreover have "unat r < 10 ^ n" by (simp add: r)
  moreover have "lead_digits (b @ [digit_char (unat d)])" using lead_snoc [OF lead d9] .
  moreover have "0 < n \<longrightarrow> unat (pow10 div 10) = 10 ^ (n - 1) \<and> 10 ^ (n - 1) * 2 ^ shift < (2 :: nat) ^ 64"
  proof
    assume "0 < n"
    then obtain m where n: "n = Suc m" by (cases n) auto
    have "10 ^ m * 2 ^ shift \<le> 10 ^ n * (2 ^ shift :: nat)" by (simp add: n)
    also have "\<dots> < 2 ^ 64" using i by simp
    finally show "unat (pow10 div 10) = 10 ^ (n - 1) \<and> 10 ^ (n - 1) * 2 ^ shift < (2 :: nat) ^ 64"
      using pow pow10_step [of pow10 m] by (simp add: n)
  qed
  ultimately show "integral_inv M n (b @ [digit_char (unat d)]) r (pow10 div 10) p2 shift delta"
    using i by (simp add: integral_inv_def)
qed

lemma digit_gen_integral_ends:
  assumes "integral_inv M n b p1 pow10 p2 shift delta"
  shows "case digit_gen_integral n b p1 pow10 p2 shift delta distance of
      Inl (r, m) \<Rightarrow> \<exists>buf. r = Some buf \<and> m < n \<and> lead_digits buf \<and> length buf + m = length b + n \<and>
        last buf \<noteq> CHR ''0'' \<and> near_below M (unat delta) (10 ^ m * 2 ^ shift) buf
    | Inr buf \<Rightarrow> lead_digits buf \<and> length buf = length b + n \<and>
        M = digits_val buf * 2 ^ shift + unat p2 \<and> unat delta < unat p2"
  using assms
proof (induction n arbitrary: b p1 pow10)
  case 0
  then show ?case by (auto simp: integral_inv_def)
next
  case (Suc n)
  define d r where "d = p1 div pow10" and "r = p1 mod pow10"
  define rest ten_k :: "64 word" where "rest = push_bit shift (ucast r) + p2" and "ten_k = push_bit shift (ucast pow10)"
  note st = integral_step [OF Suc.prems, folded d_def r_def, folded rest_def ten_k_def]
  have unfold: "digit_gen_integral (Suc n) b p1 pow10 p2 shift delta distance =
      (if rest \<le> delta then Inl (grisu2_round (b @ [digit_char (unat d)]) distance delta rest ten_k, n)
       else digit_gen_integral n (b @ [digit_char (unat d)]) r (pow10 div 10) p2 shift delta distance)"
    by (simp only: digit_gen_integral.simps Let_def d_def r_def rest_def ten_k_def digit_char_def)
  show ?case
  proof (cases "rest \<le> delta")
    case True
    have lt: "unat delta < unat rest + unat d * unat ten_k"
      using Suc.prems st(4) by (simp add: integral_inv_def)
    have pos: "0 < unat ten_k" by (simp add: st(3))
    obtain buf where "grisu2_round (b @ [digit_char (unat d)]) distance delta rest ten_k = Some buf"
      "lead_digits buf" "length buf = Suc (length b)" "last buf \<noteq> CHR ''0''"
      "near_below ((10 * digits_val b + unat d) * unat ten_k + unat rest) (unat delta) (unat ten_k) buf"
      by (rule round_step [OF _ pos lt st(1) st(5), of distance]) (use True in \<open>simp_all add: word_le_nat_alt\<close>)
    then show ?thesis unfolding unfold using True st(3,6) by (simp del: digit_gen_integral.simps)
  next
    case False
    from Suc.IH [OF st(7) [OF False]] False show ?thesis
      unfolding unfold by (auto simp del: digit_gen_integral.simps split: sum.splits)
  qed
qed

section \<open>The fractional part\<close>

definition fraction_inv :: "string \<Rightarrow> 64 word \<Rightarrow> nat \<Rightarrow> 64 word \<Rightarrow> bool" where
  "fraction_inv b p2 shift delta \<longleftrightarrow>
     lead_digits b \<and> shift \<le> 60 \<and> 0 < unat delta \<and> unat delta < unat p2 \<and> unat p2 < 2 ^ shift"

lemma fraction_step:
  assumes inv: "fraction_inv b p2 shift delta"
  defines "q \<equiv> p2 * 10"
  defines "d \<equiv> drop_bit shift q" and "r \<equiv> q AND (push_bit shift 1 - 1)" and "e \<equiv> delta * 10"
  shows "unat d \<le> 9" "unat e = 10 * unat delta" "10 * unat p2 = unat d * 2 ^ shift + unat r"
    "unat (push_bit shift 1 :: 64 word) = 2 ^ shift" "unat e < unat r + unat d * 2 ^ shift"
    "\<not> r \<le> e \<Longrightarrow> fraction_inv (b @ [digit_char (unat d)]) r shift e"
proof -
  note i = inv [unfolded fraction_inv_def]
  have sh: "(2 :: nat) ^ shift \<le> 2 ^ 60" using i by (intro power_increasing) simp_all
  have "unat p2 < 2 ^ 60" using i sh by linarith
  then have q: "unat q = 10 * unat p2" unfolding q_def by (subst unat_mult64) simp_all
  have "unat delta < 2 ^ 60" using i sh by linarith
  then show e: "unat e = 10 * unat delta" unfolding e_def by (subst unat_mult64) simp_all
  have d: "unat d = 10 * unat p2 div 2 ^ shift" by (simp only: d_def unat_drop q)
  have r: "unat r = 10 * unat p2 mod 2 ^ shift"
    unfolding r_def using i by (subst unat_mask) (simp_all only: q, simp)
  show d9: "unat d \<le> 9" using i by (simp add: d less_mult_imp_div_less less_Suc_eq_le [symmetric, of _ 9])
  show split: "10 * unat p2 = unat d * 2 ^ shift + unat r" by (simp only: d r div_mult_mod_eq)
  show "unat (push_bit shift 1 :: 64 word) = 2 ^ shift" using sh by (subst unat_push) simp_all
  show "unat e < unat r + unat d * 2 ^ shift" using split i e by linarith
  assume "\<not> r \<le> e"
  then have "unat e < unat r" by (simp add: word_le_nat_alt)
  moreover have "unat r < 2 ^ shift" by (simp add: r)
  moreover have "lead_digits (b @ [digit_char (unat d)])" using i d9 by (intro lead_snoc) simp_all
  ultimately show "fraction_inv (b @ [digit_char (unat d)]) r shift e" using i by (simp add: fraction_inv_def e)
qed

lemma digit_gen_fraction_ends:
  assumes "fraction_inv b p2 shift delta"
  shows "\<exists>buf k. digit_gen_fraction b m p2 shift delta distance = Some (buf, m + int (Suc k)) \<and>
    lead_digits buf \<and> length buf = length b + Suc k \<and> last buf \<noteq> CHR ''0'' \<and>
    near_below ((digits_val b * 2 ^ shift + unat p2) * 10 ^ Suc k) (unat delta * 10 ^ Suc k) (2 ^ shift) buf \<and>
    unat delta * 10 ^ k < 2 ^ shift"
  using assms
proof (induction "2 ^ shift - unat delta" arbitrary: b m p2 delta distance rule: less_induct)
  case less
  define q where "q = p2 * 10"
  define d r e where "d = drop_bit shift q" and "r = q AND (push_bit shift 1 - 1)" and "e = delta * 10"
  note st = fraction_step [OF less.prems, folded q_def, folded d_def r_def e_def]
  note i = less.prems [unfolded fraction_inv_def]
  have unfold: "digit_gen_fraction b m p2 shift delta distance =
      (if r \<le> e then map_option (\<lambda>b. (b, m + 1)) (grisu2_round (b @ [digit_char (unat d)]) (distance * 10) e r (push_bit shift 1))
       else digit_gen_fraction (b @ [digit_char (unat d)]) (m + 1) r shift e (distance * 10))"
    by (subst digit_gen_fraction.simps) (simp only: Let_def q_def d_def r_def e_def digit_char_def)
  have v: "digits_val (b @ [digit_char (unat d)]) = 10 * digits_val b + unat d"
    using st(1) by (simp add: digits_val_snoc digit_val_digit_char)
  have X: "(10 * digits_val b + unat d) * 2 ^ shift + unat r = (digits_val b * 2 ^ shift + unat p2) * 10"
    using st(3) by (simp add: algebra_simps)
  show ?case
  proof (cases "r \<le> e")
    case True
    have pos: "0 < unat (push_bit shift 1 :: 64 word)" by (simp only: st(4)) simp
    have lt: "unat e < unat r + unat d * unat (push_bit shift 1 :: 64 word)" by (simp only: st(4,5))
    have lead: "lead_digits b \<or> b = [] \<and> 0 < unat d" using i by simp
    obtain buf where buf: "grisu2_round (b @ [digit_char (unat d)]) (distance * 10) e r (push_bit shift 1) = Some buf"
      "lead_digits buf" "length buf = Suc (length b)" "last buf \<noteq> CHR ''0''"
      "near_below ((10 * digits_val b + unat d) * unat (push_bit shift 1 :: 64 word) + unat r) (unat e)
        (unat (push_bit shift 1 :: 64 word)) buf"
      by (rule round_step [OF _ pos lt st(1) lead, of "distance * 10"]) (use True in \<open>simp_all add: word_le_nat_alt\<close>)
    then have "near_below ((digits_val b * 2 ^ shift + unat p2) * 10) (unat delta * 10) (2 ^ shift) buf"
      using X st(2,4) by (simp only: mult.commute)
    with buf True i show ?thesis unfolding unfold by (intro exI [of _ buf] exI [of _ 0]) simp
  next
    case False
    note inv = st(6) [OF False]
    have "unat e < 2 ^ shift" using inv by (auto simp: fraction_inv_def)
    then have "2 ^ shift - unat e < 2 ^ shift - unat delta" using st(2) i by linarith
    from less.hyps [OF this inv, of "m + 1" "distance * 10"] obtain buf k where
      k: "digit_gen_fraction (b @ [digit_char (unat d)]) (m + 1) r shift e (distance * 10) = Some (buf, m + 1 + int (Suc k))"
        "lead_digits buf" "length buf = length (b @ [digit_char (unat d)]) + Suc k" "last buf \<noteq> CHR ''0''"
        "near_below ((digits_val (b @ [digit_char (unat d)]) * 2 ^ shift + unat r) * 10 ^ Suc k) (unat e * 10 ^ Suc k) (2 ^ shift) buf"
        "unat e * 10 ^ k < 2 ^ shift" by blast
    have "near_below ((digits_val b * 2 ^ shift + unat p2) * 10 ^ Suc (Suc k)) (unat delta * 10 ^ Suc (Suc k)) (2 ^ shift) buf"
      using k(5) unfolding v X st(2) by (simp only: power_Suc ac_simps)
    moreover have "unat delta * 10 ^ Suc k < 2 ^ shift" using k(6) st(2) by (simp add: ac_simps)
    ultimately show ?thesis
      unfolding unfold using k(1-4) False by (intro exI [of _ buf] exI [of _ "Suc k"]) simp
  qed
qed

section \<open>Digit generation\<close>

lemma find_largest_pow10_spec:
  assumes "0 < unat n" "find_largest_pow10 n = (k, p)"
  obtains j where "k = int (Suc j)" "j \<le> 9" "unat p = 10 ^ j" "10 ^ j \<le> unat n" "unat n < 10 ^ Suc j"
proof -
  have n: "unat n < 2 ^ 32" using unsigned_less [of n, where 'a = nat] by simp
  have "k = int (Suc (nat k - 1)) \<and> nat k - 1 \<le> 9 \<and> unat p = 10 ^ (nat k - 1) \<and> 10 ^ (nat k - 1) \<le> unat n \<and>
      unat n < 10 ^ Suc (nat k - 1)"
    using assms n by (simp add: find_largest_pow10_def word_le_nat_alt split: if_splits; elim conjE; hypsubst; simp)
  then show ?thesis using that by blast
qed

text \<open>
  What digit generation promises: it ends with at most 17 digits, without zeros at either end, and
  the number they stand for lies between the two boundaries.
\<close>

definition digits_between :: "nat \<Rightarrow> nat \<Rightarrow> nat \<Rightarrow> string \<times> int \<Rightarrow> bool" where
  "digits_between lo hi shift r \<longleftrightarrow>
     (case r of (buf, e) \<Rightarrow>
        lead_digits buf \<and> last buf \<noteq> CHR ''0'' \<and> length buf \<le> 17 \<and>
        (of_nat lo :: rat) \<le> of_nat (digits_val buf) * 10 powi e * 2 ^ shift \<and>
        of_nat (digits_val buf) * 10 powi e * 2 ^ shift \<le> (of_nat hi :: rat))"

lemma near_below_between:
  assumes "near_below (M * u) (delta * u) s buf" "delta \<le> M" "0 < u"
  shows "(of_nat (M - delta) :: rat) \<le> of_nat (digits_val buf) * of_nat s / of_nat u"
    "of_nat (digits_val buf) * of_nat s / of_nat u \<le> (of_nat M :: rat)"
proof -
  have "(M - delta) * u \<le> digits_val buf * s" "digits_val buf * s \<le> M * u"
    using assms(1) unfolding near_below_def diff_mult_distrib by linarith+
  then have "(of_nat ((M - delta) * u) :: rat) \<le> of_nat (digits_val buf * s)"
    "(of_nat (digits_val buf * s) :: rat) \<le> of_nat (M * u)"
    by (simp_all only: of_nat_le_iff)
  then show "(of_nat (M - delta) :: rat) \<le> of_nat (digits_val buf) * of_nat s / of_nat u"
    "of_nat (digits_val buf) * of_nat s / of_nat u \<le> (of_nat M :: rat)"
    using assms(3) by (simp_all only: of_nat_mult) (simp_all add: pos_le_divide_eq pos_divide_le_eq)
qed

lemma digit_gen_ends:
  assumes e: "fp_e Mp = - int shift" "32 \<le> shift" "shift \<le> 60"
    and f: "0 < unat (fp_f Mm)" "unat (fp_f Mm) < unat (fp_f Mp)" "2 ^ shift \<le> unat (fp_f Mp)"
    and short: "unat (fp_f Mp) < 10 ^ 16 * (unat (fp_f Mp) - unat (fp_f Mm))"
  shows "\<exists>buf k. grisu2_digit_gen x Mm w Mp = Some (buf, x + k) \<and>
    digits_between (unat (fp_f Mm)) (unat (fp_f Mp)) shift (buf, k)"
proof -
  define M where "M = unat (fp_f Mp)"
  define delta where "delta = fp_f (diyfp_sub Mp Mm)"
  define distance where "distance = fp_f (diyfp_sub Mp w)"
  define p1 where "p1 = (ucast (drop_bit shift (fp_f Mp)) :: 32 word)"
  define p2 where "p2 = fp_f Mp AND (push_bit shift 1 - 1)"
  have delta: "unat delta = M - unat (fp_f Mm)"
    using f unfolding delta_def M_def by (simp add: diyfp_sub_def unat_sub64)
  have M64: "M < 2 ^ 64" unfolding M_def by (rule unat_less64)
  have p1: "unat p1 = M div 2 ^ shift"
  proof -
    have "M div 2 ^ shift \<le> M div 2 ^ 32" using e by (intro div_le_mono2 power_increasing) simp_all
    also have "\<dots> < 2 ^ 32" using M64 by (simp add: less_mult_imp_div_less)
    finally have "M div 2 ^ shift < 2 ^ 32" .
    moreover have "unat p1 = take_bit 32 (M div 2 ^ shift)"
      unfolding p1_def M_def by (simp add: unsigned_ucast_eq unat_drop del: drop_bit_word_beyond)
    ultimately show ?thesis by (simp only: take_bit_nat_eq_self)
  qed
  have p2: "unat p2 = M mod 2 ^ shift" unfolding p2_def M_def using e by (intro unat_mask) simp
  have "0 < unat p1" using f by (simp add: p1 M_def div_greater_zero_iff)
  then obtain k pow10 j where j: "find_largest_pow10 p1 = (k, pow10)" "k = int (Suc j)" "j \<le> 9" "unat pow10 = 10 ^ j"
    "10 ^ j \<le> unat p1" "unat p1 < 10 ^ Suc j"
    using find_largest_pow10_spec by (metis surj_pair)
  have MM: "M = unat p1 * 2 ^ shift + unat p2" by (simp only: p1 p2 div_mult_mod_eq)
  have pw: "10 ^ j * 2 ^ shift \<le> M" using mult_le_mono1 [OF j(5), of "2 ^ shift"] MM by linarith
  have inv: "integral_inv M (Suc j) [] p1 pow10 p2 shift delta"
    unfolding integral_inv_def using j e f M64 pw MM delta
    by (auto simp: digits_val_def p2 M_def)
  have gen: "grisu2_digit_gen x Mm w Mp =
      (case digit_gen_integral (Suc j) [] p1 pow10 p2 shift delta distance of
         Inl (buf, n) \<Rightarrow> map_option (\<lambda>b. (b, x + int n)) buf
       | Inr buffer \<Rightarrow> map_option (\<lambda>(b, m). (b, x - m)) (digit_gen_fraction buffer 0 p2 shift delta distance))"
    unfolding grisu2_digit_gen_def Let_def e(1) minus_minus nat_int delta_def [symmetric] distance_def [symmetric]
      p1_def [symmetric] p2_def [symmetric] j(1) prod.case j(2) by (rule refl)
  have le: "unat delta \<le> M" "M - unat delta = unat (fp_f Mm)" "0 < unat delta" using f delta by (simp_all add: M_def)
  note ends = digit_gen_integral_ends [OF inv, of distance]
  show ?thesis
  proof (cases "digit_gen_integral (Suc j) [] p1 pow10 p2 shift delta distance")
    case (Inl rm)
    obtain r m where rm: "rm = (r, m)" by fastforce
    obtain buf where buf: "r = Some buf" "m < Suc j" "lead_digits buf" "length buf + m = Suc j" "last buf \<noteq> CHR ''0''"
      "near_below M (unat delta) (10 ^ m * 2 ^ shift) buf"
      using ends Inl rm by auto
    have "digits_between (unat (fp_f Mm)) M shift (buf, int m)"
      using near_below_between [of M 1 "unat delta" "10 ^ m * 2 ^ shift" buf] buf le(1) j(3)
      by (simp add: digits_between_def le(2) ac_simps)
    then show ?thesis using gen Inl rm buf(1) by (auto simp: M_def simp del: digit_gen_integral.simps)
  next
    case (Inr b)
    then have b: "lead_digits b" "length b = Suc j" "M = digits_val b * 2 ^ shift + unat p2" "unat delta < unat p2"
      using ends by (simp_all del: digit_gen_integral.simps)
    have "fraction_inv b p2 shift delta" using b e le(3) by (simp add: fraction_inv_def p2)
    from digit_gen_fraction_ends [OF this, of 0 distance] obtain buf k where
      k: "digit_gen_fraction b 0 p2 shift delta distance = Some (buf, 0 + int (Suc k))"
        "lead_digits buf" "length buf = length b + Suc k" "last buf \<noteq> CHR ''0''"
        "near_below (M * 10 ^ Suc k) (unat delta * 10 ^ Suc k) (2 ^ shift) buf" "unat delta * 10 ^ k < 2 ^ shift"
      unfolding b(3) [symmetric] by blast
    have "(10 ^ j * 10 ^ k) * unat delta \<le> 10 ^ j * 2 ^ shift" using k(6) by (simp add: ac_simps)
    also have "\<dots> < 10 ^ 16 * unat delta" using pw short le by (simp add: M_def delta)
    finally have "(10 :: nat) ^ (j + k) < 10 ^ 16" using le(3) by (simp add: power_add)
    then have "j + k < 16" by (rule power_less_imp_less_exp [rotated]) simp
    then have "length buf \<le> 17" using k(3) b(2) by simp
    moreover have "of_nat (digits_val buf) * 10 powi (- int (Suc k)) * (2 :: rat) ^ shift =
        of_nat (digits_val buf) * of_nat (2 ^ shift) / of_nat (10 ^ Suc k)"
      by (simp only: power_int_minus power_int_of_nat of_nat_power of_nat_numeral divide_inverse ac_simps)
    ultimately have "digits_between (unat (fp_f Mm)) M shift (buf, - int (Suc k))"
      using near_below_between [OF k(5) le(1)] k(2,4) by (simp only: digits_between_def le(2)) simp
    then show ?thesis using gen Inr k(1) by (auto simp: M_def simp del: digit_gen_integral.simps)
  qed
qed

section \<open>Normalisation\<close>

lemma diyfp_normalize_ends:
  assumes "0 < unat (fp_f x)"
  obtains s y where "diyfp_normalize x = Some y" "unat (fp_f y) = unat (fp_f x) * 2 ^ s" "fp_e y = fp_e x - int s"
    "2 ^ 63 \<le> unat (fp_f x) * 2 ^ s" "unat (fp_f x) * 2 ^ s < 2 ^ 64"
  using assms
proof (induction "2 ^ 64 - unat (fp_f x)" arbitrary: x thesis rule: less_induct)
  case less
  have top: "drop_bit 63 (fp_f x) = 0 \<longleftrightarrow> unat (fp_f x) < 2 ^ 63"
  proof -
    have "drop_bit 63 (fp_f x) = 0 \<longleftrightarrow> unat (drop_bit 63 (fp_f x)) = 0" by (simp only: unat_eq_zero)
    also have "\<dots> \<longleftrightarrow> unat (fp_f x) < 2 ^ 63" by (simp only: unat_drop) (simp add: div_eq_0_iff)
    finally show ?thesis .
  qed
  show ?case
  proof (cases "drop_bit 63 (fp_f x) = 0")
    case False
    then have "diyfp_normalize x = Some x" by (subst diyfp_normalize.simps) (simp only: if_False)
    moreover have "2 ^ 63 \<le> unat (fp_f x)" using False top by (simp only: not_less)
    ultimately show ?thesis using unat_less64 [of "fp_f x"] by (intro less.prems(1) [of x 0]) simp_all
  next
    case True
    let ?x = "\<lparr>fp_f = push_bit 1 (fp_f x), fp_e = fp_e x - 1\<rparr>"
    have lt: "unat (fp_f x) < 2 ^ 63" using True top by blast
    then have f: "unat (fp_f ?x) = 2 * unat (fp_f x)" using unat_push [of "fp_f x" 1] by simp
    then have "2 ^ 64 - unat (fp_f ?x) < 2 ^ 64 - unat (fp_f x)" "0 < unat (fp_f ?x)"
      using lt less.prems(2) by simp_all
    from less.hyps [OF this(1) _ this(2)] obtain s y where y: "diyfp_normalize ?x = Some y"
      "unat (fp_f y) = unat (fp_f ?x) * 2 ^ s" "fp_e y = fp_e ?x - int s"
      "2 ^ 63 \<le> unat (fp_f ?x) * 2 ^ s" "unat (fp_f ?x) * 2 ^ s < 2 ^ 64" by metis
    have "diyfp_normalize x = diyfp_normalize ?x"
      using True by (subst diyfp_normalize.simps) (simp only: if_True simp_thms)
    moreover have "unat (fp_f ?x) * 2 ^ s = unat (fp_f x) * 2 ^ Suc s" unfolding f by simp
    ultimately show ?thesis using y by (intro less.prems(1) [of y "Suc s"]) (simp_all only:, simp_all)
  qed
qed

lemma shift_unique:
  assumes "2 ^ 63 \<le> a * 2 ^ s" "a * 2 ^ s < (2 :: nat) ^ 64" "2 ^ 63 \<le> a * 2 ^ t" "a * 2 ^ t < 2 ^ 64"
  shows "s = t"
proof -
  have "\<not> p < q" if "2 ^ 63 \<le> a * 2 ^ p" "a * 2 ^ q < (2 :: nat) ^ 64" for p q
  proof
    assume "p < q"
    then have "2 * (a * 2 ^ p) \<le> a * 2 ^ q" using power_increasing [of "Suc p" q "2 :: nat"] by simp
    with that show False by simp
  qed
  with assms show ?thesis by (metis nat_neq_iff)
qed

section \<open>The parts of a double\<close>

text \<open>\<open>x\<close> is \<open>sig * 2 ^ u\<close> with 53 significant bits, or fewer at the lowest exponent.\<close>

definition double_parts :: "rat \<Rightarrow> nat \<Rightarrow> int \<Rightarrow> bool" where
  "double_parts x sig u \<longleftrightarrow>
     x = of_nat sig * 2 powi u \<and> 0 < sig \<and> sig < 2 ^ 53 \<and> - 1074 \<le> u \<and> u \<le> 971 \<and> (2 ^ 52 \<le> sig \<or> u = - 1074)"

lemma powi_less_iff: "(2 powi i :: rat) < 2 powi j \<longleftrightarrow> i < j"
proof
  show "i < j" if "(2 powi i :: rat) < 2 powi j"
  proof (rule ccontr)
    assume "\<not> i < j"
    then have "(2 powi j :: rat) \<le> 2 powi i" by (intro power_int_increasing) auto
    with that show False by simp
  qed
  show "(2 powi i :: rat) < 2 powi j" if "i < j" using that by (intro power_int_strict_increasing) auto
qed

lemma powi_nat: "0 \<le> i \<Longrightarrow> (2 powi i :: rat) = of_nat (2 ^ nat i)"
  by (simp add: power_int_def)

lemma double_parts_exist:
  assumes "0 < x" "round64 x = Fin x"
  shows "\<exists>sig. double_parts x sig (ulp_exp x) \<and> \<lfloor>x / 2 powi ulp_exp x\<rfloor> = int sig"
proof -
  define u where "u = ulp_exp x"
  define n where "n = round_half_even (x / 2 powi u)"
  have y: "of_int n * 2 powi u = x" and big: "ilog2 x < 1024"
    using assms by (auto simp: round64_def Let_def u_def n_def split: if_splits)
  then have xn: "x / 2 powi u = of_int n" by (auto simp: field_simps)
  have "0 < (of_int n :: rat)" using assms(1) unfolding xn [symmetric] by simp
  then have n0: "0 < n" by simp
  have il: "2 powi ilog2 x \<le> x" "x < 2 powi (ilog2 x + 1)" using ilog2_bounds [OF assms(1)] by simp_all
  have u: "u = max (ilog2 x - 52) (- 1074)" using assms(1) by (simp add: u_def ulp_exp_def)
  have "x < 2 powi (u + 53)"
    by (rule less_le_trans [OF il(2)]) (use u in \<open>intro power_int_increasing, auto\<close>)
  also have "(2 powi (u + 53) :: rat) = 2 ^ 53 * 2 powi u" by (simp add: power_int_add)
  finally have "(of_int n :: rat) < of_int (2 ^ 53)" unfolding y [symmetric] by simp
  then have up: "n < 2 ^ 53" by (simp only: of_int_less_iff)
  have lo: "2 ^ 52 \<le> n" if "u \<noteq> - 1074"
  proof -
    have "u = ilog2 x - 52" using u that by (simp add: max_def split: if_splits)
    then have "(2 powi (u + 52) :: rat) \<le> x" using il(1) by simp
    moreover have "(2 powi (u + 52) :: rat) = 2 ^ 52 * 2 powi u" by (simp add: power_int_add)
    ultimately have "of_int (2 ^ 52) \<le> (of_int n :: rat)" unfolding y [symmetric] by simp
    then show ?thesis by (simp only: of_int_le_iff)
  qed
  have "double_parts x (nat n) u"
    unfolding double_parts_def using n0 up lo u big y by (auto simp: le_nat_iff nat_less_iff)
  then show ?thesis using xn n0 by (auto simp: u_def intro!: exI [of _ "nat n"])
qed

lemma double_bits_fields:
  assumes "double_parts x sig (ulp_exp x)" "\<lfloor>x / 2 powi ulp_exp x\<rfloor> = int sig"
  shows "unat (double_bits x) = (if sig < 2 ^ 52 then sig else nat (ulp_exp x + 1075) * 2 ^ 52 + (sig - 2 ^ 52))"
proof (cases "sig < 2 ^ 52")
  case True
  then have "double_bits x = word_of_int (int sig)" unfolding double_bits_def Let_def assms(2) by simp
  then show ?thesis using True by (simp add: unsigned_of_nat take_bit_nat_eq_self)
next
  case False
  define u where "u = ulp_exp x"
  have u: "- 1074 \<le> u" "u \<le> 971" "sig < 2 ^ 53" using assms(1) by (simp_all add: double_parts_def u_def)
  have bits: "double_bits x = word_of_int ((u + 1075) * 2 ^ 52 + (int sig - 2 ^ 52))"
    using False unfolding double_bits_def Let_def assms(2) u_def by simp
  define n where "n = nat (u + 1075) * 2 ^ 52 + (sig - 2 ^ 52)"
  have "(u + 1075) * 2 ^ 52 + (int sig - 2 ^ 52) = int n" using u False by (simp add: n_def of_nat_diff)
  moreover have "n < 2 ^ 64" using u by (simp add: n_def)
  ultimately have "unat (double_bits x) = n"
    using bits by (simp add: unsigned_of_nat take_bit_nat_eq_self del: of_nat_add of_nat_mult)
  then show ?thesis using False by (simp add: n_def u_def)
qed

section \<open>Boundaries\<close>

text \<open>The significand of the lower boundary, shifted by \<open>s\<close>: it is closer below a power of two.\<close>

definition minus_f :: "nat \<Rightarrow> int \<Rightarrow> nat \<Rightarrow> nat" where
  "minus_f sig u s =
     (if sig = 2 ^ 52 \<and> - 1074 < u then (4 * sig - 1) * 2 ^ (s - 2) else (2 * sig - 1) * 2 ^ (s - 1))"

lemma boundary_words:
  assumes "double_parts x sig (ulp_exp x)" "\<lfloor>x / 2 powi ulp_exp x\<rfloor> = int sig"
  defines "E \<equiv> drop_bit 52 (double_bits x)" and "F \<equiv> double_bits x AND (push_bit 52 1 - 1)"
  shows "unat (if E = 0 then F else F + push_bit 52 1) = sig"
    "(if E = 0 then - 1074 else uint E - 1075) = ulp_exp x"
    "F = 0 \<and> 1 < E \<longleftrightarrow> sig = 2 ^ 52 \<and> - 1074 < ulp_exp x"
proof -
  define u where "u = ulp_exp x"
  have p: "0 < sig" "sig < 2 ^ 53" "- 1074 \<le> u" "u \<le> 971" "2 ^ 52 \<le> sig \<or> u = - 1074"
    using assms(1) by (simp_all add: double_parts_def u_def)
  note bits = double_bits_fields [OF assms(1,2), folded u_def]
  have div52: "(a * 2 ^ 52 + t) div 2 ^ 52 = a" "(a * 2 ^ 52 + t) mod 2 ^ 52 = t" if "t < 2 ^ 52" for a t :: nat
    using that by simp_all
  have t: "sig - 2 ^ 52 < 2 ^ 52" using p(2) by simp
  have "unat E = unat (double_bits x) div 2 ^ 52" unfolding E_def by (rule unat_drop)
  then have E: "unat E = (if sig < 2 ^ 52 then 0 else nat (u + 1075))"
    unfolding bits using div52(1) [OF t, of "nat (u + 1075)"] by (auto simp only: if_True if_False div_less split: if_split)
  have "unat F = unat (double_bits x) mod 2 ^ 52" unfolding F_def by (rule unat_mask) simp
  then have F: "unat F = (if sig < 2 ^ 52 then sig else sig - 2 ^ 52)"
    unfolding bits using div52(2) [OF t, of "nat (u + 1075)"] by (auto simp only: if_True if_False mod_less split: if_split)
  have one: "unat (push_bit 52 1 :: 64 word) = 2 ^ 52" by simp
  have E0: "E = 0 \<longleftrightarrow> sig < 2 ^ 52" using E p by (simp add: unat_eq_zero [symmetric])
  show "unat (if E = 0 then F else F + push_bit 52 1) = sig"
  proof (cases "sig < 2 ^ 52")
    case True
    then show ?thesis using E0 F by simp
  next
    case False
    then have "unat (F + push_bit 52 1) = sig" using p F one by (subst unat_add64) simp_all
    then show ?thesis using False E0 by simp
  qed
  have "uint E = int (unat E)" by simp
  then show "(if E = 0 then - 1074 else uint E - 1075) = ulp_exp x"
    using E E0 p by (auto simp: u_def [symmetric] simp del: of_nat_unat)
  have "F = 0 \<longleftrightarrow> unat F = 0" "1 < E \<longleftrightarrow> 1 < unat E" by (simp_all add: unat_eq_zero word_less_nat_alt)
  then show "F = 0 \<and> 1 < E \<longleftrightarrow> sig = 2 ^ 52 \<and> - 1074 < ulp_exp x"
    using E F p by (auto simp: u_def [symmetric] split: if_splits)
qed

lemma plus_shift:
  assumes "sig < 2 ^ 53" "2 ^ 63 \<le> sig * 2 ^ s" "sig * 2 ^ s < (2 :: nat) ^ 64"
  shows "11 \<le> s" "2 ^ 63 \<le> (2 * sig + 1) * 2 ^ (s - 1)" "(2 * sig + 1) * 2 ^ (s - 1) < 2 ^ 64"
proof -
  show s: "11 \<le> s"
  proof (rule ccontr)
    assume "\<not> 11 \<le> s"
    then have "(2 :: nat) ^ s \<le> 2 ^ 10" by (intro power_increasing) simp_all
    then have "sig * 2 ^ s \<le> (2 ^ 53 - 1) * 2 ^ 10" using assms(1) by (intro mult_le_mono) simp_all
    with assms(2) show False by simp
  qed
  then obtain t where t: "s = Suc t" by (cases s) auto
  have eq: "(2 * sig + 1) * 2 ^ (s - 1) = sig * 2 ^ s + 2 ^ t" by (simp add: t algebra_simps)
  show "2 ^ 63 \<le> (2 * sig + 1) * 2 ^ (s - 1)" unfolding eq using assms(2) by linarith
  have "s < 64"
  proof (rule ccontr)
    assume "\<not> s < 64"
    then have "(2 :: nat) ^ 64 \<le> 2 ^ s" by (intro power_increasing) simp_all
    also have "\<dots> \<le> sig * 2 ^ s" using assms(2) by (cases sig) simp_all
    finally show False using assms(3) by simp
  qed
  then have pow64: "(2 :: nat) ^ 64 = 2 ^ (64 - s) * 2 ^ s" by (simp only: power_add [symmetric]) simp
  have "sig * 2 ^ s < 2 ^ (64 - s) * 2 ^ s" using assms(3) by (simp only: pow64)
  then have "sig < 2 ^ (64 - s)" by (simp only: mult_less_cancel2)
  then have "(sig + 1) * 2 ^ s \<le> 2 ^ (64 - s) * 2 ^ s" by (intro mult_le_mono1) simp
  then have "sig * 2 ^ s + 2 ^ s \<le> 2 ^ 64" by (simp only: pow64 add_mult_distrib mult_1)
  moreover have "(2 :: nat) ^ t < 2 ^ s" by (simp add: t)
  ultimately show "(2 * sig + 1) * 2 ^ (s - 1) < 2 ^ 64" unfolding eq by linarith
qed

lemma minus_f_less:
  assumes "11 \<le> s"
  shows "minus_f sig u s < (2 * sig + 1) * 2 ^ (s - 1)"
proof -
  obtain r where r: "s = Suc (Suc r)" using assms by (metis Suc_le_D numeral_eq_Suc Suc_le_mono pred_numeral_simps(3) le_SucE)
  have "(4 * sig - 1) * 2 ^ r < (4 * sig + 2) * 2 ^ r" "(2 * sig - 1) * 2 ^ Suc r < (2 * sig + 1) * 2 ^ Suc r"
    by (intro mult_less_mono1; simp)+
  moreover have "(4 * sig + 2) * 2 ^ r = (2 * sig + 1) * 2 ^ Suc r" by simp
  moreover have "s - 1 = Suc r" "s - 2 = r" by (simp_all add: r)
  ultimately show ?thesis
    by (cases "sig = 2 ^ 52 \<and> - 1074 < u") (simp_all only: minus_f_def if_P if_not_P not_False_eq_True)
qed

text \<open>
  The three numbers that \<open>compute_boundaries\<close> returns have the same exponent; they are the value and
  the middles to its neighbours.
\<close>

lemma compute_boundaries_ends:
  assumes "0 < x" "round64 x = Fin x"
  obtains sig s bd where "double_parts x sig (ulp_exp x)" "compute_boundaries x = Some bd" "11 \<le> s"
    "2 ^ 63 \<le> sig * 2 ^ s" "sig * 2 ^ s < 2 ^ 64"
    "unat (fp_f (bd_plus bd)) = (2 * sig + 1) * 2 ^ (s - 1)" "fp_e (bd_plus bd) = ulp_exp x - int s"
    "unat (fp_f (bd_minus bd)) = minus_f sig (ulp_exp x) s" "fp_e (bd_minus bd) = ulp_exp x - int s"
proof -
  obtain sig where sig: "double_parts x sig (ulp_exp x)" "\<lfloor>x / 2 powi ulp_exp x\<rfloor> = int sig"
    using double_parts_exist [OF assms] by blast
  define u where "u = ulp_exp x"
  have sg: "0 < sig" "sig < 2 ^ 53" using sig(1) by (simp_all add: double_parts_def)
  define E F where "E = drop_bit 52 (double_bits x)" and "F = double_bits x AND (push_bit 52 1 - 1)"
  note w = boundary_words [OF sig, folded E_def F_def, folded u_def]
  define v where "v = (if E = 0 then \<lparr>fp_f = F, fp_e = - 1074\<rparr> else \<lparr>fp_f = F + push_bit 52 1, fp_e = uint E - 1075\<rparr>)"
  have v: "unat (fp_f v) = sig" "fp_e v = u" using w(1,2) by (auto simp: v_def split: if_splits)
  define mp where "mp = \<lparr>fp_f = 2 * fp_f v + 1, fp_e = fp_e v - 1\<rparr>"
  define mm where "mm = (if F = 0 \<and> 1 < E then \<lparr>fp_f = 4 * fp_f v - 1, fp_e = fp_e v - 2\<rparr>
    else \<lparr>fp_f = 2 * fp_f v - 1, fp_e = fp_e v - 1\<rparr>)"
  have bias: "1024 - 1 + (53 - 1) = (1075 :: int)" "1 - 1075 = (- 1074 :: int)" by simp_all
  have cb: "compute_boundaries x = (case diyfp_normalize mp of None \<Rightarrow> None | Some w_plus \<Rightarrow>
      (case diyfp_normalize v of None \<Rightarrow> None | Some w \<Rightarrow>
         Some \<lparr>bd_w = w, bd_minus = diyfp_normalize_to mm (fp_e w_plus), bd_plus = w_plus\<rparr>))"
    unfolding compute_boundaries_def Let_def mp_def mm_def v_def E_def F_def bias by (rule refl)
  have dbl: "unat (2 * fp_f v) = 2 * sig" "unat (4 * fp_f v) = 4 * sig"
    using sg by (subst unat_mult64; simp add: v)+
  have mp: "unat (fp_f mp) = 2 * sig + 1" "fp_e mp = u - 1"
    unfolding mp_def using sg v dbl by (simp_all add: unat_add64)
  obtain s y where y: "diyfp_normalize v = Some y" "unat (fp_f y) = sig * 2 ^ s" "fp_e y = u - int s"
    "2 ^ 63 \<le> sig * 2 ^ s" "sig * 2 ^ s < 2 ^ 64"
    using diyfp_normalize_ends [of v] sg v by metis
  note ps = plus_shift [OF sg(2) y(4,5)]
  obtain t z where z: "diyfp_normalize mp = Some z" "unat (fp_f z) = (2 * sig + 1) * 2 ^ t" "fp_e z = u - 1 - int t"
    "2 ^ 63 \<le> (2 * sig + 1) * 2 ^ t" "(2 * sig + 1) * 2 ^ t < 2 ^ 64"
    using diyfp_normalize_ends [of mp] mp by (metis add_gr_0 zero_less_one)
  have t: "t = s - 1" using shift_unique [OF z(4,5) ps(2,3)] .
  have ez: "fp_e z = u - int s" using z(3) t ps(1) by simp
  have m64: "minus_f sig u s < 2 ^ 64" using minus_f_less [OF ps(1), of sig u] ps(3) by linarith
  have mm: "unat (fp_f (diyfp_normalize_to mm (fp_e z))) = minus_f sig u s"
  proof (cases "sig = 2 ^ 52 \<and> - 1074 < u")
    case True
    then have "mm = \<lparr>fp_f = 4 * fp_f v - 1, fp_e = u - 2\<rparr>" using w(3) v(2) by (simp add: mm_def)
    moreover have "unat (4 * fp_f v - 1) = 4 * sig - 1" using dbl sg by (subst unat_sub64) simp_all
    ultimately show ?thesis
      using True m64 ps(1) by (simp add: diyfp_normalize_to_def ez minus_f_def Let_def unat_push nat_diff_distrib)
  next
    case False
    then have "mm = \<lparr>fp_f = 2 * fp_f v - 1, fp_e = u - 1\<rparr>" using w(3) v(2) by (auto simp: mm_def)
    moreover have "unat (2 * fp_f v - 1) = 2 * sig - 1" using dbl sg by (subst unat_sub64) simp_all
    ultimately show ?thesis
      using False m64 ps(1) by (auto simp: diyfp_normalize_to_def ez minus_f_def Let_def unat_push nat_diff_distrib)
  qed
  show ?thesis
    by (rule that [OF sig(1), of "\<lparr>bd_w = y, bd_minus = diyfp_normalize_to mm (fp_e z), bd_plus = z\<rparr>" s])
      (use y z t ez mm ps(1) in \<open>simp_all add: cb u_def [symmetric] diyfp_normalize_to_def Let_def\<close>)
qed

end
