(* ===== verification/Json_Powers.thy ===== *)
theory Json_Powers
  imports Json_Grisu
begin

text \<open>
  The table of cached powers of ten of \<open>Json_Dtoa\<close>, checked entry by entry against exact powers of ten,
  and the index that \<open>get_cached_power_for_binary_exponent\<close> computes into it.
\<close>

section \<open>Cached powers\<close>

text \<open>A cached power is the power of ten rounded to 64 bits.\<close>

definition power_exact :: "64 word \<times> int \<times> int \<Rightarrow> bool" where
  "power_exact c \<longleftrightarrow>
     (case c of (cf, ce, ck) \<Rightarrow>
        2 ^ 63 \<le> unat cf \<and> \<bar>of_nat (unat cf) - 10 powi ck / 2 powi ce\<bar> \<le> (1 / 2 :: rat))"

text \<open>
  The check of the table on integers, with the powers of five multiplied up from entry to entry: for
  the entries from \<open>10 ^ 4\<close> upwards, and for those from \<open>10 ^ -4\<close> downwards.
\<close>

fun chain_pos :: "int \<Rightarrow> int \<Rightarrow> (64 word \<times> int \<times> int) list \<Rightarrow> bool" where
  "chain_pos p k [] = True"
| "chain_pos p k ((cf, ce, ck) # cs) =
     (ck = k \<and> 2 ^ 63 \<le> unat cf \<and>
      (if ce < ck then int (unat cf) = p * 2 ^ nat (ck - ce)
       else \<bar>2 * int (unat cf) * 2 ^ nat (ce - ck) - 2 * p\<bar> \<le> 2 ^ nat (ce - ck)) \<and>
      chain_pos (p * 390625) (k + 8) cs)"

fun chain_neg :: "int \<Rightarrow> int \<Rightarrow> (64 word \<times> int \<times> int) list \<Rightarrow> bool" where
  "chain_neg p k [] = True"
| "chain_neg p k ((cf, ce, ck) # cs) =
     (ck = - k \<and> 2 ^ 63 \<le> unat cf \<and> ce < ck \<and> \<bar>2 * int (unat cf) * p - 2 * 2 ^ nat (ck - ce)\<bar> \<le> p \<and>
      chain_neg (p * 390625) (k + 8) cs)"

lemma chain_pos_table: "chain_pos 625 4 (drop 38 kCachedPowers)"
  unfolding kCachedPowers_def by simp

lemma chain_neg_table: "chain_neg 625 4 (rev (take 38 kCachedPowers))"
  unfolding kCachedPowers_def by simp

lemma ten_powi: "(10 powi k :: rat) = 5 powi k * 2 powi k"
  using power_int_mult_distrib [of "5 :: rat" 2 k] by simp

lemma half_bound:
  assumes "\<bar>2 * a * D - 2 * p\<bar> \<le> D" "0 < D"
  shows "\<bar>of_int a - of_int p / of_int D\<bar> \<le> (1 / 2 :: rat)"
proof -
  have "\<bar>of_int (2 * a * D - 2 * p)\<bar> \<le> (of_int D :: rat)" using assms(1) by (metis of_int_abs of_int_le_iff)
  moreover have "(of_int (2 * a * D - 2 * p) :: rat) = 2 * of_int D * (of_int a - of_int p / of_int D)"
    using assms(2) by (simp add: field_simps)
  ultimately have "2 * of_int D * \<bar>of_int a - of_int p / of_int D\<bar> \<le> (of_int D :: rat)"
    using assms(2) by (simp add: abs_mult)
  then show ?thesis using assms(2) by (simp add: field_simps)
qed

lemma five_step: "0 \<le> k \<Longrightarrow> (5 :: int) ^ nat k * 390625 = 5 ^ nat (k + 8)"
  by (simp add: nat_add_distrib power_add)

lemma chain_pos_exact: "chain_pos (5 ^ nat k) k cs \<Longrightarrow> 0 \<le> k \<Longrightarrow> list_all power_exact cs"
proof (induction "5 ^ nat k :: int" k cs rule: chain_pos.induct)
  case (2 k cf ce ck cs)
  have ck: "ck = k" and big: "2 ^ 63 \<le> unat cf" using "2.prems" by auto
  have ten: "(10 powi ck :: rat) / 2 powi ce = of_int (5 ^ nat k) * 2 powi (ck - ce)"
  proof -
    have "(5 powi k :: rat) = of_int (5 ^ nat k)" using "2.prems"(2) by (simp add: power_int_def)
    then show ?thesis unfolding ten_powi ck by (simp add: power_int_diff)
  qed
  have "\<bar>of_nat (unat cf) - (10 powi ck :: rat) / 2 powi ce\<bar> \<le> 1 / 2"
  proof (cases "ce < ck")
    case True
    then have "int (unat cf) = 5 ^ nat k * 2 ^ nat (ck - ce)" using "2.prems" by simp
    then have "(of_int (int (unat cf)) :: rat) = of_int (5 ^ nat k) * 2 powi (ck - ce)"
      using True by (simp only: of_int_mult of_int_power of_int_numeral power_int_def) simp
    then show ?thesis unfolding ten by simp
  next
    case False
    then have "\<bar>2 * int (unat cf) * 2 ^ nat (ce - ck) - 2 * 5 ^ nat k\<bar> \<le> 2 ^ nat (ce - ck)" using "2.prems" ck by auto
    from half_bound [OF this] have "\<bar>of_nat (unat cf) - of_int (5 ^ nat k) / of_int (2 ^ nat (ce - ck))\<bar> \<le> (1 / 2 :: rat)"
      by simp
    moreover have "(2 powi (ck - ce) :: rat) = 1 / of_int (2 ^ nat (ce - ck))"
    proof -
      have "(2 powi (ck - ce) :: rat) = inverse (2 powi (ce - ck))" by (simp add: power_int_minus [symmetric])
      also have "(2 powi (ce - ck) :: rat) = of_int (2 ^ nat (ce - ck))" using False by (simp add: power_int_def)
      finally show ?thesis by (simp add: divide_inverse)
    qed
    ultimately show ?thesis unfolding ten by simp
  qed
  moreover have "list_all power_exact cs"
    using "2.hyps" [OF five_step] "2.prems" five_step [of k] by simp
  ultimately show ?case using big by (simp add: power_exact_def)
qed simp

lemma chain_neg_exact: "chain_neg (5 ^ nat k) k cs \<Longrightarrow> 0 \<le> k \<Longrightarrow> list_all power_exact cs"
proof (induction "5 ^ nat k :: int" k cs rule: chain_neg.induct)
  case (2 k cf ce ck cs)
  have ck: "ck = - k" and big: "2 ^ 63 \<le> unat cf" and lt: "ce < ck" using "2.prems" by auto
  have ten: "(10 powi ck :: rat) / 2 powi ce = of_int (2 ^ nat (ck - ce)) / of_int (5 ^ nat k)"
  proof -
    have "(5 powi ck :: rat) = 1 / of_int (5 ^ nat k)"
      using "2.prems"(2) by (simp add: ck power_int_minus) (simp add: power_int_def divide_inverse)
    moreover have "(2 powi ck / 2 powi ce :: rat) = of_int (2 ^ nat (ck - ce))"
      using lt by (simp add: power_int_diff [symmetric]) (simp add: power_int_def)
    ultimately have "5 powi ck * (2 powi ck / 2 powi ce) = (of_int (2 ^ nat (ck - ce)) / of_int (5 ^ nat k) :: rat)" by simp
    then show ?thesis unfolding ten_powi by (simp only: times_divide_eq_right)
  qed
  have "\<bar>2 * int (unat cf) * 5 ^ nat k - 2 * 2 ^ nat (ck - ce)\<bar> \<le> 5 ^ nat k" using "2.prems" ck by auto
  from half_bound [OF this] have "\<bar>of_nat (unat cf) - (10 powi ck :: rat) / 2 powi ce\<bar> \<le> 1 / 2"
    unfolding ten by simp
  moreover have "list_all power_exact cs"
    using "2.hyps" [OF five_step] "2.prems" five_step [of k] by simp
  ultimately show ?case using big by (simp add: power_exact_def)
qed simp

lemma cached_exact: "list_all power_exact kCachedPowers"
proof -
  have "list_all power_exact (drop 38 kCachedPowers)" using chain_pos_exact [of 4] chain_pos_table by simp
  moreover have "list_all power_exact (rev (take 38 kCachedPowers))" by (rule chain_neg_exact [of 4]) (use chain_neg_table in simp_all)
  ultimately have "list_all power_exact (take 38 kCachedPowers @ drop 38 kCachedPowers)"
    by (simp only: list_all_append list_all_rev)
  then show ?thesis by (simp only: append_take_drop_id)
qed

text \<open>The entry at index \<open>i\<close> serves the exponents \<open>- 61 - f\<close> with \<open>8 * i - 308 \<le> f * 78913 / 2 ^ 18 \<le> 8 * i - 300\<close>.\<close>

definition serves :: "nat \<times> 64 word \<times> int \<times> int \<Rightarrow> bool" where
  "serves p \<longleftrightarrow>
     (case p of (i, cf, ce, ck) \<Rightarrow>
        2 ^ 18 * (8 * int i - 300) < 78913 * (ce + 64) \<and> 78913 * (ce + 34) < 2 ^ 18 * (8 * int i - 308))"

lemma cached_serves: "list_all serves (enumerate 0 kCachedPowers)"
  unfolding kCachedPowers_def enumerate_simps list.pred_inject
  by (intro conjI TrueI; simp add: serves_def)

lemma length_cached: "length kCachedPowers = 79"
  by (simp add: kCachedPowers_def)

lemma cached_index:
  fixes e :: int
  assumes "- 1137 \<le> e" "e \<le> 960"
  defines "f \<equiv> - 61 - e"
  defines "k \<equiv> (f * 78913) sdiv (2 ^ 18) + (if 0 < f then 1 else 0)"
  defines "i \<equiv> (300 + k + (8 - 1)) sdiv 8"
  shows "0 \<le> i" "i < 79" "2 ^ 18 * (8 * i - 308) \<le> 78913 * f" "78913 * f \<le> 2 ^ 18 * (8 * i - 300)"
proof -
  have div18: "2 ^ 18 * (a div 2 ^ 18) \<le> a \<and> a < 2 ^ 18 * (a div 2 ^ 18) + 2 ^ 18" for a :: int
    by (simp add: minus_mod_eq_mult_div [symmetric])
  have k: "2 ^ 18 * (k - 1) \<le> 78913 * f \<and> 78913 * f \<le> 2 ^ 18 * k \<and> - 307 \<le> k"
  proof (cases "0 < f")
    case True
    define q where "q = f * 78913 div 2 ^ 18"
    have "k = q + 1" using True by (simp add: k_def q_def signed_divide_int_def)
    moreover have "2 ^ 18 * q \<le> f * 78913" "f * 78913 < 2 ^ 18 * q + 2 ^ 18" unfolding q_def using div18 by blast+
    ultimately show ?thesis using True by simp
  next
    case False
    define q where "q = - f * 78913 div 2 ^ 18"
    have "k = - q" using False by (cases "f = 0") (simp_all add: k_def q_def signed_divide_int_def)
    moreover have "- f \<le> 1021" using assms(2) by (simp add: f_def)
    moreover have "2 ^ 18 * q \<le> - f * 78913" "- f * 78913 < 2 ^ 18 * q + 2 ^ 18" unfolding q_def using div18 by blast+
    ultimately show ?thesis using False by simp
  qed
  then have nn: "0 \<le> 307 + k" by simp
  have i: "i = (307 + k) div 8" using nn by (cases "307 + k = 0") (auto simp: i_def signed_divide_int_def sgn_if)
  have div8: "8 * i \<le> 307 + k" "307 + k < 8 * i + 8" unfolding i by (simp_all add: minus_mod_eq_mult_div [symmetric])
  have f: "f \<le> 1076" using assms(1) by (simp add: f_def)
  have p18: "(2 :: int) ^ 18 = 262144" by simp
  have k': "262144 * (k - 1) \<le> 78913 * f" "78913 * f \<le> 262144 * k" using k by simp_all
  show "0 \<le> i" using nn by (simp add: i)
  show "2 ^ 18 * (8 * i - 308) \<le> 78913 * f" unfolding p18 using k'(1) div8(1) by simp
  show "78913 * f \<le> 2 ^ 18 * (8 * i - 300)" unfolding p18 using k'(2) div8(2) by simp
  show "i < 79" using k'(1) div8(1) f by simp
qed

lemma cached_power_window:
  assumes "- 1137 \<le> e" "e \<le> 960" "get_cached_power_for_binary_exponent e = (cf, ce, ck)"
  shows "power_exact (cf, ce, ck)" "- 60 \<le> e + ce + 64" "e + ce + 64 \<le> - 32"
proof -
  define f where "f = - 61 - e"
  define k where "k = (f * 78913) sdiv (2 ^ 18) + (if 0 < f then 1 else 0)"
  define i where "i = (300 + k + (8 - 1)) sdiv 8"
  note ix = cached_index [OF assms(1,2), folded f_def, folded k_def, folded i_def]
  have "get_cached_power_for_binary_exponent e = kCachedPowers ! nat i"
    unfolding get_cached_power_for_binary_exponent_def Let_def i_def k_def f_def kAlpha_def by simp
  then have c: "kCachedPowers ! nat i = (cf, ce, ck)" using assms(3) by simp
  have len: "nat i < length kCachedPowers" using ix(1,2) by (simp add: length_cached)
  show "power_exact (cf, ce, ck)" using cached_exact len c by (metis list_all_length)
  have "serves (enumerate 0 kCachedPowers ! nat i)" using cached_serves len by (simp add: list_all_length)
  then have "serves (nat i, cf, ce, ck)" using len c by (simp add: nth_enumerate_eq)
  then have "2 ^ 18 * (8 * i - 300) < 78913 * (ce + 64)" "78913 * (ce + 34) < 2 ^ 18 * (8 * i - 308)"
    using ix(1) by (simp_all add: serves_def)
  with ix(3,4) have "78913 * f < 78913 * (ce + 64)" "78913 * (ce + 34) < 78913 * f" by simp_all
  then show "- 60 \<le> e + ce + 64" "e + ce + 64 \<le> - 32" by (simp_all add: f_def)
qed

end
