(* ===== verification/Json_Grisu_Correct.thy ===== *)
theory Json_Grisu_Correct
  imports Json_Powers
begin

text \<open>
  The digits of \<open>grisu2\<close> are correct: with the rounding errors of the cached powers and of the 64-bit
  products accounted for, they denote a number strictly between the middles to the neighbouring
  doubles, and every such number rounds to the double that was printed.
\<close>

section \<open>Scaled boundaries\<close>

lemma div_bounds64: "(n :: nat) div 2 ^ 64 * 2 ^ 64 \<le> n \<and> n < n div 2 ^ 64 * 2 ^ 64 + 2 ^ 64"
  using div_times_less_eq_dividend [of n "2 ^ 64"] dividend_less_div_times [of "2 ^ 64" n] by (simp only: add.commute) simp

text \<open>The rounded product is within one unit of the product with the exact power of ten.\<close>

lemma mul_close:
  fixes C :: rat
  assumes "\<bar>of_nat (unat (fp_f y)) - C\<bar> \<le> 1 / 2"
  shows "of_nat (unat (fp_f (diyfp_mul x y))) < of_nat (unat (fp_f x)) * C / 2 ^ 64 + 1"
    "of_nat (unat (fp_f x)) * C / 2 ^ 64 - 1 < of_nat (unat (fp_f (diyfp_mul x y)))"
    "of_nat (unat (fp_f (diyfp_mul x y))) \<le> of_nat (unat (fp_f x)) * of_nat (unat (fp_f y)) / 2 ^ 64 + (1 / 2 :: rat)"
    "of_nat (unat (fp_f x)) * of_nat (unat (fp_f y)) / 2 ^ 64 - (1 / 2 :: rat) < of_nat (unat (fp_f (diyfp_mul x y)))"
proof -
  define f c W where "f = unat (fp_f x)" and "c = unat (fp_f y)" and "W = unat (fp_f (diyfp_mul x y))"
  have f: "f < 2 ^ 64" unfolding f_def by (rule unat_less64)
  have W: "W = (f * c + 2 ^ 63) div 2 ^ 64" unfolding W_def f_def c_def by (rule diyfp_mul_f)
  then have "W * 2 ^ 64 \<le> f * c + 2 ^ 63" "f * c + 2 ^ 63 < W * 2 ^ 64 + 2 ^ 64"
    using div_bounds64 [of "f * c + 2 ^ 63"] by simp_all
  then have "(of_nat (W * 2 ^ 64) :: rat) \<le> of_nat (f * c + 2 ^ 63)" "(of_nat (f * c + 2 ^ 63) :: rat) < of_nat (W * 2 ^ 64 + 2 ^ 64)"
    by (simp_all only: of_nat_le_iff of_nat_less_iff)
  then have w: "(of_nat W :: rat) \<le> of_nat f * of_nat c / 2 ^ 64 + 1 / 2" "of_nat f * of_nat c / 2 ^ 64 - 1 / 2 < (of_nat W :: rat)"
    by (simp_all add: field_simps)
  then show "of_nat (unat (fp_f (diyfp_mul x y))) \<le> of_nat (unat (fp_f x)) * of_nat (unat (fp_f y)) / 2 ^ 64 + (1 / 2 :: rat)"
    "of_nat (unat (fp_f x)) * of_nat (unat (fp_f y)) / 2 ^ 64 - (1 / 2 :: rat) < of_nat (unat (fp_f (diyfp_mul x y)))"
    by (simp_all only: f_def c_def W_def)
  have "(of_nat f :: rat) < of_nat (2 ^ 64)" using f by (simp only: of_nat_less_iff)
  then have "\<bar>of_nat f * (of_nat c - C) / 2 ^ 64\<bar> < 1 / 2"
  proof -
    assume lt: "(of_nat f :: rat) < of_nat (2 ^ 64)"
    have "\<bar>of_nat f * (of_nat c - C)\<bar> \<le> of_nat f * (1 / 2)"
      unfolding abs_mult using assms by (intro mult_mono) (simp_all add: c_def)
    also have "\<dots> < 2 ^ 64 / 2" using lt by simp
    finally show ?thesis by (simp add: field_simps)
  qed
  then have "of_nat f * of_nat c / 2 ^ 64 < of_nat f * C / 2 ^ 64 + 1 / 2" "of_nat f * C / 2 ^ 64 - 1 / 2 < of_nat f * of_nat c / 2 ^ 64"
    by (simp_all add: field_simps abs_less_iff)
  with w show "of_nat (unat (fp_f (diyfp_mul x y))) < of_nat (unat (fp_f x)) * C / 2 ^ 64 + 1"
    "of_nat (unat (fp_f x)) * C / 2 ^ 64 - 1 < of_nat (unat (fp_f (diyfp_mul x y)))"
    unfolding f_def c_def W_def by linarith+
qed

text \<open>
  The boundaries \<open>P\<close> and \<open>Q\<close> as they arrive at \<open>grisu2\<close>: normalised, on one exponent, and apart by
  more than their size divided by \<open>2 ^ 53 + 1\<close>.
\<close>

definition scaled_ok :: "nat \<Rightarrow> nat \<Rightarrow> int \<Rightarrow> bool" where
  "scaled_ok P Q E \<longleftrightarrow> - 1137 \<le> E \<and> E \<le> 960 \<and> 2 ^ 63 \<le> P \<and> Q + 1536 \<le> P \<and> P \<le> (2 ^ 53 + 1) * (P - Q)"

lemma scaled_words:
  assumes ok: "scaled_ok P Q E" and P: "unat (fp_f mp) = P" and Q: "unat (fp_f mm) = Q"
    and c: "\<bar>of_nat (unat (fp_f c)) - C\<bar> \<le> (1 / 2 :: rat)" "2 ^ 63 \<le> unat (fp_f c)"
  defines "Wp \<equiv> unat (fp_f (diyfp_mul mp c))" and "Wm \<equiv> unat (fp_f (diyfp_mul mm c))"
  shows "2 ^ 62 \<le> Wp" "Wm + 2 < Wp" "Wp - 1 < 10 ^ 16 * (Wp - 1 - (Wm + 1))"
proof -
  define g :: rat where "g = of_nat (P - Q) * of_nat (unat (fp_f c)) / 2 ^ 64"
  note close = mul_close [OF c(1), of mp] mul_close [OF c(1), of mm]
  have QP: "Q \<le> P" using ok by (simp add: scaled_ok_def)
  have "(2 ^ 63 :: rat) \<le> of_nat (unat (fp_f c))" using c(2) by (metis of_nat_le_iff of_nat_numeral of_nat_power)
  moreover have "(1536 :: rat) \<le> of_nat (P - Q)" using ok by (simp add: scaled_ok_def le_diff_conv2)
  ultimately have "1536 * 2 ^ 63 \<le> of_nat (P - Q) * (of_nat (unat (fp_f c)) :: rat)" by (intro mult_mono) simp_all
  then have "1536 * 2 ^ 63 / 2 ^ 64 \<le> g" unfolding g_def by (rule divide_right_mono) simp
  then have g: "768 \<le> g" by simp
  have split: "of_nat P * of_nat (unat (fp_f c)) / 2 ^ 64 = g + of_nat Q * of_nat (unat (fp_f c)) / (2 ^ 64 :: rat)"
    using QP by (simp add: g_def of_nat_diff field_simps)
  have gap: "g - 1 < of_nat Wp - of_nat Wm"
    using close(4,7) split unfolding P Q Wp_def Wm_def by linarith
  show two: "Wm + 2 < Wp"
  proof -
    have "(of_nat (Wm + 2) :: rat) < of_nat Wp" using gap g by simp
    then show ?thesis by (simp only: of_nat_less_iff)
  qed
  have "2 ^ 63 * 2 ^ 63 \<le> unat (fp_f mp) * unat (fp_f c)"
    using ok c(2) by (intro mult_le_mono) (simp_all add: P scaled_ok_def)
  then have "(2 ^ 63 * 2 ^ 63 + 2 ^ 63) div 2 ^ 64 \<le> Wp"
    unfolding Wp_def diyfp_mul_f by (intro div_le_mono add_le_mono1)
  then show "2 ^ 62 \<le> Wp" by simp
  have "(of_nat P :: rat) \<le> of_nat ((2 ^ 53 + 1) * (P - Q))" using ok by (simp only: scaled_ok_def of_nat_le_iff)
  then have "of_nat P * of_nat (unat (fp_f c)) \<le> (of_nat ((2 ^ 53 + 1) * (P - Q)) * of_nat (unat (fp_f c)) :: rat)"
    by (rule mult_right_mono) (rule of_nat_0_le_iff)
  then have "of_nat P * of_nat (unat (fp_f c)) / 2 ^ 64 \<le> (2 ^ 53 + 1) * g"
    by (simp add: g_def)
  then have "of_nat Wp - 1 < (2 ^ 53 + 1) * g" using close(3) unfolding P Wp_def by linarith
  moreover have "(2 ^ 53 + 1) * g \<le> 10 ^ 16 * (g - 3)" using g by simp
  moreover have "10 ^ 16 * (g - 3) < 10 ^ 16 * (of_nat Wp - of_nat Wm - 2)" using gap by simp
  ultimately have "of_nat Wp - 1 < 10 ^ 16 * (of_nat Wp - of_nat Wm - (2 :: rat))" by linarith
  moreover have "of_nat (Wp - 1) = of_nat Wp - (1 :: rat)" "of_nat (Wp - 1 - (Wm + 1)) = of_nat Wp - of_nat Wm - (2 :: rat)"
    using two by (simp_all add: of_nat_diff)
  ultimately have "(of_nat (Wp - 1) :: rat) < of_nat (10 ^ 16 * (Wp - 1 - (Wm + 1)))"
    by (simp only: of_nat_mult of_nat_power of_nat_numeral)
  then show "Wp - 1 < 10 ^ 16 * (Wp - 1 - (Wm + 1))" by (simp only: of_nat_less_iff)
qed

lemma diyfp_mul_e: "fp_e (diyfp_mul x y) = fp_e x + fp_e y + 64"
  by (simp add: diyfp_mul_def Let_def)

lemma grisu2_diyfp_ends:
  assumes ok: "scaled_ok P Q E" and P: "unat (fp_f mp) = P" "fp_e mp = E" and Q: "unat (fp_f mm) = Q" "fp_e mm = E"
  shows "\<exists>buf k. grisu2_diyfp mm w mp = Some (buf, k) \<and> lead_digits buf \<and> last buf \<noteq> CHR ''0'' \<and> length buf \<le> 17 \<and>
    of_nat Q * 2 powi E < (of_nat (digits_val buf) * 10 powi k :: rat) \<and>
    of_nat (digits_val buf) * 10 powi k < (of_nat P * 2 powi E :: rat)"
proof -
  obtain cf ce ck where cached: "get_cached_power_for_binary_exponent E = (cf, ce, ck)"
    using prod_cases3 by blast
  have E: "- 1137 \<le> E" "E \<le> 960" using ok by (simp_all add: scaled_ok_def)
  note win = cached_power_window [OF E cached]
  define c where "c = \<lparr>fp_f = cf, fp_e = ce\<rparr>"
  define C :: rat where "C = 10 powi ck / 2 powi ce"
  have c: "\<bar>of_nat (unat (fp_f c)) - C\<bar> \<le> 1 / 2" "2 ^ 63 \<le> unat (fp_f c)"
    using win(1) by (simp_all add: power_exact_def c_def C_def)
  define Wp Wm where "Wp = unat (fp_f (diyfp_mul mp c))" and "Wm = unat (fp_f (diyfp_mul mm c))"
  note sw = scaled_words [OF ok P(1) Q(1) c, folded Wp_def Wm_def]
  define Mp where "Mp = \<lparr>fp_f = fp_f (diyfp_mul mp c) - 1, fp_e = fp_e (diyfp_mul mp c)\<rparr>"
  define Mm where "Mm = \<lparr>fp_f = fp_f (diyfp_mul mm c) + 1, fp_e = fp_e (diyfp_mul mm c)\<rparr>"
  have Mp: "unat (fp_f Mp) = Wp - 1" unfolding Mp_def using sw(1) by (simp add: unat_sub64 Wp_def)
  have "Wm + 1 < 2 ^ 64" using sw(2) unat_less64 [of "fp_f (diyfp_mul mp c)"] by (simp add: Wp_def)
  then have Mm: "unat (fp_f Mm) = Wm + 1" unfolding Mm_def by (simp add: unat_add64 Wm_def)
  define shift where "shift = nat (- (E + ce + 64))"
  have sh: "fp_e Mp = - int shift" "32 \<le> shift" "shift \<le> 60" "E + ce + 64 = - int shift"
    using win(2,3) P(2) by (auto simp: Mp_def diyfp_mul_e c_def shift_def)
  have "(2 :: nat) ^ shift \<le> 2 ^ 60" using sh(3) by (intro power_increasing) simp_all
  also have "2 ^ 60 \<le> Wp - 1" using sw(1) by simp
  finally have big: "2 ^ shift \<le> unat (fp_f Mp)" unfolding Mp .
  have lt: "unat (fp_f Mm) < unat (fp_f Mp)" using sw(2) by (simp add: Mp Mm)
  obtain buf k where gen: "grisu2_digit_gen (- ck) Mm (diyfp_mul w c) Mp = Some (buf, - ck + k)"
    "digits_between (Wm + 1) (Wp - 1) shift (buf, k)"
    using digit_gen_ends [OF sh(1-3) _ lt big, of "- ck" "diyfp_mul w c"] sw(3) unfolding Mp Mm by auto
  have run: "grisu2_diyfp mm w mp = Some (buf, - ck + k)"
    using gen(1) by (simp add: grisu2_diyfp_def P(2) cached Let_def Mp_def Mm_def c_def)
  define D :: rat where "D = of_nat (digits_val buf) * 10 powi k"
  have between: "of_nat (Wm + 1) \<le> D * 2 ^ shift" "D * 2 ^ shift \<le> of_nat (Wp - 1)"
    using gen(2) by (simp_all add: digits_between_def D_def)
  have "of_nat (Wp - 1) = of_nat Wp - (1 :: rat)" using sw(1) by (simp add: of_nat_diff)
  then have near: "D * 2 ^ shift < of_nat P * C / 2 ^ 64" "of_nat Q * C / 2 ^ 64 < D * 2 ^ shift"
    using between mul_close(1) [OF c(1), of mp] mul_close(2) [OF c(1), of mm]
    unfolding P(1) Q(1) Wp_def [symmetric] Wm_def [symmetric] by simp_all
  have "(2 powi E :: rat) = 1 / (2 powi ce * 2 ^ 64 * 2 ^ shift)"
  proof -
    have "E = - (ce + 64 + int shift)" using sh(4) by linarith
    then have "(2 powi E :: rat) = 2 powi (- (ce + 64 + int shift))" by (simp only:)
    also have "\<dots> = 1 / 2 powi (ce + 64 + int shift)" by (rule power_int_minus_divide)
    also have "(2 powi (ce + 64 + int shift) :: rat) = 2 powi ce * 2 ^ 64 * 2 ^ shift"
      using power_int_add [of "2 :: rat" "ce + 64" "int shift"] power_int_add [of "2 :: rat" ce 64]
      by (simp only: power_int_of_nat power_int_numeral) simp
    finally show ?thesis .
  qed
  then have scale: "of_nat n * 2 powi E = of_nat n * C / 2 ^ 64 / 2 ^ shift * 10 powi (- ck)" for n
    by (simp add: C_def power_int_minus field_simps)
  have D: "of_nat (digits_val buf) * 10 powi (- ck + k) = D * 2 ^ shift / 2 ^ shift * 10 powi (- ck)"
  proof -
    have "(10 powi (- ck + k) :: rat) = 10 powi (- ck) * 10 powi k" by (rule power_int_add) simp
    then show ?thesis unfolding D_def by (simp only: mult_ac nonzero_mult_div_cancel_left) simp
  qed
  have "of_nat Q * 2 powi E < (of_nat (digits_val buf) * 10 powi (- ck + k) :: rat)"
    "of_nat (digits_val buf) * 10 powi (- ck + k) < (of_nat P * 2 powi E :: rat)"
    unfolding D scale using near by (intro mult_strict_right_mono divide_strict_right_mono; simp)+
  then show ?thesis using run gen(2) by (auto simp: digits_between_def)
qed

section \<open>The shortest candidates are correct\<close>

text \<open>The middle between a double and its successor, and the middle between it and its predecessor.\<close>

definition upper_mid :: "nat \<Rightarrow> int \<Rightarrow> rat" where
  "upper_mid sig u = of_nat (2 * sig + 1) * 2 powi (u - 1)"

definition lower_mid :: "nat \<Rightarrow> int \<Rightarrow> rat" where
  "lower_mid sig u =
     (if sig = 2 ^ 52 \<and> - 1074 < u then of_nat (4 * sig - 1) * 2 powi (u - 2)
      else of_nat (2 * sig - 1) * 2 powi (u - 1))"

lemma powi_shift: "int k \<le> i \<Longrightarrow> of_nat (n * 2 ^ (nat i - k)) * 2 powi (u - i) = (of_nat n * 2 powi (u - int k) :: rat)"
proof -
  assume "int k \<le> i"
  then have "(2 :: rat) ^ (nat i - k) = 2 powi (i - int k)" by (simp add: power_int_def nat_diff_distrib)
  then have "of_nat (n * 2 ^ (nat i - k)) * 2 powi (u - i) = (of_nat n * (2 powi (i - int k) * 2 powi (u - i)) :: rat)"
    by simp
  also have "(2 powi (i - int k) * 2 powi (u - i) :: rat) = 2 powi (u - int k)"
    using power_int_add [of "2 :: rat" "i - int k" "u - i"] by simp
  finally show ?thesis .
qed

lemma mids_scaled:
  assumes "11 \<le> s"
  shows "of_nat ((2 * sig + 1) * 2 ^ (s - 1)) * 2 powi (u - int s) = upper_mid sig u"
    "of_nat (minus_f sig u s) * 2 powi (u - int s) = lower_mid sig u"
  using powi_shift [of 1 "int s" "2 * sig + 1" u] powi_shift [of 2 "int s" "4 * sig - 1" u]
    powi_shift [of 1 "int s" "2 * sig - 1" u] assms
  unfolding upper_mid_def lower_mid_def minus_f_def by (simp_all only: nat_int if_distrib [of of_nat]) auto

lemma boundaries_scaled_ok:
  assumes p: "double_parts x sig u" and s: "11 \<le> s" "2 ^ 63 \<le> sig * 2 ^ s" "sig * 2 ^ s < 2 ^ 64"
  shows "scaled_ok ((2 * sig + 1) * 2 ^ (s - 1)) (minus_f sig u s) (u - int s)"
proof -
  have sig: "0 < sig" "sig < 2 ^ 53" "- 1074 \<le> u" "u \<le> 971" using p by (simp_all add: double_parts_def)
  have "s < 64"
  proof (rule ccontr)
    assume "\<not> s < 64"
    then have "(2 :: nat) ^ 64 \<le> 2 ^ s" by (intro power_increasing) simp_all
    also have "\<dots> \<le> sig * 2 ^ s" using sig(1) by simp
    finally show False using s(3) by simp
  qed
  obtain r where r: "s = Suc (Suc r)" "9 \<le> r" using s(1) by (intro that [of "s - 2"]) simp_all
  have pow: "(2 :: nat) ^ 9 \<le> 2 ^ r" using r(2) by (intro power_increasing) simp_all
  have "minus_f sig u s + 1536 \<le> (2 * sig + 1) * 2 ^ (s - 1) \<and>
      (2 * sig + 1) * 2 ^ (s - 1) \<le> (2 ^ 53 + 1) * ((2 * sig + 1) * 2 ^ (s - 1) - minus_f sig u s)"
  proof (cases "sig = 2 ^ 52 \<and> - 1074 < u")
    case True
    then have m: "minus_f sig u s = (4 * sig - 1) * 2 ^ r" by (simp add: minus_f_def r(1))
    have P: "(2 * sig + 1) * 2 ^ (s - 1) = (4 * sig - 1) * 2 ^ r + 3 * 2 ^ r"
    proof -
      have "(2 * sig + 1) * 2 ^ (s - 1) = (4 * sig - 1 + 3) * 2 ^ r" using sig(1) by (simp add: r(1))
      then show ?thesis by (simp only: add_mult_distrib)
    qed
    have "(4 * sig - 1) * 2 ^ r + 3 * 2 ^ r \<le> (2 ^ 53 + 1) * (3 * 2 ^ r)" using True by simp
    then show ?thesis unfolding P m using pow by simp
  next
    case False
    then have m: "minus_f sig u s = (2 * sig - 1) * 2 ^ Suc r" unfolding minus_f_def by (simp only: r(1) if_False diff_Suc_1)
    have P: "(2 * sig + 1) * 2 ^ (s - 1) = (2 * sig - 1) * 2 ^ Suc r + 2 * 2 ^ Suc r"
    proof -
      have "(2 * sig + 1) * 2 ^ (s - 1) = (2 * sig - 1 + 2) * 2 ^ Suc r" using sig(1) by (simp add: r(1))
      then show ?thesis by (simp only: add_mult_distrib)
    qed
    have "(2 * sig - 1 + 2) * 2 ^ Suc r \<le> (2 ^ 53 + 1) * 2 * 2 ^ Suc r" using sig(2) by (intro mult_le_mono1) simp
    then have "(2 * sig - 1) * 2 ^ Suc r + 2 * 2 ^ Suc r \<le> (2 ^ 53 + 1) * (2 * 2 ^ Suc r)"
      by (simp only: add_mult_distrib mult.assoc)
    then show ?thesis unfolding P m using pow by simp
  qed
  then show ?thesis using plus_shift(2) [OF sig(2) s(2,3)] sig \<open>s < 64\<close> s(1) by (simp add: scaled_ok_def)
qed

lemma grisu2_ends:
  assumes "0 < x" "round64 x = Fin x"
  obtains sig buf k where "double_parts x sig (ulp_exp x)" "grisu2 x = Some (buf, k)" "lead_digits buf"
    "last buf \<noteq> CHR ''0''" "length buf \<le> 17"
    "lower_mid sig (ulp_exp x) < of_nat (digits_val buf) * 10 powi k"
    "of_nat (digits_val buf) * 10 powi k < upper_mid sig (ulp_exp x)"
proof -
  obtain sig s bd where b: "double_parts x sig (ulp_exp x)" "compute_boundaries x = Some bd" "11 \<le> s"
    "2 ^ 63 \<le> sig * 2 ^ s" "sig * 2 ^ s < 2 ^ 64"
    "unat (fp_f (bd_plus bd)) = (2 * sig + 1) * 2 ^ (s - 1)" "fp_e (bd_plus bd) = ulp_exp x - int s"
    "unat (fp_f (bd_minus bd)) = minus_f sig (ulp_exp x) s" "fp_e (bd_minus bd) = ulp_exp x - int s"
    by (rule compute_boundaries_ends [OF assms])
  from grisu2_diyfp_ends [OF boundaries_scaled_ok [OF b(1,3-5)] b(6-9), of "bd_w bd"] mids_scaled [OF b(3)]
  show ?thesis using b(1,2) by (auto simp: grisu2_def intro: that)
qed

section \<open>Rounding back\<close>

lemma ilog2_eq:
  assumes "2 powi k \<le> x" "x < 2 powi (k + 1)"
  shows "ilog2 x = k"
proof -
  have "(0 :: rat) < 2 powi k" by simp
  then have "0 < x" using assms(1) by linarith
  note b = ilog2_bounds [OF this]
  have "(2 powi ilog2 x :: rat) < 2 powi (k + 1)" "(2 powi k :: rat) < 2 powi (ilog2 x + 1)"
    using b assms by linarith+
  then show ?thesis by (simp add: powi_less_iff)
qed

lemma round_half_even_near:
  assumes "of_int n - 1 / 2 < z" "z < of_int n + 1 / 2"
  shows "round_half_even z = n"
proof (cases "of_int n \<le> z")
  case True
  then have "\<lfloor>z\<rfloor> = n" using assms(2) by (simp add: floor_unique)
  then show ?thesis using assms(2) by (simp add: round_half_even_def Let_def)
next
  case False
  then have "\<lfloor>z\<rfloor> = n - 1" using assms(1) by (intro floor_unique) simp_all
  then show ?thesis using assms(1) by (simp add: round_half_even_def Let_def)
qed

lemma round64_near:
  assumes "0 < x" "round64 x = Fin x" "0 < d" "x = of_int n * 2 powi ulp_exp d"
    and "(of_int n - 1 / 2) * 2 powi ulp_exp d < d" "d < (of_int n + 1 / 2) * 2 powi ulp_exp d"
  shows "round64 d = Fin x"
proof -
  have "ilog2 \<bar>x\<bar> < 1024" using assms(1,2) by (auto simp: round64_def Let_def split: if_splits)
  moreover have "round_half_even (d / 2 powi ulp_exp d) = n"
    using assms(5,6) by (intro round_half_even_near) (simp_all add: field_simps)
  ultimately show ?thesis using assms(1,3,4) by (simp add: round64_def Let_def)
qed

text \<open>Every number strictly between the two middles rounds to the double.\<close>

lemma round64_between:
  assumes x: "0 < x" "round64 x = Fin x" and p: "double_parts x sig (ulp_exp x)"
    and lo: "lower_mid sig (ulp_exp x) < d" and up: "d < upper_mid sig (ulp_exp x)"
  shows "round64 d = Fin x"
proof -
  define u where "u = ulp_exp x"
  define U :: rat where "U = 2 powi u"
  have U: "0 < U" by (simp add: U_def)
  have sig: "0 < sig" "sig < 2 ^ 53" "- 1074 \<le> u" "2 ^ 52 \<le> sig \<or> u = - 1074" "x = of_nat sig * U"
    using p by (simp_all add: double_parts_def u_def U_def)
  have s1: "1 \<le> (of_nat sig :: rat)" "of_nat sig \<le> (2 ^ 53 - 1 :: rat)"
    using sig(1,2) by (simp_all add: of_nat_le_iff [symmetric, where 'a = rat, of sig "2 ^ 53 - 1"] del: of_nat_le_iff) 
  have half: "(2 powi (u - 1) :: rat) = U / 2" "(2 powi (u - 2) :: rat) = U / 4"
    by (simp_all add: U_def power_int_diff)
  have up': "d < (of_nat sig + 1 / 2) * U" using up by (simp add: upper_mid_def u_def [symmetric] half field_simps)
  have lo4: "(of_nat sig - 1 / 4) * U < d" if "sig = 2 ^ 52 \<and> - 1074 < u"
    using lo that by (simp add: lower_mid_def u_def [symmetric] half field_simps)
  have lo2: "(of_nat sig - 1 / 2) * U < d"
  proof (cases "sig = 2 ^ 52 \<and> - 1074 < u")
    case True
    have "(of_nat sig - 1 / 2) * U \<le> (of_nat sig - 1 / 4) * U" using U by (intro mult_right_mono) simp_all
    then show ?thesis using lo4 [OF True] by linarith
  next
    case False
    have "(of_nat (2 * sig - 1) :: rat) = 2 * of_nat sig - 1" using sig(1) by (simp add: of_nat_diff)
    then show ?thesis using lo unfolding lower_mid_def u_def [symmetric] if_not_P [OF False] half
      by (simp add: field_simps)
  qed
  have "0 \<le> (of_nat sig - 1 / 2) * U" using s1(1) U by simp
  then have d: "0 < d" using lo2 by linarith
  have "(of_nat sig + 1 / 2) * U \<le> 2 ^ 53 * U" using s1(2) U by (intro mult_right_mono) simp_all
  also have "2 ^ 53 * U = 2 powi (u + 53)" by (simp add: U_def power_int_add)
  finally have top: "d < 2 powi (u + 53)" using up' by linarith
  have il: "ilog2 d < u + 53" using ilog2_less [OF d top] .
  have at_u: "round64 d = Fin x" if "ulp_exp d = u"
    using that sig(5) lo2 up' d x by (intro round64_near [of x d "int sig"]) (simp_all add: U_def)
  have pow52: "(2 powi (u + 52) :: rat) = 2 ^ 52 * U" by (simp add: U_def power_int_add)
  have above: "ulp_exp d = u" if "2 ^ 52 * U \<le> d"
  proof -
    have "2 powi (u + 52) \<le> d" "d < 2 powi (u + 52 + 1)" using that top pow52 by (simp_all add: add.assoc)
    then have "ilog2 d = u + 52" by (rule ilog2_eq)
    then show ?thesis using sig(3) d by (simp add: ulp_exp_def)
  qed
  consider "u = - 1074" | "- 1074 < u" "2 ^ 52 < sig" | "- 1074 < u" "sig = 2 ^ 52"
    using sig(3,4) by linarith
  then show ?thesis
  proof cases
    case 1
    then have "ulp_exp d = u" using il d by (simp add: ulp_exp_def)
    then show ?thesis by (rule at_u)
  next
    case 2
    then have "(2 ^ 52 :: rat) \<le> of_nat sig - 1 / 2"
      using of_nat_le_iff [of "2 ^ 52 + 1" sig, where 'a = rat] by simp
    then have "2 ^ 52 * U \<le> (of_nat sig - 1 / 2) * U" using U by (intro mult_right_mono) simp_all
    then show ?thesis using lo2 by (intro at_u above) linarith
  next
    case 3
    show ?thesis
    proof (cases "2 ^ 52 * U \<le> d")
      case True
      then show ?thesis by (intro at_u above)
    next
      case False
      have lo4': "(2 ^ 52 - 1 / 4) * U < d" using lo4 3 by simp
      have "2 ^ 51 * U \<le> (2 ^ 52 - 1 / 4) * U" using U by (intro mult_right_mono) simp_all
      moreover have "(2 powi (u + 51) :: rat) = 2 ^ 51 * U" by (simp add: U_def power_int_add)
      ultimately have "2 powi (u + 51) \<le> d" using lo4' by linarith
      moreover have "d < 2 powi (u + 51 + 1)" using False pow52 by (simp add: add.assoc)
      ultimately have "ilog2 d = u + 51" by (rule ilog2_eq)
      then have ulp: "ulp_exp d = u - 1" using 3(1) d by (simp add: ulp_exp_def)
      show ?thesis
        using x d sig(5) 3(2) lo4' False U unfolding half
        by (intro round64_near [of x d "2 ^ 53"]) (simp_all add: ulp half field_simps)
    qed
  qed
qed

end
