(* ===== verification/Json_Float.thy ===== *)
theory Json_Float
  imports Json_Grisu_Correct Json_Lexer
begin

text \<open>
  The text that \<open>to_chars\<close> writes for a double, and what \<open>strtod\<close> reads from it: every layout that
  \<open>format_buffer\<close> chooses is a JSON number with a fraction or an exponent, of at most 24 characters, and
  it denotes exactly the digits of \<open>grisu2\<close>, so that reading it rounds back to the double.
\<close>

section \<open>Decimal notation\<close>

lemma digits_val_append: "digits_val (a @ b) = digits_val a * 10 ^ length b + digits_val b"
proof (induction b rule: rev_induct)
  case Nil
  then show ?case by (simp add: digits_val_def)
next
  case (snoc c b)
  have "digits_val (a @ b @ [c]) = 10 * digits_val (a @ b) + digit_val c"
    using digits_val_snoc [of "a @ b" c] by simp
  then show ?case by (simp add: snoc digits_val_snoc algebra_simps)
qed

lemma digits_val_zeros [simp]: "digits_val (replicate n CHR ''0'') = 0" "digits_val [] = 0" "digits_val ''0'' = 0"
proof -
  show z: "digits_val (replicate n CHR ''0'') = 0" for n
    by (induction n) (simp_all add: digits_val_snoc replicate_append_same [symmetric] digit_val_def, simp add: digits_val_def)
  from z [of 0] z [of 1] show "digits_val [] = 0" "digits_val ''0'' = 0" by simp_all
qed

lemma digits_val_less: "list_all is_digit b \<Longrightarrow> digits_val b < 10 ^ length b"
proof (induction b rule: rev_induct)
  case (snoc c b)
  then have "digits_val b < 10 ^ length b" "digit_val c \<le> 9" by (auto simp: digit_val_def is_digit_def)
  then show ?case by (simp add: digits_val_snoc)
qed simp

lemma digits_val_lead: "lead_digits b \<Longrightarrow> 10 ^ (length b - 1) \<le> digits_val b"
proof (induction b rule: rev_induct)
  case (snoc c b)
  show ?case
  proof (cases "b = []")
    case True
    with snoc.prems have c: "is_digit c" "c \<noteq> CHR ''0''" by (simp_all add: lead_digits_def)
    have "of_char c \<noteq> (48 :: nat)"
    proof
      assume "of_char c = (48 :: nat)"
      then have "(of_char c :: nat) = of_char CHR ''0''" by simp
      with c(2) show False by (simp only: of_char_eq_iff)
    qed
    with c(1) have "49 \<le> (of_char c :: nat)" unfolding is_digit_def by linarith
    then show ?thesis by (simp add: True digits_val_def digit_val_def is_digit_def)
  next
    case False
    with snoc have "10 ^ (length b - 1) \<le> digits_val b" by (simp add: lead_digits_def hd_append)
    then have "10 * 10 ^ (length b - 1) \<le> 10 * digits_val b" by simp
    moreover have "10 * 10 ^ (length b - 1) = (10 :: nat) ^ length b" using False by (cases b) simp_all
    ultimately show ?thesis by (simp add: digits_val_snoc)
  qed
qed (simp add: lead_digits_def)

text \<open>An integral part, a fraction and an exponent, the last two possibly absent.\<close>

definition decimal_text :: "string \<Rightarrow> string option \<Rightarrow> string option \<Rightarrow> string" where
  "decimal_text ip fp ep =
     ip @ (case fp of None \<Rightarrow> [] | Some f \<Rightarrow> CHR ''.'' # f) @ (case ep of None \<Rightarrow> [] | Some e \<Rightarrow> CHR ''e'' # e)"

lemma takeWhile_digits:
  assumes "list_all is_digit ds" "\<not> is_digit c"
  shows "takeWhile is_digit (ds @ c # t) = ds" "dropWhile is_digit (ds @ c # t) = c # t"
    "takeWhile is_digit ds = ds" "dropWhile is_digit ds = []"
  using assms by (auto simp: list_all_iff takeWhile_append dropWhile_append)

lemma decimal_val_text:
  assumes "list_all is_digit ip" "case fp of None \<Rightarrow> True | Some f \<Rightarrow> list_all is_digit f"
  shows "decimal_val (decimal_text ip fp ep) =
    of_nat (digits_val (ip @ (case fp of None \<Rightarrow> [] | Some f \<Rightarrow> f)))
      * 10 powi ((case ep of None \<Rightarrow> 0 | Some e \<Rightarrow> exponent_val e) - int (case fp of None \<Rightarrow> 0 | Some f \<Rightarrow> length f))"
proof -
  have nd: "\<not> is_digit CHR ''.''" "\<not> is_digit CHR ''e''" by (simp_all add: is_digit_def)
  note tw = takeWhile_digits [OF assms(1) nd(1)] takeWhile_digits [OF assms(1) nd(2)]
  show ?thesis
  proof (cases fp)
    case None
    then show ?thesis by (cases ep) (simp_all add: decimal_text_def decimal_val_def tw)
  next
    case (Some f)
    with assms(2) have f: "list_all is_digit f" by simp
    note tf = takeWhile_digits [OF f nd(2)]
    from Some show ?thesis by (cases ep) (simp_all add: decimal_text_def decimal_val_def tw tf)
  qed
qed

lemma append_exponent_val:
  assumes "\<bar>e\<bar> < 1000"
  shows "exponent_val (append_exponent e) = e"
    and "\<exists>sg es. append_exponent e = sg # es \<and> sg \<in> set ''+-'' \<and> es \<noteq> [] \<and> list_all is_digit es \<and> length es \<le> 3"
proof -
  define k where "k = nat \<bar>e\<bar>"
  have k: "k < 1000" using assms by (simp add: k_def)
  define es where "es = (if k < 10 then [CHR ''0'', char_of (48 + k)]
          else if k < 100 then [char_of (48 + k div 10), char_of (48 + k mod 10)]
          else [char_of (48 + k div 100), char_of (48 + k mod 100 div 10),
                char_of (48 + k mod 100 mod 10)])"
  have app: "append_exponent e = (if e < 0 then CHR ''-'' else CHR ''+'') # es"
    unfolding append_exponent_def Let_def es_def k_def by (simp split: if_split)
  have dg: "digit_val (char_of (48 + d)) = d" "is_digit (char_of (48 + d))" if "d < 10" for d :: nat
    using that by (simp_all add: digit_val_def is_digit_def of_char_of)
  have "list_all is_digit es" "es \<noteq> []" "length es \<le> 3"
    using k dg by (auto simp: es_def is_digit_def)
  moreover have "digits_val es = k"
    using k by (auto simp: es_def digits_val_def dg digit_val_def [of "CHR ''0''"])
  ultimately show "exponent_val (append_exponent e) = e"
      "\<exists>sg es. append_exponent e = sg # es \<and> sg \<in> set ''+-'' \<and> es \<noteq> [] \<and> list_all is_digit es \<and> length es \<le> 3"
    by (auto simp: app exponent_val_def k_def)
qed

section \<open>The text of a double\<close>

definition float_shape :: "string \<Rightarrow> string option \<Rightarrow> string option \<Rightarrow> bool" where
  "float_shape ip fp ep \<longleftrightarrow>
     (ip = ''0'' \<or> lead_digits ip) \<and> (fp \<noteq> None \<or> ep \<noteq> None) \<and>
     (\<forall>f. fp = Some f \<longrightarrow> f \<noteq> [] \<and> list_all is_digit f) \<and>
     (\<forall>e. ep = Some e \<longrightarrow> (\<exists>sg es. e = sg # es \<and> sg \<in> set ''+-'' \<and> es \<noteq> [] \<and> list_all is_digit es))"

definition prints_as :: "string \<Rightarrow> rat \<Rightarrow> bool" where
  "prints_as t v \<longleftrightarrow> (\<exists>ip fp ep. t = decimal_text ip fp ep \<and> float_shape ip fp ep) \<and> decimal_val t = v \<and> length t \<le> 23"

lemma prints_asI:
  assumes "float_shape ip fp ep"
    "of_nat (digits_val (ip @ (case fp of None \<Rightarrow> [] | Some f \<Rightarrow> f)))
      * 10 powi ((case ep of None \<Rightarrow> 0 | Some e \<Rightarrow> exponent_val e) - int (case fp of None \<Rightarrow> 0 | Some f \<Rightarrow> length f)) = v"
    "t = decimal_text ip fp ep" "length t \<le> 23"
  shows "prints_as t v"
proof -
  have "list_all is_digit ip" using assms(1) by (auto simp: float_shape_def lead_digits_def is_digit_def)
  moreover have "case fp of None \<Rightarrow> True | Some f \<Rightarrow> list_all is_digit f"
    using assms(1) by (auto simp: float_shape_def split: option.split)
  ultimately have "decimal_val t = v" using decimal_val_text assms(2,3) by simp
  then show ?thesis using assms unfolding prints_as_def by blast
qed

lemma all_digits_zeros: "list_all is_digit (replicate n CHR ''0'')"
  by (simp add: list_all_iff is_digit_def)

lemma lead_take: "lead_digits b \<Longrightarrow> 0 < n \<Longrightarrow> lead_digits (take n b)"
  by (cases b; cases n) (auto simp: lead_digits_def list_all_iff dest: in_set_takeD)

lemma format_buffer_prints:
  assumes buf: "lead_digits buf" "length buf \<le> 17" and n: "\<bar>int (length buf) + k - 1\<bar> < 1000"
  shows "prints_as (format_buffer buf k (- 4) 15) (of_nat (digits_val buf) * 10 powi k)"
proof -
  define l where "l = length buf"
  have l: "0 < l" "l \<le> 17" and dg: "list_all is_digit buf" using buf by (simp_all add: lead_digits_def l_def)
  have pw: "10 ^ m * 10 powi i = (10 powi (int m + i) :: rat)" for m i by (simp add: power_int_add)
  consider (ints) "0 \<le> k" "int l + k \<le> 15" | (mid) "k < 0" "0 < int l + k" "int l + k \<le> 15"
    | (small) "- 4 < int l + k" "int l + k \<le> 0" | (sci) "\<not> (0 \<le> k \<and> int l + k \<le> 15)"
      "\<not> (0 < int l + k \<and> int l + k \<le> 15)" "\<not> (- 4 < int l + k \<and> int l + k \<le> 0)"
    by linarith
  then show ?thesis
  proof cases
    case ints
    let ?ip = "buf @ replicate (nat k) CHR ''0''"
    have "lead_digits ?ip" using buf(1) by (simp add: lead_digits_def all_digits_zeros)
    then have "float_shape ?ip (Some ''0'') None" by (simp add: float_shape_def is_digit_def)
    then show ?thesis
    proof (rule prints_asI)
      have "digits_val (?ip @ ''0'') = digits_val buf * 10 ^ Suc (nat k)"
        by (simp add: digits_val_append)
      then show "of_nat (digits_val (?ip @ (case Some ''0'' of None \<Rightarrow> [] | Some f \<Rightarrow> f)))
          * 10 powi ((case None of None \<Rightarrow> 0 | Some e \<Rightarrow> exponent_val e) - int (case Some ''0'' of None \<Rightarrow> 0 | Some f \<Rightarrow> length f))
        = (of_nat (digits_val buf) * 10 powi k :: rat)"
        using ints(1) pw [of "Suc (nat k)" "- 1"] by (simp add: mult.assoc)
      show "format_buffer buf k (- 4) 15 = decimal_text ?ip (Some ''0'') None"
        using ints by (simp add: format_buffer_def decimal_text_def Let_def l_def)
      show "length (format_buffer buf k (- 4) 15) \<le> 23"
        using ints by (simp add: format_buffer_def Let_def l_def)
    qed
  next
    case mid
    define m where "m = nat (int l + k)"
    have m: "0 < m" "m < l" "int l + k = int m" "int m - int l = k" using mid by (simp_all add: m_def)
    have fb: "format_buffer buf k (- 4) 15 = decimal_text (take m buf) (Some (drop m buf)) None"
      using mid m by (simp add: format_buffer_def decimal_text_def Let_def l_def m_def)
    have "float_shape (take m buf) (Some (drop m buf)) None"
      using lead_take [OF buf(1) m(1)] m(2) dg
      by (auto simp: float_shape_def l_def list_all_iff dest: in_set_dropD)
    then show ?thesis
    proof (rule prints_asI)
      show "of_nat (digits_val (take m buf @ (case Some (drop m buf) of None \<Rightarrow> [] | Some f \<Rightarrow> f)))
          * 10 powi ((case None of None \<Rightarrow> 0 | Some e \<Rightarrow> exponent_val e) - int (case Some (drop m buf) of None \<Rightarrow> 0 | Some f \<Rightarrow> length f))
        = (of_nat (digits_val buf) * 10 powi k :: rat)"
        using m by (simp add: l_def [symmetric] of_nat_diff)
      show "length (format_buffer buf k (- 4) 15) \<le> 23"
        unfolding fb using l m by (simp add: decimal_text_def l_def)
    qed (rule fb)
  next
    case small
    define m where "m = nat (- (int l + k))"
    have m: "m < 4" "- int m - int l = k" using small by (simp_all add: m_def)
    let ?fp = "replicate m CHR ''0'' @ buf"
    have "\<not> 0 \<le> k" using small(2) l(1) by linarith
    then have fb: "format_buffer buf k (- 4) 15 = decimal_text ''0'' (Some ?fp) None"
      using small(1) not_less [THEN iffD2, OF small(2)]
      by (simp add: format_buffer_def decimal_text_def Let_def l_def [symmetric] m_def)
    have "float_shape ''0'' (Some ?fp) None"
      using buf(1) by (simp add: float_shape_def all_digits_zeros lead_digits_def)
    then show ?thesis
    proof (rule prints_asI)
      have "digits_val (''0'' @ ?fp) = digits_val buf"
        by (simp only: digits_val_append digits_val_zeros mult_0 add_0)
      then show "of_nat (digits_val (''0'' @ (case Some ?fp of None \<Rightarrow> [] | Some f \<Rightarrow> f)))
          * 10 powi ((case None of None \<Rightarrow> 0 | Some e \<Rightarrow> exponent_val e) - int (case Some ?fp of None \<Rightarrow> 0 | Some f \<Rightarrow> length f))
        = (of_nat (digits_val buf) * 10 powi k :: rat)"
        using m(2) by (simp add: l_def [symmetric])
      show "length (format_buffer buf k (- 4) 15) \<le> 23"
        unfolding fb using l m by (simp add: decimal_text_def l_def)
    qed (rule fb)
  next
    case sci
    define e where "e = int l + k - 1"
    have e: "\<bar>e\<bar> < 1000" using n by (simp add: e_def l_def)
    note ex = append_exponent_val [OF e]
    from ex(2) have elen: "length (append_exponent e) \<le> 4" by auto
    let ?fp = "if l = 1 then None else Some (drop 1 buf)"
    have fb: "format_buffer buf k (- 4) 15 = decimal_text (take 1 buf) ?fp (Some (append_exponent e))"
      using sci l by (auto simp: format_buffer_def decimal_text_def Let_def l_def e_def)
    have "lead_digits (take 1 buf)" by (rule lead_take [OF buf(1)]) simp
    then have "float_shape (take 1 buf) ?fp (Some (append_exponent e))"
      using ex(2) dg l by (auto simp: float_shape_def list_all_iff l_def le_Suc_eq dest: in_set_dropD)
    then show ?thesis
    proof (rule prints_asI)
      show "of_nat (digits_val (take 1 buf @ (case ?fp of None \<Rightarrow> [] | Some f \<Rightarrow> f)))
          * 10 powi ((case Some (append_exponent e) of None \<Rightarrow> 0 | Some e \<Rightarrow> exponent_val e) - int (case ?fp of None \<Rightarrow> 0 | Some f \<Rightarrow> length f))
        = (of_nat (digits_val buf) * 10 powi k :: rat)"
      proof (cases "l = 1")
        case True
        then have "take 1 buf = buf" "e = k" by (simp_all add: l_def e_def)
        then show ?thesis using True ex(1) by simp
      next
        case False
        have "e - int (length (drop 1 buf)) = k" using l by (simp add: e_def l_def [symmetric] of_nat_diff)
        then show ?thesis using False by (simp add: ex(1) del: drop_Suc length_drop One_nat_def)
      qed
      show "length (format_buffer buf k (- 4) 15) \<le> 23"
        unfolding fb using l elen by (auto simp: decimal_text_def l_def)
    qed (rule fb)
  qed
qed

lemma powi10_less: "(10 powi i :: rat) < 10 powi j \<Longrightarrow> i < j"
  using power_int_increasing [of j i "10 :: rat"] by (cases "i < j") auto

lemma powi_2_10: "(2 powi 1080 :: rat) \<le> 10 powi 900" "10 powi (- 900) \<le> (2 powi (- 1080) :: rat)"
proof -
  have "(2 :: rat) powi 1080 = (2 powi 3) powi 360" by (simp only: power_int_mult [symmetric]) simp
  also have "\<dots> \<le> 10 powi 360" by (intro power_int_mono) simp_all
  also have "\<dots> \<le> (10 powi 900 :: rat)" by (intro power_int_increasing) simp_all
  finally show le: "(2 powi 1080 :: rat) \<le> 10 powi 900" .
  then have "inverse (10 powi 900) \<le> inverse (2 powi 1080 :: rat)" by (rule le_imp_inverse_le) simp
  then show "10 powi (- 900) \<le> (2 powi (- 1080) :: rat)" by (simp only: power_int_minus)
qed

text \<open>The digits and the exponent that \<open>grisu2\<close> returns stay far from the limits of \<open>append_exponent\<close>.\<close>

lemma mids_range:
  assumes p: "double_parts x sig u" and lo: "lower_mid sig u < v" and up: "v < upper_mid sig u"
  shows "10 powi (- 900) < v" "v < 10 powi 900"
proof -
  have sig: "0 < sig" "sig < 2 ^ 53" "- 1074 \<le> u" "u \<le> 971" using p by (simp_all add: double_parts_def)
  have "(of_nat (2 * sig + 1) :: rat) \<le> 2 powi 54"
    using sig(2) of_nat_le_iff [of "2 * sig + 1" "2 ^ 54", where 'a = rat] by simp
  moreover have "(2 powi (u - 1) :: rat) \<le> 2 powi 970" using sig(4) by (intro power_int_increasing) simp_all
  ultimately have "upper_mid sig u \<le> 2 powi 54 * 2 powi 970"
    unfolding upper_mid_def by (intro mult_mono) simp_all
  also have "\<dots> = (2 powi 1024 :: rat)" by (subst power_int_add [symmetric]) simp_all
  also have "\<dots> \<le> 2 powi 1080" by (intro power_int_increasing) simp_all
  also note powi_2_10(1)
  finally show "v < 10 powi 900" by (rule order_less_le_trans [OF up])
  have one: "2 powi (- 1076) \<le> c * 2 powi i" if "1 \<le> c" "- 1076 \<le> i" for c :: rat and i :: int
  proof -
    have "(2 powi (- 1076) :: rat) \<le> 1 * 2 powi i" using that(2) by (simp only: mult_1 power_int_increasing one_le_numeral)
    also have "\<dots> \<le> c * 2 powi i" using that(1) by (intro mult_right_mono) simp_all
    finally show ?thesis .
  qed
  have "2 powi (- 1076) \<le> lower_mid sig u"
  proof (cases "sig = 2 ^ 52 \<and> - 1074 < u")
    case True
    then have "1 \<le> (of_nat (4 * sig - 1) :: rat)" by simp
    moreover have "- 1076 \<le> u - 2" using sig(3) by simp
    ultimately have "2 powi (- 1076) \<le> (of_nat (4 * sig - 1) * 2 powi (u - 2) :: rat)" by (rule one)
    then show ?thesis unfolding lower_mid_def if_P [OF True] .
  next
    case False
    have "1 \<le> (of_nat (2 * sig - 1) :: rat)" using sig(1) by simp
    moreover have "- 1076 \<le> u - 1" using sig(3) by simp
    ultimately have "2 powi (- 1076) \<le> (of_nat (2 * sig - 1) * 2 powi (u - 1) :: rat)" by (rule one)
    then show ?thesis unfolding lower_mid_def if_not_P [OF False] .
  qed
  moreover have "(2 powi (- 1080) :: rat) \<le> 2 powi (- 1076)" by (intro power_int_increasing) simp_all
  moreover note powi_2_10(2)
  ultimately have "10 powi (- 900) \<le> lower_mid sig u" by (metis order_trans)
  then show "10 powi (- 900) < v" using lo by (rule order_le_less_trans)
qed

lemma grisu2_exponent:
  fixes v :: rat
  assumes "lead_digits buf" "10 powi (- 900) < v" "v < 10 powi 900" "v = of_nat (digits_val buf) * 10 powi k"
  shows "\<bar>int (length buf) + k - 1\<bar> < 1000"
proof -
  define l where "l = length buf"
  have dg: "list_all is_digit buf" "0 < l" using assms(1) by (simp_all add: lead_digits_def l_def)
  have pw: "10 ^ m * 10 powi k = (10 powi (int m + k) :: rat)" for m by (simp add: power_int_add)
  have "(of_nat (digits_val buf) :: rat) < of_nat (10 ^ l)"
    using digits_val_less [OF dg(1)] unfolding l_def by (simp only: of_nat_less_iff)
  then have "v < 10 ^ l * 10 powi k" unfolding assms(4) by (intro mult_strict_right_mono) simp_all
  then have "(10 powi (- 900) :: rat) < 10 powi (int l + k)" using assms(2) unfolding pw by (metis order_less_trans)
  then have "- 900 < int l + k" by (rule powi10_less)
  moreover have "of_nat (10 ^ (l - 1)) \<le> (of_nat (digits_val buf) :: rat)"
    using digits_val_lead [OF assms(1)] unfolding l_def by (simp only: of_nat_le_iff)
  then have "10 ^ (l - 1) * 10 powi k \<le> v" unfolding assms(4) by (intro mult_right_mono) simp_all
  then have "(10 powi (int (l - 1) + k) :: rat) < 10 powi 900" using assms(3) unfolding pw by (metis order_le_less_trans)
  then have "int (l - 1) + k < 900" by (rule powi10_less)
  ultimately show ?thesis unfolding l_def [symmetric] using dg(2) by (simp add: of_nat_diff)
qed

text \<open>
  The text of every finite double: it has the shape of a JSON number with a fraction or an exponent,
  it fits the 64 characters of \<open>number_buffer\<close>, and the number it denotes rounds to the double.
\<close>

lemma to_chars_prints:
  assumes "round64 x = Fin x"
  obtains t where "to_chars (x < 0) x = Some ((if x < 0 then ''-'' else []) @ t)" "prints_as t (decimal_val t)"
    "round64 (decimal_val t) = Fin \<bar>x\<bar>"
proof (cases "x = 0")
  case True
  have "prints_as ''0.0'' 0"
    by (rule prints_asI [of "''0''" "Some ''0''" None]) (simp_all add: float_shape_def is_digit_def decimal_text_def digits_val_def digit_val_def)
  moreover have "decimal_val ''0.0'' = 0" using calculation by (simp add: prints_as_def)
  ultimately show ?thesis using True by (intro that [of "''0.0''"]) (simp_all add: to_chars_def round64_def)
next
  case False
  define y where "y = \<bar>x\<bar>"
  have y: "0 < y" "round64 y = Fin y" using False assms round64_minus [OF assms] by (auto simp: y_def abs_if)
  obtain sig buf k where g: "double_parts y sig (ulp_exp y)" "grisu2 y = Some (buf, k)" "lead_digits buf"
    "length buf \<le> 17" "lower_mid sig (ulp_exp y) < of_nat (digits_val buf) * 10 powi k"
    "of_nat (digits_val buf) * 10 powi k < upper_mid sig (ulp_exp y)"
    using grisu2_ends [OF y] by metis
  have pr: "prints_as (format_buffer buf k (- 4) 15) (of_nat (digits_val buf) * 10 powi k)"
    using g(3,4) by (intro format_buffer_prints grisu2_exponent [OF g(3) mids_range [OF g(1,5,6)] refl])
  then have "decimal_val (format_buffer buf k (- 4) 15) = of_nat (digits_val buf) * 10 powi k"
    by (simp add: prints_as_def)
  with pr round64_between [OF y g(1,5,6)] False g(2) show ?thesis
    by (cases "x < 0"; intro that [of "format_buffer buf k (- 4) 15"]) (simp_all add: to_chars_def y_def Let_def)
qed

text \<open>\<open>strtod\<close> returns doubles, and it inverts \<open>to_chars\<close>.\<close>

lemma strtod_double: "strtod s = Fin x \<Longrightarrow> round64 x = Fin x"
  by (auto simp: strtod_def round64_def [of 0] split: list.splits if_splits intro: round64_idem)

lemma prints_as_digit:
  assumes "prints_as t v"
  obtains d ds where "t = d # ds" "is_digit d"
proof -
  obtain ip fp ep where t: "t = decimal_text ip fp ep" "float_shape ip fp ep" using assms unfolding prints_as_def by blast
  then obtain d ds where "ip = d # ds" "is_digit d"
    by (cases ip) (auto simp: float_shape_def lead_digits_def is_digit_def)
  then show ?thesis using t(1) by (intro that) (auto simp: decimal_text_def)
qed

lemma to_chars_strtod:
  assumes "round64 x = Fin x"
  obtains t where "to_chars (x < 0) x = Some ((if x < 0 then ''-'' else []) @ t)" "prints_as t (decimal_val t)"
    "strtod ((if x < 0 then ''-'' else []) @ t) = Fin x"
proof -
  obtain t where t: "to_chars (x < 0) x = Some ((if x < 0 then ''-'' else []) @ t)" "prints_as t (decimal_val t)"
    "round64 (decimal_val t) = Fin \<bar>x\<bar>"
    using to_chars_prints [OF assms] .
  obtain d ds where d: "t = d # ds" "is_digit d" using prints_as_digit [OF t(2)] .
  have "strtod ((if x < 0 then ''-'' else []) @ t) = Fin x"
    using t(3) d round64_minus [OF t(3)] by (auto simp: strtod_def is_digit_def)
  with t show ?thesis using that by blast
qed

end
