(* ===== verification/Json_Values.thy ===== *)
theory Json_Values
  imports Json_Text Json_Float
begin

text \<open>
  The invariant of parsed values: strings are well-formed UTF-8, integers fit 64 bits, floats are
  finite doubles and object keys are sorted without duplicates. Every value that the parser returns
  satisfies it, and \<open>dump\<close> never throws on a value that does.
\<close>

fun json_wf :: "json \<Rightarrow> bool" where
  "json_wf JNull = True"
| "json_wf (JBool _) = True"
| "json_wf (JInt i) = (- (2 ^ 63) \<le> i \<and> i < 2 ^ 63)"
| "json_wf (JUint n) = (n < 2 ^ 64)"
| "json_wf (JFloat x) = (case x of Fin r \<Rightarrow> round64 r = Fin r | _ \<Rightarrow> False)"
| "json_wf (JString s) = utf8_ok s"
| "json_wf (JArray vs) = list_all json_wf vs"
| "json_wf (JObject m) = (map_sorted m \<and> list_all (\<lambda>(k, v). utf8_ok k \<and> json_wf v) m)"

section \<open>Tokens\<close>

definition token_ok :: "token_type \<times> lexer \<Rightarrow> bool" where
  "token_ok r \<longleftrightarrow>
     (fst r = value_string \<longrightarrow> utf8_ok (token_buffer (snd r))) \<and>
     (fst r = value_unsigned \<longrightarrow> num_unsigned (snd r) < 2 ^ 64) \<and>
     (fst r = value_integer \<longrightarrow> - (2 ^ 63) \<le> num_integer (snd r) \<and> num_integer (snd r) < 2 ^ 63) \<and>
     (fst r = value_float \<longrightarrow> (\<forall>x. num_float (snd r) = Fin x \<longrightarrow> round64 x = Fin x))"

abbreviation number_type :: "token_type \<Rightarrow> bool" where
  "number_type ty \<equiv> ty = value_unsigned \<or> ty = value_integer \<or> ty = value_float"

lemma strtoull_less: "strtoull s = Some n \<Longrightarrow> n < 2 ^ 64"
  by (auto simp: strtoull_def Let_def split: if_splits)

lemma strtoll_range: "strtoll s = Some i \<Longrightarrow> - (2 ^ 63) \<le> i \<and> i < 2 ^ 63"
  unfolding strtoll_def Let_def by (metis option.distinct(1) option.inject)

lemma token_ok_error [simp]: "token_ok (lex_error m s)"
  by (simp add: token_ok_def lex_error_def)

lemma token_ok_done [simp]: "token_ok (scan_number_done ty s)"
  using strtoull_less strtoll_range strtod_double
  by (simp add: token_ok_def scan_number_done_def scan_number_float_def Let_def split: option.split)

lemma token_ok_any2 [simp]: "token_ok (scan_number_any2 ty s)"
proof (induction ty s rule: scan_number_any2.induct)
  case (1 ty s)
  then show ?case by (subst scan_number_any2.simps) simp
qed

lemma token_ok_exponent [simp]: "token_ok (scan_number_exponent s)"
  by (simp add: scan_number_exponent_def scan_number_sign_def Let_def)

lemma token_ok_decimal2 [simp]: "token_ok (scan_number_decimal2 s)"
proof (induction s rule: scan_number_decimal2.induct)
  case (1 s)
  then show ?case by (subst scan_number_decimal2.simps) simp
qed

lemma token_ok_decimal1 [simp]: "token_ok (scan_number_decimal1 s)"
  by (simp add: scan_number_decimal1_def Let_def)

lemma token_ok_any1 [simp]: "token_ok (scan_number_any1 ty s)"
proof (induction ty s rule: scan_number_any1.induct)
  case (1 ty s)
  then show ?case by (subst scan_number_any1.simps) simp
qed

lemma token_ok_number [simp]: "token_ok (scan_number s)"
  by (simp add: scan_number_def scan_number_minus_def scan_number_zero_def Let_def)

lemma token_ok_literal [simp]:
  "t \<in> {literal_true, literal_false, literal_null} \<Longrightarrow> token_ok (scan_literal l t s)"
proof -
  assume t: "t \<in> {literal_true, literal_false, literal_null}"
  have "token_ok (scan_literal_loop ls t s)" for ls
    using t by (induction ls t s rule: scan_literal_loop.induct) (auto simp: token_ok_def lex_error_def Let_def)
  then show ?thesis by (simp add: scan_literal_def)
qed

lemma scan_string_loop_types:
  "fst (scan_string_loop s) = value_string \<or> fst (scan_string_loop s) = parse_error"
proof (induction s rule: scan_string_loop.induct)
  case (1 s)
  obtain t s1 where st: "scan_string_step (lex_get s) = (t, s1)" by fastforce
  show ?case
  proof (cases t)
    case None
    with 1 [OF st [symmetric]] st show ?thesis by (simp add: scan_string_loop.simps [of s])
  next
    case (Some x)
    with st have "x = value_string \<or> x = parse_error"
      by (auto simp: scan_string_step_def scan_escape_def scan_unicode_def lex_error_def Let_def case_prod_unfold
          split: option.splits if_splits)
    with Some st show ?thesis by (simp add: scan_string_loop.simps [of s])
  qed
qed

lemma token_ok_string [simp]: "token_ok (scan_string s)"
proof -
  obtain t s' where r: "scan_string_loop (lex_reset s) = (t, s')" by fastforce
  have "token_buffer (lex_reset s) = []" by (simp add: lex_reset_def)
  with r scan_string_loop_utf8 [of "lex_reset s" s'] scan_string_loop_types [of "lex_reset s"] show ?thesis
    by (auto simp: scan_string_def token_ok_def)
qed

lemma token_ok_scan: "token_ok (scan s)"
proof -
  have "token_ok (scan_token t)" for t
  proof (cases "current t")
    case None
    then show ?thesis by (simp add: scan_token_def token_ok_def)
  next
    case (Some c)
    have simple: "token_ok (x, t)" if "x \<in> {begin_array, end_array, begin_object, end_object, name_separator, value_separator, end_of_input}" for x
      using that by (auto simp: token_ok_def)
    show ?thesis by (simp add: scan_token_def Some simple)
  qed
  then show ?thesis by (simp add: scan_def case_prod_unfold Let_def)
qed

section \<open>The parser\<close>

fun frame_ok :: "frame \<Rightarrow> bool" where
  "frame_ok (FArray vs) = list_all json_wf vs"
| "frame_ok (FObject m k) = (json_wf (JObject m) \<and> utf8_ok k)"

definition parser_ok :: "parser \<Rightarrow> bool" where
  "parser_ok p \<longleftrightarrow> token_ok (last_token p, m_lexer p) \<and> list_all frame_ok (ref_stack p) \<and> json_wf (root p)"

lemma list_all_map_put: "list_all P m \<Longrightarrow> P (k, v) \<Longrightarrow> list_all P (map_put k v m)"
  by (induction k v m rule: map_put.induct) auto

lemma frame_ok_place: "list_all frame_ok fs \<Longrightarrow> json_wf v \<Longrightarrow> list_all frame_ok (place v fs)"
  by (cases "(v, fs)" rule: place.cases) (auto intro: list_all_map_put)

lemma parser_ok_get_token: "list_all frame_ok (ref_stack p) \<Longrightarrow> json_wf (root p) \<Longrightarrow> parser_ok (get_token p)"
  using token_ok_scan [of "m_lexer p"] by (simp add: parser_ok_def get_token_def case_prod_unfold Let_def)

lemma parser_ok_states [simp]: "parser_ok (p\<lparr>states := st\<rparr>) = parser_ok p"
  by (simp add: parser_ok_def)

lemma parser_ok_get [simp, intro]: "parser_ok p \<Longrightarrow> parser_ok (get_token p)"
  by (rule parser_ok_get_token) (simp_all add: parser_ok_def)

lemma parser_ok_value [simp, intro]: "parser_ok p \<Longrightarrow> json_wf v \<Longrightarrow> parser_ok (handle_value v p)"
  by (simp add: parser_ok_def handle_value_def frame_ok_place)

lemma parser_ok_starts [simp, intro]:
  "parser_ok p \<Longrightarrow> parser_ok (start_object p)" "parser_ok p \<Longrightarrow> parser_ok (start_array p)"
  by (simp_all add: parser_ok_def start_object_def start_array_def)

lemma parser_ok_key [simp, intro]: "parser_ok p \<Longrightarrow> utf8_ok k \<Longrightarrow> parser_ok (sax_key k p)"
  by (auto simp: parser_ok_def sax_key_def split: list.splits frame.splits)

lemma parser_ok_end [simp, intro]:
  assumes "parser_ok p"
  shows "parser_ok (end_container p)"
proof (cases "ref_stack p")
  case Nil
  with assms show ?thesis by (simp add: end_container_def)
next
  case (Cons f fs)
  have "parser_ok (p\<lparr>ref_stack := fs\<rparr>)" "frame_ok f" using assms Cons by (simp_all add: parser_ok_def)
  with Cons show ?thesis by (cases f) (auto simp: end_container_def)
qed

lemma parser_ok_parse_key: "parse_key p = Inr p' \<Longrightarrow> parser_ok p \<Longrightarrow> parser_ok p'"
proof -
  assume k: "parse_key p = Inr p'" and p: "parser_ok p"
  then have "last_token p = value_string" "p' = get_token (sax_key (token_buffer (m_lexer p)) p)"
    by (auto simp: parse_key_def syntax_error_def Let_def split: if_splits)
  moreover from this p have "utf8_ok (token_buffer (m_lexer p))" by (simp add: parser_ok_def token_ok_def)
  ultimately show ?thesis using p by auto
qed

lemma parser_ok_value_step:
  assumes "value_step p = Inr (c, p')" "parser_ok p"
  shows "parser_ok p'"
proof -
  have tok: "token_ok (last_token p, m_lexer p)" using assms(2) by (simp add: parser_ok_def)
  have obj: "parser_ok (get_token (start_object p))" and arr: "parser_ok (get_token (start_array p))"
    using assms(2) by auto
  show ?thesis
  proof (cases "last_token p = begin_object \<or> last_token p = begin_array")
    case True
    with assms(1) obj arr show ?thesis
      using parser_ok_parse_key [of "get_token (start_object p)"]
      by (auto simp: value_step_def Let_def split: if_splits sum.splits)
  next
    case False
    with assms tok show ?thesis
      by (auto simp: value_step_def syntax_error_def token_ok_def split: token_type.splits double.splits if_splits)
  qed
qed

lemma parser_ok_state_step:
  assumes "state_step p = Inr (Some (sk, p'))" "parser_ok p"
  shows "parser_ok p'"
proof -
  have "parser_ok (get_token p)" "parser_ok (get_token (get_token p))" using assms(2) by auto
  then show ?thesis
    using assms(1) parser_ok_parse_key [of "get_token (get_token p)"]
    by (auto simp: state_step_def syntax_error_def Let_def split: list.splits bool.splits if_splits sum.splits)
qed

lemma parser_ok_sax_loop: "parser_ok p \<Longrightarrow> sax_loop skip p = Inr p' \<Longrightarrow> parser_ok p'"
proof (induction skip p rule: sax_loop.induct)
  case (1 skip p)
  from "1.prems"(2) obtain c q where v: "(if skip then Inr (False, p) else value_step p) = Inr (c, q)"
    by (auto simp: sax_loop.simps [of skip p] split: sum.splits)
  have q: "parser_ok q"
    using v "1.prems"(1) parser_ok_value_step by (auto split: if_splits)
  show ?case
  proof (cases c)
    case True
    with v "1.prems"(2) have "sax_loop False q = Inr p'" by (simp add: sax_loop.simps [of skip p])
    with "1.IH"(1) [OF v refl True q] show ?thesis .
  next
    case False
    with v "1.prems"(2) consider "state_step q = Inr None" "p' = q"
      | sk r where "state_step q = Inr (Some (sk, r))" "sax_loop sk r = Inr p'"
      by (auto simp: sax_loop.simps [of skip p] split: sum.splits option.splits)
    then show ?thesis
    proof cases
      case 1
      with q show ?thesis by simp
    next
      case (2 sk r)
      with "1.IH"(2) [OF v refl False 2(1) refl refl] parser_ok_state_step [OF 2(1) q] show ?thesis by simp
    qed
  qed
qed

lemma parser_parse_wf: "parser_parse strict text = Inr j \<Longrightarrow> json_wf j"
proof -
  assume "parser_parse strict text = Inr j"
  moreover have "parser_ok (get_token (new_parser text))"
    by (rule parser_ok_get_token) (simp_all add: new_parser_def)
  moreover have "root (get_token p) = root p" for p
    by (simp add: get_token_def case_prod_unfold Let_def)
  ultimately show ?thesis
    using parser_ok_sax_loop [of "get_token (new_parser text)" False]
    by (auto simp: parser_parse_def syntax_error_def parser_ok_def Let_def split: sum.splits if_splits)
qed

section \<open>Printing\<close>

text \<open>
  Compact JSON text of a value, the reference for \<open>dump\<close>. A floating-point number is written as
  \<open>to_chars\<close> does, which \<open>Json_Float\<close> characterises.
\<close>

fun print_json :: "json \<Rightarrow> string"
  and print_members :: "(string \<times> json) list \<Rightarrow> string"
  and print_elements :: "json list \<Rightarrow> string" where
  "print_json JNull = ''null''"
| "print_json (JBool b) = (if b then ''true'' else ''false'')"
| "print_json (JInt i) = show_int i"
| "print_json (JUint n) = show_nat n"
| "print_json (JFloat x) = (case dump_float x of Inr s \<Rightarrow> s | Inl _ \<Rightarrow> [])"
| "print_json (JString s) = dq # escape_string s @ [dq]"
| "print_json (JArray vs) = ''['' @ print_elements vs @ '']''"
| "print_json (JObject m) = ''{'' @ print_members m @ ''}''"
| "print_members [] = []"
| "print_members ((k, v) # m) =
     dq # escape_string k @ [dq] @ '':'' @ print_json v @ (if m = [] then [] else '','' @ print_members m)"
| "print_elements [] = []"
| "print_elements (v # vs) = print_json v @ (if vs = [] then [] else '','' @ print_elements vs)"

lemma quoted_ok: "utf8_ok s \<Longrightarrow> quoted compact s = Inr (dq # escape_string s @ [dq])"
  using dump_escaped_cases [of s] by (simp add: quoted_def)

lemma dump_value_print:
  "json_wf j \<Longrightarrow> dump_value compact n j ind = Inr (print_json j, ind)"
  "list_all (\<lambda>(k, v). utf8_ok k \<and> json_wf v) m \<Longrightarrow> dump_members compact n m ind = Inr (print_members m, ind)"
  "list_all json_wf vs \<Longrightarrow> dump_elements compact n vs ind = Inr (print_elements vs, ind)"
proof (induction j and m and vs rule: print_json_print_members_print_elements.induct)
  case (3 i)
  then show ?case by (simp add: dump_integer_eq)
next
  case (4 n)
  then show ?case by (simp add: dump_integer_eq show_int_def)
next
  case (5 x)
  then obtain r where x: "x = Fin r" "round64 r = Fin r" by (auto split: double.splits)
  then obtain s where "to_chars (r < 0) r = Some s" using to_chars_strtod [OF x(2)] by metis
  with x(1) show ?case by (simp add: dump_float_def)
qed (auto simp: quoted_ok layout_defs)

lemma json_dump_print: "json_wf j \<Longrightarrow> json_dump j = Inr (print_json j)"
  by (simp add: json_dump_compact dump_value_print)

end
