(* ===== verification/Json_Grammar.thy ===== *)
theory Json_Grammar
  imports Json_Values
begin

text \<open>
  The JSON grammar (RFC 8259) as an inductive relation between a text and the value it denotes: the
  abstract specification of \<open>json::parse\<close>. It says nothing of the scanner and the parser. Numbers are
  given the types of the library: an unsigned or a signed integer when they are written without
  fraction and exponent and fit 64 bits, the nearest double otherwise; a number that overflows the
  doubles has no value. Of several members with one name the last one counts.
\<close>

section \<open>Strings\<close>

definition ws :: "string \<Rightarrow> bool" where
  "ws w \<longleftrightarrow> list_all is_ws w"

text \<open>A sequence of bytes that lie in a sequence of ranges.\<close>

definition in_ranges :: "(nat \<times> nat) list \<Rightarrow> string \<Rightarrow> bool" where
  "in_ranges rs bs = list_all2 (\<lambda>r c. fst r \<le> byte c \<and> byte c \<le> snd r) rs bs"

text \<open>The 16-bit value of four hexadecimal digits.\<close>

fun code_unit :: "string \<Rightarrow> nat option" where
  "code_unit [a, b, c, d] =
     Option.bind (hex_digit a) (\<lambda>w. Option.bind (hex_digit b) (\<lambda>x. Option.bind (hex_digit c) (\<lambda>y.
     Option.bind (hex_digit d) (\<lambda>z. Some (w * 4096 + x * 256 + y * 16 + z)))))"
| "code_unit _ = None"

text \<open>One character of a string, the bytes it stands for and how it is written.\<close>

inductive str_char :: "string \<Rightarrow> string \<Rightarrow> bool" where
  plain: "0x20 \<le> byte c \<Longrightarrow> byte c < 0x80 \<Longrightarrow> c \<noteq> dq \<Longrightarrow> c \<noteq> bsl \<Longrightarrow> str_char [c] [c]"
| multi: "0x80 \<le> byte c \<Longrightarrow> utf8_ranges (byte c) = Some rs \<Longrightarrow> in_ranges rs bs \<Longrightarrow> str_char (c # bs) (c # bs)"
| short: "simple_escape x = Some c \<Longrightarrow> str_char [c] [bsl, x]"
| unit: "code_unit h = Some n \<Longrightarrow> n < 0xD800 \<or> 0xE000 \<le> n \<Longrightarrow> str_char (codepoint_bytes n) (bsl # CHR ''u'' # h)"
| pair: "code_unit h = Some n \<Longrightarrow> 0xD800 \<le> n \<Longrightarrow> n < 0xDC00 \<Longrightarrow>
    code_unit l = Some m \<Longrightarrow> 0xDC00 \<le> m \<Longrightarrow> m < 0xE000 \<Longrightarrow>
    str_char (codepoint_bytes (0x10000 + (n - 0xD800) * 0x400 + (m - 0xDC00))) (bsl # CHR ''u'' # h @ bsl # CHR ''u'' # l)"

inductive str_text :: "string \<Rightarrow> string \<Rightarrow> bool" where
  empty: "str_text [] []"
| char: "str_char b u \<Longrightarrow> str_text s t \<Longrightarrow> str_text (b @ s) (u @ t)"

section \<open>Numbers\<close>

definition fraction :: "string \<Rightarrow> bool" where
  "fraction t \<longleftrightarrow> t = [] \<or> (\<exists>ds. t = CHR ''.'' # ds \<and> ds \<noteq> [] \<and> list_all is_digit ds)"

definition exponent :: "string \<Rightarrow> bool" where
  "exponent t \<longleftrightarrow>
     t = [] \<or> (\<exists>e sg ds. t = e # sg @ ds \<and> e \<in> set ''eE'' \<and> sg \<in> {[], ''+'', ''-''} \<and> ds \<noteq> [] \<and> list_all is_digit ds)"

text \<open>The parts of a number: the integral digits, fraction and exponent.\<close>

definition number_parts :: "string \<Rightarrow> string \<Rightarrow> string \<Rightarrow> bool" where
  "number_parts ip ft et \<longleftrightarrow> (ip = ''0'' \<or> lead_digits ip) \<and> fraction ft \<and> exponent et"

definition number_value :: "bool \<Rightarrow> string \<Rightarrow> string \<Rightarrow> string \<Rightarrow> json option" where
  "number_value neg ip ft et =
     (let n = digits_val ip;
          q = of_nat (digits_val (ip @ tl ft)) * 10 powi (exponent_val (tl et) - int (length (tl ft)))
      in if ft = [] \<and> et = [] \<and> \<not> neg \<and> n < 2 ^ 64 then Some (JUint n)
         else if ft = [] \<and> et = [] \<and> neg \<and> n \<le> 2 ^ 63 then Some (JInt (- int n))
         else case round64 (if neg then - q else q) of Fin x \<Rightarrow> Some (JFloat (Fin x)) | _ \<Rightarrow> None)"

section \<open>Values\<close>

text \<open>The members in the order of the text, put into the object one after the other.\<close>

definition put_members :: "(string \<times> json) list \<Rightarrow> (string \<times> json) list" where
  "put_members kvs = foldl (\<lambda>m (k, v). map_put k v m) [] kvs"

inductive gvalue :: "json \<Rightarrow> string \<Rightarrow> bool"
  and gelements :: "json list \<Rightarrow> string \<Rightarrow> bool"
  and gmembers :: "(string \<times> json) list \<Rightarrow> string \<Rightarrow> bool" where
  g_null: "gvalue JNull ''null''"
| g_true: "gvalue (JBool True) ''true''"
| g_false: "gvalue (JBool False) ''false''"
| g_number: "number_parts ip ft et \<Longrightarrow> number_value neg ip ft et = Some v \<Longrightarrow>
    gvalue v ((if neg then ''-'' else []) @ ip @ ft @ et)"
| g_string: "str_text s t \<Longrightarrow> gvalue (JString s) (dq # t @ [dq])"
| g_array0: "ws w \<Longrightarrow> gvalue (JArray []) (CHR ''['' # w @ '']'')"
| g_array: "gelements vs t \<Longrightarrow> ws w \<Longrightarrow> gvalue (JArray vs) (CHR ''['' # t @ w @ '']'')"
| g_object0: "ws w \<Longrightarrow> gvalue (JObject []) (CHR ''{'' # w @ ''}'')"
| g_object: "gmembers kvs t \<Longrightarrow> ws w \<Longrightarrow> gvalue (JObject (put_members kvs)) (CHR ''{'' # t @ w @ ''}'')"
| g_element: "ws w \<Longrightarrow> gvalue v t \<Longrightarrow> gelements [v] (w @ t)"
| g_elements: "gelements vs t \<Longrightarrow> ws w' \<Longrightarrow> ws w \<Longrightarrow> gvalue v u \<Longrightarrow>
    gelements (vs @ [v]) (t @ w' @ '','' @ w @ u)"
| g_member: "ws w1 \<Longrightarrow> str_text k kt \<Longrightarrow> ws w2 \<Longrightarrow> ws w3 \<Longrightarrow> gvalue v t \<Longrightarrow>
    gmembers [(k, v)] (w1 @ dq # kt @ dq # w2 @ '':'' @ w3 @ t)"
| g_members: "gmembers kvs t \<Longrightarrow> ws w' \<Longrightarrow> ws w1 \<Longrightarrow> str_text k kt \<Longrightarrow> ws w2 \<Longrightarrow> ws w3 \<Longrightarrow> gvalue v u \<Longrightarrow>
    gmembers (kvs @ [(k, v)]) (t @ w' @ '','' @ w1 @ dq # kt @ dq # w2 @ '':'' @ w3 @ u)"

text \<open>
  A document: a value between whitespace, possibly after a byte order mark. A byte 0 ends the input
  of the library, whatever follows it.
\<close>

definition bom :: string where
  "bom = [CHR 0xEF, CHR 0xBB, CHR 0xBF]"

definition document :: "json \<Rightarrow> string \<Rightarrow> bool" where
  "document v text \<longleftrightarrow>
     (\<exists>b w t w' rest. text = b @ w @ t @ w' @ rest \<and> (b = [] \<or> b = bom) \<and> ws w \<and> gvalue v t \<and> ws w' \<and>
        (rest = [] \<or> hd rest = CHR 0x00))"

end
