(* ===== verification/Json_Scan.thy ===== *)
theory Json_Scan
  imports Json_Grammar
begin

text \<open>
  The scanner on texts of the grammar: what \<open>scan\<close> returns when the input that is left starts with
  whitespace and the text of a token. \<open>view\<close> is what the scanner will read next, whether or not a
  character has been put back.
\<close>

section \<open>The input that is left\<close>

definition view :: "lexer \<Rightarrow> string" where
  "view s = (if next_unget s then (case current s of Some c \<Rightarrow> c # input s | None \<Rightarrow> input s) else input s)"

definition lex_at :: "lexer \<Rightarrow> string \<Rightarrow> bool" where
  "lex_at s cs \<longleftrightarrow> view s = cs \<and> (next_unget s \<and> current s = None \<longrightarrow> input s = [])"

text \<open>The scanner after it has read \<open>c\<close>.\<close>

definition reads :: "lexer \<Rightarrow> char \<Rightarrow> string \<Rightarrow> bool" where
  "reads s c cs \<longleftrightarrow> current s = Some c \<and> \<not> next_unget s \<and> input s = cs"

lemma lex_get_reads: "lex_at s (c # cs) \<Longrightarrow> reads (lex_get s) c cs"
  by (cases "next_unget s"; cases "current s") (auto simp: lex_at_def view_def reads_def lex_get_state)

lemma lex_get_eof: "lex_at s [] \<Longrightarrow> current (lex_get s) = None \<and> lex_at (lex_get s) []"
  by (cases "next_unget s"; cases "current s") (auto simp: lex_at_def view_def lex_get_state)

lemma reads_at: "reads s c cs \<Longrightarrow> lex_at s cs"
  by (simp add: reads_def lex_at_def view_def)

lemma reads_current: "reads s c cs \<Longrightarrow> current s = Some c"
  by (simp add: reads_def)

lemma lex_frame [simp]:
  "input (lex_add c s) = input s" "input (add_current s) = input s" "input (lex_reset s) = input s"
  "input (s\<lparr>error_message := m\<rparr>) = input s" "token_buffer (lex_reset s) = []"
  by (simp_all add: lex_add_def add_current_def lex_reset_def split: option.splits)

lemma at_frame [simp]:
  "lex_at (lex_add c s) cs = lex_at s cs" "lex_at (add_current s) cs = lex_at s cs" "lex_at (lex_reset s) cs = lex_at s cs"
  "lex_at (s\<lparr>num_unsigned := n\<rparr>) cs = lex_at s cs" "lex_at (s\<lparr>num_integer := i\<rparr>) cs = lex_at s cs"
  "lex_at (s\<lparr>num_float := x\<rparr>) cs = lex_at s cs"
  by (simp_all add: lex_at_def view_def split: option.split)

lemma at_add_all [simp]: "lex_at (add_all bs s) cs = lex_at s cs"
proof -
  have "lex_at (foldl (\<lambda>s c. lex_add c s) s bs) cs = lex_at s cs"
    by (induction bs arbitrary: s) simp_all
  then show ?thesis by (simp add: add_all_def)
qed

lemma reads_frame [simp]:
  "reads (lex_add c s) d cs = reads s d cs" "reads (add_current s) d cs = reads s d cs"
  "reads (lex_reset s) d cs = reads s d cs"
  by (simp_all add: reads_def)

lemma token_buffer_add_current: "reads s c cs \<Longrightarrow> token_buffer (add_current s) = token_buffer s @ [c]"
  by (simp add: reads_def add_current_def)

lemma unget_state:
  "current (lex_unget s) = current s" "input (lex_unget s) = input s" "next_unget (lex_unget s)"
  "token_buffer (lex_unget s) = token_buffer s"
  by (simp_all add: lex_unget_def Let_def)

text \<open>Reading one more character.\<close>

lemma lex_get_step:
  assumes "lex_at s (d # cs)"
  shows "current (lex_get s) = Some d" "lex_at (add_current (lex_get s)) cs" "lex_at (lex_get s) cs"
    "token_buffer (add_current (lex_get s)) = token_buffer s @ [d]" "token_buffer (lex_get s) = token_buffer s"
  using lex_get_reads [OF assms] token_buffer_add_current [OF lex_get_reads [OF assms]]
  by (simp_all add: reads_current reads_at lex_get_state(4))

text \<open>Putting back what was read, or the end of input.\<close>

lemma at_unget_get: "lex_at s cs \<Longrightarrow> lex_at (lex_unget (lex_get s)) cs"
proof (cases cs)
  case Nil
  assume "lex_at s cs"
  with Nil have "current (lex_get s) = None" "lex_at (lex_get s) []" using lex_get_eof by auto
  then show ?thesis using Nil by (simp add: lex_at_def view_def unget_state split: if_splits)
next
  case (Cons c cs')
  assume "lex_at s cs"
  with Cons have "reads (lex_get s) c cs'" using lex_get_reads by simp
  then show ?thesis using Cons by (simp add: lex_at_def view_def unget_state reads_def)
qed

section \<open>Tokens\<close>

text \<open>Whitespace before a token is skipped; the first character of the token is current then.\<close>

lemma skip_whitespace_at:
  "ws w \<Longrightarrow> lex_at s (w @ cs) \<Longrightarrow> (case cs of [] \<Rightarrow> True | c # _ \<Rightarrow> \<not> is_ws c) \<Longrightarrow>
   \<exists>s1. skip_whitespace s = lex_get s1 \<and> lex_at s1 cs"
proof (induction w arbitrary: s)
  case Nil
  then have "\<not> cur_ws (lex_get s)"
    using lex_get_step(1) [of s] lex_get_eof [of s] by (cases cs) auto
  then show ?case using Nil by (intro exI [of _ s]) (simp add: skip_whitespace.simps [of s])
next
  case (Cons d w)
  then have at: "lex_at s (d # w @ cs)" and d: "is_ws d" "ws w" by (simp_all add: ws_def)
  from Cons.IH [OF d(2) lex_get_step(3) [OF at] Cons.prems(3)] d(1) lex_get_step(1) [OF at] show ?case
    by (simp add: skip_whitespace.simps [of s])
qed

lemma bom_no_ws: "is_ws c \<Longrightarrow> c \<noteq> CHR 0xEF"
  by (auto simp: is_ws_def)

lemma skip_bom_other:
  assumes "lex_at s cs" "case cs of [] \<Rightarrow> True | c # _ \<Rightarrow> c \<noteq> CHR 0xEF"
  shows "skip_bom s = (True, lex_unget (lex_get s))"
  using assms lex_get_step(1) [of s] lex_get_eof [of s]
  by (cases cs) (auto simp: skip_bom_def Let_def)

lemma scan_ws:
  assumes "ws w" "lex_at s (w @ cs)" "case cs of [] \<Rightarrow> True | c # _ \<Rightarrow> \<not> is_ws c \<and> c \<noteq> CHR 0xEF"
  obtains s1 where "scan s = scan_token (lex_get s1)" "lex_at s1 cs"
proof -
  define s0 where "s0 = snd (if chars_read_total s = 0 then skip_bom s else (True, s))"
  have "case w @ cs of [] \<Rightarrow> True | c # _ \<Rightarrow> c \<noteq> CHR 0xEF"
    using assms(1,3) bom_no_ws by (cases w; cases cs) (auto simp: ws_def)
  note bom = skip_bom_other [OF assms(2) this]
  have s0: "lex_at s0 (w @ cs)" using assms(2) at_unget_get by (simp add: s0_def bom)
  have "case cs of [] \<Rightarrow> True | c # _ \<Rightarrow> \<not> is_ws c" using assms(3) by (auto split: list.splits)
  from skip_whitespace_at [OF assms(1) s0 this] obtain s1 where
    s1: "skip_whitespace s0 = lex_get s1" "lex_at s1 cs" by blast
  moreover have "scan s = scan_token (skip_whitespace s0)" by (simp add: scan_def s0_def bom)
  ultimately show ?thesis using that by simp
qed

lemma scan_start:
  assumes "ws w" "lex_at s (w @ c # cs)" "c \<noteq> CHR 0xEF" "\<not> is_ws c"
  obtains s1 where "scan s = scan_token s1" "reads s1 c cs"
proof -
  obtain s1 where "scan s = scan_token (lex_get s1)" "lex_at s1 (c # cs)"
    using scan_ws [OF assms(1,2)] assms(3,4) by auto
  with that lex_get_reads show ?thesis by blast
qed

lemma scan_end:
  assumes "ws w" "lex_at s (w @ rest)" "rest = [] \<or> hd rest = CHR 0x00"
  obtains s' where "scan s = (end_of_input, s')"
proof -
  have "case rest of [] \<Rightarrow> True | c # _ \<Rightarrow> \<not> is_ws c \<and> c \<noteq> CHR 0xEF"
    using assms(3) by (cases rest) (auto simp: is_ws_def)
  from scan_ws [OF assms(1,2) this] obtain s1 where s1: "scan s = scan_token (lex_get s1)" "lex_at s1 rest" .
  have "fst (scan_token (lex_get s1)) = end_of_input"
  proof (cases rest)
    case Nil
    with s1(2) lex_get_eof [of s1] show ?thesis by (simp add: scan_token_def)
  next
    case (Cons c cs)
    with s1(2) lex_get_step(1) [of s1] assms(3) show ?thesis by (simp add: scan_token_def is_digit_def)
  qed
  with that s1(1) show ?thesis by (metis prod.collapse)
qed

abbreviation yields :: "lexer \<Rightarrow> token_type \<Rightarrow> string \<Rightarrow> bool" where
  "yields s t cs \<equiv> \<exists>s'. scan s = (t, s') \<and> lex_at s' cs"

lemma scan_punct:
  assumes "ws w"
  shows "lex_at s (w @ CHR ''['' # cs) \<Longrightarrow> yields s begin_array cs"
    "lex_at s (w @ CHR '']'' # cs) \<Longrightarrow> yields s end_array cs"
    "lex_at s (w @ CHR ''{'' # cs) \<Longrightarrow> yields s begin_object cs"
    "lex_at s (w @ CHR ''}'' # cs) \<Longrightarrow> yields s end_object cs"
    "lex_at s (w @ CHR '':'' # cs) \<Longrightarrow> yields s name_separator cs"
    "lex_at s (w @ CHR '','' # cs) \<Longrightarrow> yields s value_separator cs"
  by (erule scan_start [OF assms]; simp add: is_ws_def scan_token_def reads_current reads_at)+

lemma scan_literal_at:
  "lex_at s (ls @ cs) \<Longrightarrow> \<exists>s'. scan_literal_loop ls t s = (t, s') \<and> lex_at s' cs"
proof (induction ls arbitrary: s)
  case (Cons l ls)
  then have r: "reads (lex_get s) l (ls @ cs)" by (simp add: lex_get_reads)
  with Cons.IH [OF reads_at [OF r]] show ?case by (simp add: reads_current)
qed simp

lemma scan_literals:
  assumes w: "ws w"
  shows "lex_at s (w @ ''true'' @ cs) \<Longrightarrow> yields s literal_true cs"
    "lex_at s (w @ ''false'' @ cs) \<Longrightarrow> yields s literal_false cs"
    "lex_at s (w @ ''null'' @ cs) \<Longrightarrow> yields s literal_null cs"
proof -
  have lit: "yields s t cs"
    if a: "lex_at s (w @ l # ls @ cs)" and c: "l \<noteq> CHR 0xEF" "\<not> is_ws l"
      and tok: "\<And>s1. current s1 = Some l \<Longrightarrow> scan_token s1 = scan_literal (l # ls) t s1" for l ls t
  proof -
    obtain s1 where s1: "scan s = scan_token s1" "reads s1 l (ls @ cs)" using scan_start [OF w a c] .
    from scan_literal_at [OF reads_at [OF s1(2)], of t] tok [OF reads_current [OF s1(2)]] s1(1)
    show ?thesis by (simp add: scan_literal_def)
  qed
  show "lex_at s (w @ ''true'' @ cs) \<Longrightarrow> yields s literal_true cs"
    using lit [of "CHR ''t''" "''rue''"] by (simp add: is_ws_def scan_token_def)
  show "lex_at s (w @ ''false'' @ cs) \<Longrightarrow> yields s literal_false cs"
    using lit [of "CHR ''f''" "''alse''"] by (simp add: is_ws_def scan_token_def)
  show "lex_at s (w @ ''null'' @ cs) \<Longrightarrow> yields s literal_null cs"
    using lit [of "CHR ''n''" "''ull''"] by (simp add: is_ws_def scan_token_def)
qed

section \<open>Strings\<close>

lemma code_unit_Some:
  assumes "code_unit h = Some n"
  obtains a b c d w x y z where "h = [a, b, c, d]" "hex_digit a = Some w" "hex_digit b = Some x"
    "hex_digit c = Some y" "hex_digit d = Some z" "n = w * 4096 + x * 256 + y * 16 + z"
  using assms by (cases h rule: code_unit.cases) (auto split: bind_splits)

lemma code_unit_less: "code_unit h = Some n \<Longrightarrow> n < 2 ^ 16"
  by (erule code_unit_Some) (auto dest!: hex_digit_less)

lemma get_codepoint_reads:
  assumes "code_unit h = Some n" "lex_at s (h @ cs)"
  shows "\<exists>s'. get_codepoint s = (int n, s') \<and> lex_at s' cs \<and> token_buffer s' = token_buffer s"
proof -
  obtain a b c d w x y z where h: "h = [a, b, c, d]" "hex_digit a = Some w" "hex_digit b = Some x"
    "hex_digit c = Some y" "hex_digit d = Some z" "n = w * 4096 + x * 256 + y * 16 + z"
    using code_unit_Some [OF assms(1)] .
  have at: "lex_at s (a # b # c # d # cs)" using assms(2) h(1) by simp
  note r1 = lex_get_step [OF at]
  note r2 = lex_get_step [OF r1(3)]
  note r3 = lex_get_step [OF r2(3)]
  note r4 = lex_get_step [OF r3(3)]
  show ?thesis
    using h r1 r2 r3 r4 by (simp add: get_codepoint_def)
qed

lemma next_byte_loop_reads:
  "in_ranges rs bs \<Longrightarrow> lex_at s (bs @ cs) \<Longrightarrow>
   \<exists>s'. next_byte_loop rs s = (True, s') \<and> lex_at s' cs \<and> token_buffer s' = token_buffer s @ bs"
proof (induction rs arbitrary: bs s)
  case Nil
  then show ?case by (simp add: in_ranges_def)
next
  case (Cons r rs)
  obtain lo hi where r: "r = (lo, hi)" by fastforce
  from Cons.prems(1) r obtain c bs' where bs: "bs = c # bs'" and c: "lo \<le> byte c" "byte c \<le> hi"
      and rest: "in_ranges rs bs'"
    by (auto simp: in_ranges_def list_all2_Cons1)
  from Cons.prems(2) bs have rd: "reads (lex_get s) c (bs' @ cs)" by (simp add: lex_get_reads)
  then have "lex_at (lex_add c (lex_get s)) (bs' @ cs)" by (simp add: reads_at)
  from Cons.IH [OF rest this] c rd r bs show ?case
    by (auto simp: Let_def reads_current lex_add_def lex_get_state(4))
qed

text \<open>One turn of the loop of \<open>scan_string\<close> reads one character of the grammar.\<close>

lemma scan_string_step_reads:
  assumes "str_char b u" "lex_at s (u @ cs)"
  shows "\<exists>s'. scan_string_step (lex_get s) = (None, s') \<and> lex_at s' cs \<and> token_buffer s' = token_buffer s @ b"
  using assms
proof (cases rule: str_char.cases)
  case (plain c)
  with assms(2) have at: "lex_at s (c # cs)" by simp
  from plain show ?thesis
    using lex_get_step [OF at] by (simp add: scan_string_step_def)
next
  case (multi c rs bs)
  with assms(2) have at: "lex_at s (c # bs @ cs)" by simp
  note st = lex_get_step [OF at]
  from next_byte_loop_reads [OF multi(5) st(2)] obtain s' where
    s': "next_byte_in_range rs (lex_get s) = (True, s')" "lex_at s' cs" "token_buffer s' = token_buffer s @ c # bs"
    using st(4) by (auto simp: next_byte_in_range_def)
  have "c \<noteq> dq" "c \<noteq> bsl" "\<not> byte c \<le> 0x1F" "\<not> byte c \<le> 0x7F" using multi(3) by auto
  with s' st(1) multi show ?thesis by (simp add: scan_string_step_def)
next
  case (short x c)
  with assms(2) have at: "lex_at s (bsl # x # cs)" by simp
  note st = lex_get_step [OF at]
  note st2 = lex_get_step [OF st(3)]
  show ?thesis
    using short st(1,5) st2(1,3,5) by (simp add: scan_string_step_def scan_escape_def Let_def token_buffer_lex)
next
  case (unit h n)
  with assms(2) have at: "lex_at s (bsl # CHR ''u'' # h @ cs)" by simp
  note st = lex_get_step [OF at]
  note st2 = lex_get_step [OF st(3)]
  from get_codepoint_reads [OF unit(3) st2(3)] obtain s' where
    s': "get_codepoint (lex_get (lex_get s)) = (int n, s')" "lex_at s' cs" "token_buffer s' = token_buffer s"
    using st(5) st2(5) by auto
  have "scan_unicode (lex_get (lex_get s)) = (None, add_all b s')"
    using unit(1,4) by (auto simp: scan_unicode_def s'(1))
  then show ?thesis
    using s' st(1) st2(1) by (simp add: scan_string_step_def scan_escape_def Let_def simple_escape_def)
next
  case (pair h n l m)
  with assms(2) have at: "lex_at s (bsl # CHR ''u'' # h @ bsl # CHR ''u'' # l @ cs)" by simp
  note st = lex_get_step [OF at]
  note st2 = lex_get_step [OF st(3)]
  from get_codepoint_reads [OF pair(3) st2(3)] obtain s1 where
    s1: "get_codepoint (lex_get (lex_get s)) = (int n, s1)" "lex_at s1 (bsl # CHR ''u'' # l @ cs)" "token_buffer s1 = token_buffer s"
    using st(5) st2(5) by auto
  note st3 = lex_get_step [OF s1(2)]
  note st4 = lex_get_step [OF st3(3)]
  from get_codepoint_reads [OF pair(6) st4(3)] obtain s2 where
    s2: "get_codepoint (lex_get (lex_get s1)) = (int m, s2)" "lex_at s2 cs" "token_buffer s2 = token_buffer s"
    using s1(3) st3(5) st4(5) by auto
  have "nat (int n * 2 ^ 10 + int m - 0x35FDC00) = 0x10000 + (n - 0xD800) * 0x400 + (m - 0xDC00)"
    using pair(4,7) by (simp add: nat_eq_iff)
  then have "scan_unicode (lex_get (lex_get s)) = (None, add_all b s2)"
    using pair(1,4,5,7,8) st3(1) st4(1) s2(1) by (simp add: scan_unicode_def s1(1) Let_def)
  then show ?thesis
    using s2 st(1) st2(1) by (simp add: scan_string_step_def scan_escape_def Let_def simple_escape_def)
qed

lemma scan_string_loop_reads:
  "str_text str t \<Longrightarrow> lex_at s (t @ dq # cs) \<Longrightarrow>
   \<exists>s'. scan_string_loop s = (value_string, s') \<and> lex_at s' cs \<and> token_buffer s' = token_buffer s @ str"
proof (induction str t arbitrary: s rule: str_text.induct)
  case empty
  then have at: "lex_at s (dq # cs)" by simp
  then show ?case
    using lex_get_step [OF at] by (simp add: scan_string_loop.simps [of s] scan_string_step_def)
next
  case (char b u str t)
  then have "lex_at s (u @ t @ dq # cs)" by simp
  from scan_string_step_reads [OF char(1) this] obtain s1 where
    s1: "scan_string_step (lex_get s) = (None, s1)" "lex_at s1 (t @ dq # cs)" "token_buffer s1 = token_buffer s @ b"
    by blast
  from char.IH [OF s1(2)] s1(1,3) show ?case by (auto simp: scan_string_loop.simps [of s])
qed

lemma scan_quoted:
  assumes "ws w" "str_text str t" "lex_at s (w @ dq # t @ dq # cs)"
  shows "\<exists>s'. scan s = (value_string, s') \<and> lex_at s' cs \<and> token_buffer s' = str"
proof -
  obtain s1 where s1: "scan s = scan_token s1" "reads s1 dq (t @ dq # cs)"
    using scan_start [OF assms(1,3)] by (auto simp: is_ws_def)
  then have "lex_at (lex_reset s1) (t @ dq # cs)" by (simp add: reads_at)
  from scan_string_loop_reads [OF assms(2) this] s1 show ?thesis
    by (simp add: scan_token_def scan_string_def reads_current is_digit_def)
qed

end
