(* ===== verification/Json_Scan_Number.thy ===== *)
theory Json_Scan_Number
  imports Json_Scan
begin

text \<open>
  Numbers of the grammar: the states of \<open>scan_number\<close> read a number to its end, and the value of the
  token is the value the grammar gives to the text.
\<close>

section \<open>Numbers\<close>

text \<open>What may follow a number: the end, or a character that does not continue it.\<close>

definition number_end :: "string \<Rightarrow> bool" where
  "number_end cs \<longleftrightarrow> (case cs of [] \<Rightarrow> True | c # _ \<Rightarrow> \<not> is_digit c \<and> c \<notin> set ''.eE'')"

lemma number_end_current:
  assumes "lex_at s cs" "number_end cs"
  shows "\<not> cur_digit (lex_get s)" "\<not> cur_in ''.'' (lex_get s)" "\<not> cur_in ''eE'' (lex_get s)"
  using assms lex_get_eof [of s] lex_get_reads [of s "hd cs" "tl cs"]
  by (cases cs; simp add: number_end_def reads_current)+

lemma not_digits: "\<not> is_digit CHR ''.''" "e \<in> set ''eE'' \<Longrightarrow> \<not> is_digit e" "sg \<in> set ''+-'' \<Longrightarrow> \<not> is_digit sg"
  by (auto simp: is_digit_def)

lemma scan_any2_reads:
  "list_all is_digit ds \<Longrightarrow> lex_at s (ds @ cs) \<Longrightarrow> number_end cs \<Longrightarrow>
   \<exists>s1. scan_number_any2 ty s = scan_number_done ty (lex_get s1) \<and> lex_at s1 cs
     \<and> token_buffer s1 = token_buffer s @ ds"
proof (induction ds arbitrary: s)
  case Nil
  then show ?case
    using number_end_current [of s cs] by (intro exI [of _ s]) (simp add: scan_number_any2.simps [of ty s])
next
  case (Cons d ds)
  then have at: "lex_at s (d # ds @ cs)" by simp
  from Cons.IH [OF _ lex_get_step(2) [OF at]] Cons.prems show ?case
    by (simp add: scan_number_any2.simps [of ty s] lex_get_step [OF at])
qed

text \<open>The exponent after its \<open>e\<close>.\<close>

lemma scan_exponent_reads:
  assumes sg: "sg \<in> {[], ''+'', ''-''}" and ds: "ds \<noteq> []" "list_all is_digit ds"
    and at: "lex_at s (sg @ ds @ cs)" "number_end cs"
  shows "\<exists>s1. scan_number_exponent s = scan_number_done value_float (lex_get s1) \<and> lex_at s1 cs
     \<and> token_buffer s1 = token_buffer s @ sg @ ds"
proof -
  obtain d es where es: "ds = d # es" "is_digit d" "list_all is_digit es" using ds by (cases ds) auto
  show ?thesis
  proof (cases "sg = []")
    case True
    with at(1) es(1) have a: "lex_at s (d # es @ cs)" by simp
    note st = lex_get_step [OF a]
    have "d \<notin> set ''+-''" using es(2) not_digits(3) by blast
    then have "scan_number_exponent s = scan_number_any2 value_float (add_current (lex_get s))"
      using st(1) es(2) by (simp add: scan_number_exponent_def Let_def)
    with scan_any2_reads [OF es(3) st(2) at(2), of value_float] st(4) es(1) True show ?thesis by auto
  next
    case False
    with sg obtain g where g: "sg = [g]" "g \<in> set ''+-''" by auto
    with at(1) es(1) have a: "lex_at s (g # d # es @ cs)" by simp
    note st = lex_get_step [OF a]
    note st2 = lex_get_step [OF st(2)]
    have "scan_number_exponent s = scan_number_any2 value_float (add_current (lex_get (add_current (lex_get s))))"
      using g(2) es(2) st(1) st2(1) by (simp add: scan_number_exponent_def scan_number_sign_def Let_def)
    with scan_any2_reads [OF es(3) st2(2) at(2), of value_float] st(4) st2(4) es(1) g(1) show ?thesis by auto
  qed
qed

lemma exponent_tail_reads:
  assumes et: "exponent et" "et \<noteq> []" and at: "lex_at s (et @ cs)" "number_end cs"
  shows "\<not> cur_digit (lex_get s)" "\<not> cur_in ''.'' (lex_get s)" "cur_in ''eE'' (lex_get s)"
    and "\<exists>s1. scan_number_exponent (add_current (lex_get s)) = scan_number_done value_float (lex_get s1) \<and> lex_at s1 cs
       \<and> token_buffer s1 = token_buffer s @ et"
proof -
  obtain e sg ds where e: "et = e # sg @ ds" "e \<in> set ''eE''" "sg \<in> {[], ''+'', ''-''}" "ds \<noteq> []" "list_all is_digit ds"
    using et unfolding exponent_def by blast
  have a: "lex_at s (e # sg @ ds @ cs)" using at(1) e(1) by simp
  note st = lex_get_step [OF a]
  show "\<not> cur_digit (lex_get s)" "\<not> cur_in ''.'' (lex_get s)" "cur_in ''eE'' (lex_get s)"
    using st(1) e(2) by (auto simp: is_digit_def)
  from scan_exponent_reads [OF e(3-5) st(2) at(2)] st(4) e(1)
  show "\<exists>s1. scan_number_exponent (add_current (lex_get s)) = scan_number_done value_float (lex_get s1) \<and> lex_at s1 cs
       \<and> token_buffer s1 = token_buffer s @ et" by auto
qed

lemma scan_decimal2_reads:
  "list_all is_digit ds \<Longrightarrow> exponent et \<Longrightarrow> lex_at s (ds @ et @ cs) \<Longrightarrow> number_end cs \<Longrightarrow>
   \<exists>s1. scan_number_decimal2 s = scan_number_done value_float (lex_get s1) \<and> lex_at s1 cs
     \<and> token_buffer s1 = token_buffer s @ ds @ et"
proof (induction ds arbitrary: s)
  case Nil
  then have at: "lex_at s (et @ cs)" by simp
  show ?case
  proof (cases "et = []")
    case True
    with at Nil.prems(4) show ?thesis
      using number_end_current [of s cs] by (intro exI [of _ s]) (simp add: scan_number_decimal2.simps [of s])
  next
    case False
    from exponent_tail_reads [OF Nil.prems(2) False at Nil.prems(4)] show ?thesis
      by (simp add: scan_number_decimal2.simps [of s])
  qed
next
  case (Cons d ds)
  then have at: "lex_at s (d # ds @ et @ cs)" by simp
  from Cons.IH [OF _ _ lex_get_step(2) [OF at]] Cons.prems show ?case
    by (simp add: scan_number_decimal2.simps [of s] lex_get_step [OF at])
qed

text \<open>What follows the integral digits, in the states \<open>scan_number_zero\<close> and \<open>scan_number_any1\<close>.\<close>

definition after_digits :: "token_type \<Rightarrow> lexer \<Rightarrow> token_type \<times> lexer" where
  "after_digits ty s =
     (if cur_in ''.'' (lex_get s) then scan_number_decimal1 (lex_add CHR ''.'' (lex_get s))
      else if cur_in ''eE'' (lex_get s) then scan_number_exponent (add_current (lex_get s))
      else scan_number_done ty (lex_get s))"

lemma scan_number_states:
  "scan_number_zero ty s = after_digits ty s"
  "scan_number_any1 ty s =
     (if cur_digit (lex_get s) then scan_number_any1 ty (add_current (lex_get s)) else after_digits ty s)"
  by (simp_all add: scan_number_zero_def after_digits_def Let_def scan_number_any1.simps [of ty s])

lemma number_tail_reads:
  assumes ft: "fraction ft" and et: "exponent et" and at: "lex_at s (ft @ et @ cs)" "number_end cs"
  shows "\<not> cur_digit (lex_get s)"
    and "\<exists>s1. after_digits ty s = scan_number_done (if ft = [] \<and> et = [] then ty else value_float) (lex_get s1)
       \<and> lex_at s1 cs \<and> token_buffer s1 = token_buffer s @ ft @ et"
proof -
  have "\<not> cur_digit (lex_get s) \<and> (\<exists>s1. after_digits ty s = scan_number_done (if ft = [] \<and> et = [] then ty else value_float) (lex_get s1)
       \<and> lex_at s1 cs \<and> token_buffer s1 = token_buffer s @ ft @ et)"
  proof (cases "ft = []")
    case True
    with at(1) have a: "lex_at s (et @ cs)" by simp
    show ?thesis
    proof (cases "et = []")
      case True
      with \<open>ft = []\<close> a at(2) show ?thesis
        using number_end_current [of s cs] by (auto simp: after_digits_def)
    next
      case False
      from exponent_tail_reads [OF et False a at(2)] \<open>ft = []\<close> False show ?thesis
        by (simp add: after_digits_def)
    qed
  next
    case False
    with ft obtain fs where fs: "ft = CHR ''.'' # fs" "fs \<noteq> []" "list_all is_digit fs"
      unfolding fraction_def by blast
    then obtain d ds where f: "ft = CHR ''.'' # d # ds" "is_digit d" "list_all is_digit ds"
      by (cases fs) auto
    have a: "lex_at s (CHR ''.'' # d # ds @ et @ cs)" using at(1) f(1) by simp
    note st = lex_get_step [OF a]
    define s1 where "s1 = lex_add CHR ''.'' (lex_get s)"
    have s1: "lex_at s1 (d # ds @ et @ cs)" "token_buffer s1 = token_buffer s @ ''.''"
      using st(3,5) by (simp_all add: s1_def)
    note st1 = lex_get_step [OF s1(1)]
    have "scan_number_decimal1 s1 = scan_number_decimal2 (add_current (lex_get s1))"
      using st1(1) f(2) by (simp add: scan_number_decimal1_def Let_def)
    with scan_decimal2_reads [OF f(3) et st1(2) at(2)] st(1) st1(4) s1(2) f(1) show ?thesis
      by (auto simp: after_digits_def s1_def not_digits(1))
  qed
  then show "\<not> cur_digit (lex_get s)"
    and "\<exists>s1. after_digits ty s = scan_number_done (if ft = [] \<and> et = [] then ty else value_float) (lex_get s1)
       \<and> lex_at s1 cs \<and> token_buffer s1 = token_buffer s @ ft @ et" by blast+
qed

lemma scan_any1_reads:
  "list_all is_digit ds \<Longrightarrow> fraction ft \<Longrightarrow> exponent et \<Longrightarrow> lex_at s (ds @ ft @ et @ cs) \<Longrightarrow> number_end cs \<Longrightarrow>
   \<exists>s1. scan_number_any1 ty s = scan_number_done (if ft = [] \<and> et = [] then ty else value_float) (lex_get s1)
     \<and> lex_at s1 cs \<and> token_buffer s1 = token_buffer s @ ds @ ft @ et"
proof (induction ds arbitrary: s)
  case Nil
  then have at: "lex_at s (ft @ et @ cs)" by simp
  note nt = number_tail_reads [OF Nil.prems(2,3) at Nil.prems(5)]
  from nt(1) nt(2) [of ty] show ?case by (simp add: scan_number_states(2) [of ty s])
next
  case (Cons d ds)
  then have at: "lex_at s (d # ds @ ft @ et @ cs)" by simp
  from Cons.IH [OF _ Cons.prems(2,3) lex_get_step(2) [OF at] Cons.prems(5)] Cons.prems(1) show ?case
    by (simp add: scan_number_states(2) [of ty s] lex_get_step [OF at])
qed

text \<open>A number whose first digit has been read.\<close>

lemma scan_first_reads:
  assumes parts: "number_parts ip ft et" and ip: "ip = d # ds" and r: "reads s d (ds @ ft @ et @ cs)" and e: "number_end cs"
  shows "\<exists>s1. (if d = CHR ''0'' then scan_number_zero ty (add_current s) else scan_number_any1 ty (add_current s))
      = scan_number_done (if ft = [] \<and> et = [] then ty else value_float) (lex_get s1) \<and> lex_at s1 cs
      \<and> token_buffer s1 = token_buffer s @ ip @ ft @ et"
proof -
  have start: "lex_at (add_current s) (ds @ ft @ et @ cs)" using r by (simp add: reads_at)
  have buf: "token_buffer (add_current s) = token_buffer s @ [d]" using r by (rule token_buffer_add_current)
  have tail: "fraction ft" "exponent et" using parts by (simp_all add: number_parts_def)
  show ?thesis
  proof (cases "d = CHR ''0''")
    case True
    then have ds: "ds = []" using parts ip by (auto simp: number_parts_def lead_digits_def)
    with start have "lex_at (add_current s) (ft @ et @ cs)" by simp
    from number_tail_reads(2) [OF tail this e, of ty] buf True ds ip show ?thesis
      by (simp add: scan_number_states(1))
  next
    case False
    then have "list_all is_digit ds" using parts ip by (auto simp: number_parts_def lead_digits_def)
    from scan_any1_reads [OF this tail start e, of ty] buf False ip show ?thesis by simp
  qed
qed


text \<open>The value that a token stands for.\<close>

definition token_json :: "token_type \<Rightarrow> lexer \<Rightarrow> json option" where
  "token_json t l =
     (case t of
        literal_null \<Rightarrow> Some JNull
      | literal_true \<Rightarrow> Some (JBool True)
      | literal_false \<Rightarrow> Some (JBool False)
      | value_unsigned \<Rightarrow> Some (JUint (num_unsigned l))
      | value_integer \<Rightarrow> Some (JInt (num_integer l))
      | value_float \<Rightarrow> (case num_float l of Fin x \<Rightarrow> Some (JFloat (Fin x)) | _ \<Rightarrow> None)
      | value_string \<Rightarrow> Some (JString (token_buffer l))
      | _ \<Rightarrow> None)"

lemma digits_ip: "number_parts ip ft et \<Longrightarrow> list_all is_digit ip"
  by (auto simp: number_parts_def lead_digits_def is_digit_def)

lemma first_digit:
  assumes "number_parts ip ft et"
  obtains d ds where "ip = d # ds" "is_digit d"
  using assms by (cases ip) (auto simp: number_parts_def lead_digits_def is_digit_def)

text \<open>What \<open>strtod\<close> makes of the text of a number.\<close>

lemma decimal_val_parts:
  assumes "number_parts ip ft et"
  shows "decimal_val (ip @ ft @ et) =
    of_nat (digits_val (ip @ tl ft)) * 10 powi (exponent_val (tl et) - int (length (tl ft)))"
proof -
  have ip: "list_all is_digit ip" and ft: "fraction ft" and et: "exponent et"
    using assms digits_ip by (simp_all add: number_parts_def)
  have nd: "\<not> is_digit CHR ''.''" by (rule not_digits)
  have "\<not> is_digit e \<and> e \<noteq> CHR ''.''" if "e \<in> set ''eE''" for e
    using that by (auto simp: is_digit_def)
  then have et': "et = [] \<or> (\<exists>e t. et = e # t \<and> \<not> is_digit e \<and> e \<noteq> CHR ''.'')"
    using et unfolding exponent_def by blast
  note tw = takeWhile_digits [OF ip]
  have whole: "decimal_val (ds @ et) = of_nat (digits_val ds) * 10 powi exponent_val (tl et)" if "list_all is_digit ds" for ds
    using et' by (elim disjE exE conjE)
      (simp_all add: decimal_val_def takeWhile_digits(1,2) [OF that] takeWhile_digits(3,4) [OF that nd] exponent_val_def [of "[]"])
  have frac: "decimal_val (ip @ CHR ''.'' # fs @ et)
      = of_nat (digits_val (ip @ fs)) * 10 powi (exponent_val (tl et) - int (length fs))" if "list_all is_digit fs" for fs
  proof -
    note tf = takeWhile_digits(1,2) [OF that] takeWhile_digits(3,4) [OF that nd]
    show ?thesis
      using et' by (elim disjE exE conjE) (simp_all add: decimal_val_def tw(1,2) [OF nd] tf nd exponent_val_def [of "[]"])
  qed
  show ?thesis
  proof (cases "ft = []")
    case True
    with whole [OF ip] show ?thesis by simp
  next
    case False
    with ft obtain fs where fs: "ft = CHR ''.'' # fs" "list_all is_digit fs" unfolding fraction_def by blast
    with frac [OF fs(2)] show ?thesis by simp
  qed
qed

abbreviation sign_text :: "bool \<Rightarrow> string" where
  "sign_text neg \<equiv> (if neg then ''-'' else [])"

lemma strtod_parts:
  assumes "number_parts ip ft et"
  shows "strtod (sign_text neg @ ip @ ft @ et) =
    round64 ((if neg then - 1 else 1) * (of_nat (digits_val (ip @ tl ft)) * 10 powi (exponent_val (tl et) - int (length (tl ft)))))"
proof -
  obtain d ds where d: "ip = d # ds" "is_digit d" using first_digit [OF assms] .
  then have "d \<noteq> CHR ''-''" by (auto simp: is_digit_def)
  with d(1) have "strtod (ip @ ft @ et) = round64 (decimal_val (ip @ ft @ et))" by (simp add: strtod_def)
  moreover have "strtod (CHR ''-'' # ip @ ft @ et) = round64 (- decimal_val (ip @ ft @ et))" by (simp add: strtod_def)
  ultimately show ?thesis by (simp only: decimal_val_parts [OF assms] append_Cons append_Nil if_split) simp
qed

abbreviation number_token :: "token_type \<Rightarrow> bool" where
  "number_token t \<equiv> t \<in> {value_unsigned, value_integer, value_float}"

text \<open>
  When the text of a number is in the buffer, \<open>scan_number_done\<close> makes the token whose value is that of
  the number; a number too large for a double makes a token without a value.
\<close>

lemma number_done:
  assumes parts: "number_parts ip ft et" and buf: "token_buffer s = sign_text neg @ ip @ ft @ et"
    and ty: "ty = (if ft = [] \<and> et = [] then if neg then value_integer else value_unsigned else value_float)"
  shows "number_token (fst (scan_number_done ty (lex_get s)))"
    and "token_json (fst (scan_number_done ty (lex_get s))) (snd (scan_number_done ty (lex_get s))) = number_value neg ip ft et"
proof -
  define u where "u = lex_unget (lex_get s)"
  have buf: "token_buffer u = sign_text neg @ ip @ ft @ et"
    using buf by (simp add: u_def unget_state lex_get_state)
  obtain d ds where d: "ip = d # ds" "is_digit d" using first_digit [OF parts] .
  then have nm: "d \<noteq> CHR ''-''" by (auto simp: is_digit_def)
  note sd = strtod_parts [OF parts, of neg, folded buf]
  have range: "- (2 ^ 63) \<le> - int n \<and> - int n < 2 ^ 63 \<longleftrightarrow> n \<le> 2 ^ 63" for n
  proof -
    have "int n \<le> 2 ^ 63 \<longleftrightarrow> n \<le> 2 ^ 63" by (metis of_nat_le_iff of_nat_numeral of_nat_power)
    moreover have "- int n < 2 ^ 63" by (rule order_le_less_trans [of _ 0]) simp_all
    ultimately show ?thesis by linarith
  qed
  show "number_token (fst (scan_number_done ty (lex_get s)))"
    by (auto simp: scan_number_done_def scan_number_float_def Let_def split: option.split)
  show "token_json (fst (scan_number_done ty (lex_get s))) (snd (scan_number_done ty (lex_get s))) = number_value neg ip ft et"
  proof (cases "ft = [] \<and> et = []")
    case True
    show ?thesis
    proof (cases neg)
      case True
      with \<open>ft = [] \<and> et = []\<close> buf have b: "token_buffer u = CHR ''-'' # ip" by simp
      have sl: "strtoll (token_buffer u) = (if digits_val ip \<le> 2 ^ 63 then Some (- int (digits_val ip)) else None)"
        unfolding b strtoll_def Let_def by (simp only: list.case if_True refl range)
      show ?thesis
        using True \<open>ft = [] \<and> et = []\<close> sd sl
        by (cases "digits_val ip \<le> 2 ^ 63")
          (simp_all add: ty scan_number_done_def Let_def u_def [symmetric] number_value_def token_json_def scan_number_float_def)
    next
      case False
      with \<open>ft = [] \<and> et = []\<close> buf have b: "token_buffer u = ip" by simp
      show ?thesis
        using False \<open>ft = [] \<and> et = []\<close> sd
        by (cases "digits_val ip < 2 ^ 64")
          (simp_all add: ty scan_number_done_def Let_def u_def [symmetric] number_value_def token_json_def scan_number_float_def strtoull_def b)
    qed
  next
    case False
    then have "ty = value_float" by (auto simp: ty)
    moreover have "number_value neg ip ft et
        = (case strtod (token_buffer u) of Fin x \<Rightarrow> Some (JFloat (Fin x)) | _ \<Rightarrow> None)"
      unfolding sd using False by (auto simp: number_value_def Let_def)
    ultimately show ?thesis
      by (simp add: scan_number_done_def Let_def u_def [symmetric] token_json_def scan_number_float_def)
  qed
qed

lemma digit_not_special: "is_digit d \<Longrightarrow> d \<noteq> CHR 0xEF" "is_digit d \<Longrightarrow> \<not> is_ws d" "is_digit d \<Longrightarrow> d \<noteq> CHR ''-''"
  by (auto simp: is_digit_def is_ws_def)

lemma scan_token_number:
  assumes "reads s c cs" "is_digit c \<or> c = CHR ''-''"
  shows "scan_token s = scan_number s"
proof -
  have "c \<notin> set ''[]{}:,tfn'' \<and> c \<noteq> dq" using assms(2) by (elim disjE) (auto simp: is_digit_def)
  then show ?thesis using assms by (simp add: scan_token_def reads_current disj_commute)
qed

lemma number_done_at: "lex_at s cs \<Longrightarrow> lex_at (snd (scan_number_done ty (lex_get s))) cs"
  using at_unget_get [of s cs] by (simp add: scan_number_done_def scan_number_float_def Let_def split: option.split)

lemma scan_number_at:
  assumes w: "ws w" and parts: "number_parts ip ft et" and at: "lex_at s (w @ sign_text neg @ ip @ ft @ et @ cs)" "number_end cs"
  shows "\<exists>t l. scan s = (t, l) \<and> lex_at l cs \<and> number_token t \<and> token_json t l = number_value neg ip ft et"
proof -
  define ty where "ty = (if neg then value_integer else value_unsigned)"
  define ty' where "ty' = (if ft = [] \<and> et = [] then ty else value_float)"
  obtain d ds where d: "ip = d # ds" "is_digit d" using first_digit [OF parts] .
  have "\<exists>s2. scan s = scan_number_done ty' (lex_get s2) \<and> lex_at s2 cs
      \<and> token_buffer s2 = sign_text neg @ ip @ ft @ et"
  proof (cases neg)
    case False
    with at(1) d(1) have "lex_at s (w @ d # ds @ ft @ et @ cs)" by simp
    then obtain s1 where s1: "scan s = scan_token s1" "reads s1 d (ds @ ft @ et @ cs)"
      using scan_start [OF w] digit_not_special [OF d(2)] by metis
    then have r: "reads (lex_reset s1) d (ds @ ft @ et @ cs)" by simp
    have "ty' = (if ft = [] \<and> et = [] then value_unsigned else value_float)" using False by (simp add: ty_def ty'_def)
    from scan_first_reads [OF parts d(1) r at(2), of value_unsigned, folded this] obtain s2 where
      s2: "(if d = CHR ''0'' then scan_number_zero value_unsigned (add_current (lex_reset s1))
            else scan_number_any1 value_unsigned (add_current (lex_reset s1)))
          = scan_number_done ty' (lex_get s2)" "lex_at s2 cs" "token_buffer s2 = ip @ ft @ et"
      by auto
    have "scan_number s1 = scan_number_done ty' (lex_get s2)"
      using s2(1) digit_not_special [OF d(2)] reads_current [OF s1(2)] by (simp add: scan_number_def Let_def split: if_splits)
    with s1 s2(2,3) scan_token_number [OF s1(2)] d(2) False show ?thesis by auto
  next
    case True
    with at(1) d(1) have "lex_at s (w @ CHR ''-'' # d # ds @ ft @ et @ cs)" by simp
    then obtain s1 where s1: "scan s = scan_token s1" "reads s1 CHR ''-'' (d # ds @ ft @ et @ cs)"
      using scan_start [OF w, of s "CHR ''-''"] by (auto simp: is_ws_def)
    define s2 where "s2 = add_current (lex_reset s1)"
    have r: "reads (lex_reset s1) CHR ''-'' (d # ds @ ft @ et @ cs)" using s1(2) by simp
    then have buf: "token_buffer s2 = ''-''" unfolding s2_def by (simp add: token_buffer_add_current [OF r])
    have "lex_at s2 (d # ds @ ft @ et @ cs)" using reads_at [OF r] by (simp add: s2_def)
    then have r2: "reads (lex_get s2) d (ds @ ft @ et @ cs)" by (rule lex_get_reads)
    have "ty' = (if ft = [] \<and> et = [] then value_integer else value_float)" using True by (simp add: ty_def ty'_def)
    from scan_first_reads [OF parts d(1) r2 at(2), of value_integer, folded this] obtain s3 where
      s3: "(if d = CHR ''0'' then scan_number_zero value_integer (add_current (lex_get s2))
            else scan_number_any1 value_integer (add_current (lex_get s2)))
          = scan_number_done ty' (lex_get s3)" "lex_at s3 cs" "token_buffer s3 = ''-'' @ ip @ ft @ et"
      using buf by (auto simp: lex_get_state(4))
    have "scan_number s1 = scan_number_done ty' (lex_get s3)"
      using s3(1) d reads_current [OF s1(2)] reads_current [OF r2]
      by (simp add: scan_number_def scan_number_minus_def Let_def s2_def split: if_splits)
    with s1 s3(2,3) scan_token_number [OF s1(2)] True show ?thesis by auto
  qed
  then obtain s2 where s2: "scan s = scan_number_done ty' (lex_get s2)" "lex_at s2 cs"
      "token_buffer s2 = sign_text neg @ ip @ ft @ et" by auto
  have "ty' = (if ft = [] \<and> et = [] then if neg then value_integer else value_unsigned else value_float)"
    by (simp add: ty_def ty'_def)
  from number_done [OF parts s2(3) this] number_done_at [OF s2(2), of ty'] s2(1) show ?thesis
    by (metis prod.collapse)
qed

end
