(* ===== verification/Json_Complete.thy ===== *)
theory Json_Complete
  imports Json_Scan_Number
begin

text \<open>
  Completeness of the parser: a text of the grammar is parsed to its value. The proof follows the loop
  of the parser over the text of a value, of the members of an object and of the elements of an array.
\<close>

section \<open>Parser states\<close>

text \<open>The parser with another lexer and token: what reading a token changes.\<close>

definition reading :: "lexer \<Rightarrow> token_type \<Rightarrow> parser \<Rightarrow> parser" where
  "reading l t p = p\<lparr>m_lexer := l, last_token := t\<rparr>"

lemma reading_simps [simp]:
  "m_lexer (reading l t p) = l" "last_token (reading l t p) = t" "states (reading l t p) = states p"
  "ref_stack (reading l t p) = ref_stack p" "root (reading l t p) = root p"
  "reading l t (reading l' t' p) = reading l t p"
  "(reading l t p)\<lparr>states := st\<rparr> = reading l t (p\<lparr>states := st\<rparr>)"
  "(reading l t p)\<lparr>ref_stack := rs\<rparr> = reading l t (p\<lparr>ref_stack := rs\<rparr>)"
  by (simp_all add: reading_def)

lemma get_token_reading: "scan (m_lexer p) = (t, l) \<Longrightarrow> get_token p = reading l t p"
  by (simp add: get_token_def reading_def)

lemma handler_reading [simp]:
  "handle_value v (reading l t p) = reading l t (handle_value v p)"
  "start_array (reading l t p) = reading l t (start_array p)"
  "start_object (reading l t p) = reading l t (start_object p)"
  "end_container (reading l t p) = reading l t (end_container p)"
  "sax_key k (reading l t p) = reading l t (sax_key k p)"
  by (simp_all add: handle_value_def start_array_def start_object_def end_container_def sax_key_def
      reading_def split: list.split frame.split)

lemma handler_states [simp]:
  "handle_value v (p\<lparr>states := st\<rparr>) = (handle_value v p)\<lparr>states := st\<rparr>"
  "sax_key k (p\<lparr>states := st\<rparr>) = (sax_key k p)\<lparr>states := st\<rparr>"
  "states (handle_value v p) = states p" "m_lexer (handle_value v p) = m_lexer p"
  "states (sax_key k p) = states p" "m_lexer (sax_key k p) = m_lexer p"
  "m_lexer (start_array p) = m_lexer p" "m_lexer (start_object p) = m_lexer p"
  "states (start_array p) = states p" "states (start_object p) = states p"
  by (simp_all add: handle_value_def sax_key_def start_array_def start_object_def split: list.split frame.split)

lemma sax_loop_scalar:
  "value_step p = Inr (False, q) \<Longrightarrow> sax_loop False p = sax_loop True q"
  by (simp add: sax_loop.simps [of False p] sax_loop.simps [of True q])

lemma sax_loop_continue: "value_step p = Inr (True, q) \<Longrightarrow> sax_loop False p = sax_loop False q"
  by (simp add: sax_loop.simps [of False p])

lemma sax_loop_state: "state_step p = Inr (Some (sk, q)) \<Longrightarrow> sax_loop True p = sax_loop sk q"
  by (simp add: sax_loop.simps [of True p])

lemma parse_key_reads:
  assumes w: "ws w1" "ws w2" and k: "str_text k kt" and inp: "lex_at (m_lexer p) (w1 @ dq # kt @ dq # w2 @ '':'' @ cs)"
  shows "\<exists>l t. last_token (get_token p) = value_string \<and>
    parse_key (get_token p) = Inr (reading l t (sax_key k p)) \<and> lex_at l cs"
proof -
  obtain l1 where l1: "scan (m_lexer p) = (value_string, l1)" "lex_at l1 (w2 @ '':'' @ cs)" "token_buffer l1 = k"
    using scan_quoted [OF w(1) k inp] by blast
  obtain l2 where l2: "scan l1 = (name_separator, l2)" "lex_at l2 cs"
    using scan_punct(5) [OF w(2), of l1 cs] l1(2) by auto
  note g1 = get_token_reading [OF l1(1)]
  have g2: "get_token (sax_key k (reading l1 value_string p)) = reading l2 name_separator (sax_key k p)"
    using get_token_reading [of "sax_key k (reading l1 value_string p)"] l2(1) by simp
  show ?thesis
    using l1(3) l2(2) g2 by (auto simp: g1 parse_key_def Let_def)
qed

section \<open>Values\<close>

text \<open>
  The claim about one value: reading its first token and running the loop comes to the point after
  the value, with the value handed to the handler.
\<close>

definition parses :: "json \<Rightarrow> string \<Rightarrow> bool" where
  "parses v t \<longleftrightarrow> (\<forall>p w cs. ws w \<longrightarrow> lex_at (m_lexer p) (w @ t @ cs) \<longrightarrow> number_end cs \<longrightarrow>
     last_token (get_token p) \<noteq> end_array \<and>
     (\<exists>l tk. sax_loop False (get_token p) = sax_loop True (reading l tk (handle_value v p)) \<and> lex_at l cs))"

lemma parsesD:
  assumes "parses v t" "ws w" "lex_at (m_lexer p) (w @ t @ cs)" "number_end cs"
  obtains l tk where "last_token (get_token p) \<noteq> end_array"
    "sax_loop False (get_token p) = sax_loop True (reading l tk (handle_value v p))" "lex_at l cs"
  using assms unfolding parses_def by blast

lemma value_step_token:
  "token_json (last_token p) (m_lexer p) = Some v \<Longrightarrow> value_step p = Inr (False, handle_value v p)"
  by (auto simp: token_json_def value_step_def split: token_type.splits double.splits)

lemma parses_token:
  assumes "\<And>s w cs. ws w \<Longrightarrow> lex_at s (w @ t @ cs) \<Longrightarrow> number_end cs \<Longrightarrow>
    \<exists>tk l. scan s = (tk, l) \<and> lex_at l cs \<and> token_json tk l = Some v"
  shows "parses v t"
  unfolding parses_def
proof (intro allI impI)
  fix p :: parser and w cs
  assume "ws w" "lex_at (m_lexer p) (w @ t @ cs)" "number_end cs"
  from assms [OF this] obtain l tk where t: "scan (m_lexer p) = (tk, l)" "lex_at l cs" "token_json tk l = Some v"
    by blast
  then have "tk \<noteq> end_array" by (auto simp: token_json_def)
  moreover have "value_step (reading l tk p) = Inr (False, reading l tk (handle_value v p))"
    using value_step_token [of "reading l tk p"] t(3) by simp
  ultimately show "last_token (get_token p) \<noteq> end_array \<and>
     (\<exists>l tk. sax_loop False (get_token p) = sax_loop True (reading l tk (handle_value v p)) \<and> lex_at l cs)"
    using t(2) sax_loop_scalar by (auto simp: get_token_reading [OF t(1)])
qed

lemma parses_literals: "parses JNull ''null''" "parses (JBool True) ''true''" "parses (JBool False) ''false''"
  by (rule parses_token; use scan_literals in \<open>fastforce simp: token_json_def\<close>)+

lemma parses_string: "str_text s t \<Longrightarrow> parses (JString s) (dq # t @ [dq])"
  by (rule parses_token) (use scan_quoted in \<open>fastforce simp: token_json_def\<close>)

lemma parses_number:
  assumes "number_parts ip ft et" "number_value neg ip ft et = Some v"
  shows "parses v (sign_text neg @ ip @ ft @ et)"
  by (rule parses_token) (use scan_number_at [OF _ assms(1), of _ _ neg] assms(2) in fastforce)

section \<open>Arrays and objects\<close>

lemma number_end_ws: "ws w \<Longrightarrow> number_end (w @ c # cs)" if "c \<in> set '',:]}''"
  using that by (cases w) (auto simp: number_end_def ws_def is_ws_def is_digit_def)

lemma get_token_states [simp]: "get_token (p\<lparr>states := st\<rparr>) = (get_token p)\<lparr>states := st\<rparr>"
  "get_token (reading l t (p\<lparr>states := st\<rparr>)) = (get_token (reading l t p))\<lparr>states := st\<rparr>"
  "states (get_token p) = states p" "root (get_token p) = root p"
  by (simp_all add: get_token_def reading_def case_prod_unfold Let_def)

lemma state_step_array:
  assumes "states p = True # st" "get_token p = q"
  shows "last_token q = value_separator \<Longrightarrow> state_step p = Inr (Some (False, get_token q))"
    and "last_token q = end_array \<Longrightarrow> state_step p = Inr (Some (True, (end_container q)\<lparr>states := st\<rparr>))"
  using assms by (simp_all add: state_step_def Let_def)

lemma state_step_object:
  assumes "states p = False # st" "get_token p = q"
  shows "last_token q = value_separator \<Longrightarrow> parse_key (get_token q) = Inr r \<Longrightarrow>
      state_step p = Inr (Some (False, get_token r))"
    and "last_token q = end_object \<Longrightarrow> state_step p = Inr (Some (True, (end_container q)\<lparr>states := st\<rparr>))"
  using assms by (simp_all add: state_step_def Let_def)

text \<open>The elements read so far, from the opening bracket on, and the members likewise.\<close>

definition parses_elements :: "json list \<Rightarrow> string \<Rightarrow> bool" where
  "parses_elements vs t \<longleftrightarrow> (\<forall>p rs st cs. ref_stack p = FArray [] # rs \<longrightarrow> states p = True # st \<longrightarrow>
     lex_at (m_lexer p) (t @ cs) \<longrightarrow> number_end cs \<longrightarrow> last_token (get_token p) \<noteq> end_array \<and>
     (\<exists>l tk. sax_loop False (get_token p) = sax_loop True (reading l tk (p\<lparr>ref_stack := FArray vs # rs\<rparr>)) \<and> lex_at l cs))"

definition parses_members :: "(string \<times> json) list \<Rightarrow> string \<Rightarrow> bool" where
  "parses_members kvs t \<longleftrightarrow> (\<forall>p rs st cs. ref_stack p = FObject [] [] # rs \<longrightarrow> states p = False # st \<longrightarrow>
     lex_at (m_lexer p) (t @ cs) \<longrightarrow> number_end cs \<longrightarrow> last_token (get_token p) = value_string \<and>
     (\<exists>q l tk k. parse_key (get_token p) = Inr q \<and> states q = states p \<and>
        sax_loop False (get_token q) = sax_loop True (reading l tk (p\<lparr>ref_stack := FObject (put_members kvs) k # rs\<rparr>)) \<and>
        lex_at l cs))"

lemma parses_elementsD:
  assumes "parses_elements vs t" "ref_stack p = FArray [] # rs" "states p = True # st"
    "lex_at (m_lexer p) (t @ cs)" "number_end cs"
  obtains l tk where "last_token (get_token p) \<noteq> end_array"
    "sax_loop False (get_token p) = sax_loop True (reading l tk (p\<lparr>ref_stack := FArray vs # rs\<rparr>))" "lex_at l cs"
  using assms unfolding parses_elements_def by blast

lemma parses_membersD:
  assumes "parses_members kvs t" "ref_stack p = FObject [] [] # rs" "states p = False # st"
    "lex_at (m_lexer p) (t @ cs)" "number_end cs"
  obtains q l tk k where "last_token (get_token p) = value_string" "parse_key (get_token p) = Inr q" "states q = states p"
    "sax_loop False (get_token q) = sax_loop True (reading l tk (p\<lparr>ref_stack := FObject (put_members kvs) k # rs\<rparr>))"
    "lex_at l cs"
  using assms unfolding parses_members_def by blast

lemma parses_element:
  assumes "ws w" "parses v t"
  shows "parses_elements [v] (w @ t)"
  unfolding parses_elements_def
proof (intro allI impI)
  fix p :: parser and rs st cs
  assume p: "ref_stack p = FArray [] # rs" "lex_at (m_lexer p) ((w @ t) @ cs)" "number_end cs"
  then have "lex_at (m_lexer p) (w @ t @ cs)" by simp
  then obtain l tk where v: "last_token (get_token p) \<noteq> end_array"
      "sax_loop False (get_token p) = sax_loop True (reading l tk (handle_value v p))" "lex_at l cs"
    using parsesD [OF assms(2,1) _ p(3)] by metis
  then show "last_token (get_token p) \<noteq> end_array \<and>
      (\<exists>l tk. sax_loop False (get_token p) = sax_loop True (reading l tk (p\<lparr>ref_stack := FArray [v] # rs\<rparr>)) \<and> lex_at l cs)"
    using p(1) by (auto simp: handle_value_def)
qed

lemma parses_more_elements:
  assumes vs: "parses_elements vs t" and w: "ws w'" "ws w" and v: "parses v u"
  shows "parses_elements (vs @ [v]) (t @ w' @ '','' @ w @ u)"
  unfolding parses_elements_def
proof (intro allI impI)
  fix p :: parser and rs st cs
  assume p: "ref_stack p = FArray [] # rs" "states p = True # st" "lex_at (m_lexer p) ((t @ w' @ '','' @ w @ u) @ cs)" "number_end cs"
  then have inp: "lex_at (m_lexer p) (t @ w' @ CHR '','' # w @ u @ cs)" by simp
  have "number_end (w' @ CHR '','' # w @ u @ cs)" by (rule number_end_ws [OF _ w(1)]) simp
  with parses_elementsD [OF vs p(1,2) inp] obtain l tk where l: "last_token (get_token p) \<noteq> end_array"
      "sax_loop False (get_token p) = sax_loop True (reading l tk (p\<lparr>ref_stack := FArray vs # rs\<rparr>))"
      "lex_at l (w' @ CHR '','' # w @ u @ cs)" by metis
  define q where "q = reading l tk (p\<lparr>ref_stack := FArray vs # rs\<rparr>)"
  obtain l2 where l2: "scan l = (value_separator, l2)" "lex_at l2 (w @ u @ cs)" using scan_punct(6) [OF w(1) l(3)] by blast
  define r where "r = reading l2 value_separator (p\<lparr>ref_stack := FArray vs # rs\<rparr>)"
  have g: "get_token q = r" using get_token_reading [of q] l2(1) by (simp add: q_def r_def)
  have "state_step q = Inr (Some (False, get_token r))"
    using state_step_array(1) [OF _ g, of st] p(2) by (simp add: q_def r_def)
  then have eq: "sax_loop False (get_token p) = sax_loop False (get_token r)"
    using l(2) by (simp add: sax_loop_state q_def)
  have "lex_at (m_lexer r) (w @ u @ cs)" using l2(2) by (simp add: r_def)
  then obtain l3 tk3 where "sax_loop False (get_token r) = sax_loop True (reading l3 tk3 (handle_value v r))" "lex_at l3 cs"
    using parsesD [OF v w(2) _ p(4)] by metis
  with eq l(1) show "last_token (get_token p) \<noteq> end_array \<and>
      (\<exists>l tk. sax_loop False (get_token p) = sax_loop True (reading l tk (p\<lparr>ref_stack := FArray (vs @ [v]) # rs\<rparr>)) \<and> lex_at l cs)"
    by (auto simp: r_def handle_value_def)
qed

lemma parses_array0:
  assumes "ws w"
  shows "parses (JArray []) (CHR ''['' # w @ '']'')"
  unfolding parses_def
proof (intro allI impI)
  fix p :: parser and w0 cs
  assume w0: "ws w0" and inp: "lex_at (m_lexer p) (w0 @ (CHR ''['' # w @ '']'') @ cs)"
  then obtain l where l: "scan (m_lexer p) = (begin_array, l)" "lex_at l (w @ CHR '']'' # cs)"
    using scan_punct(1) [OF w0, of "m_lexer p" "w @ CHR '']'' # cs"] by auto
  obtain l2 where l2: "scan l = (end_array, l2)" "lex_at l2 cs" using scan_punct(2) [OF assms l(2)] by blast
  note g = get_token_reading [OF l(1)]
  define q where "q = start_array (reading l begin_array p)"
  have "get_token q = reading l2 end_array (start_array p)"
    using get_token_reading [of q] l2(1) by (simp add: q_def)
  then have "value_step (get_token p) = Inr (False, reading l2 end_array (handle_value (JArray []) p))"
    by (simp add: g value_step_def Let_def q_def end_container_def start_array_def)
  with l2(2) show "last_token (get_token p) \<noteq> end_array \<and>
     (\<exists>l tk. sax_loop False (get_token p) = sax_loop True (reading l tk (handle_value (JArray []) p)) \<and> lex_at l cs)"
    by (auto simp: sax_loop_scalar g)
qed

lemma parses_array:
  assumes vs: "parses_elements vs t" and w: "ws w"
  shows "parses (JArray vs) (CHR ''['' # t @ w @ '']'')"
  unfolding parses_def
proof (intro allI impI)
  fix p :: parser and w0 cs
  assume w0: "ws w0" and inp: "lex_at (m_lexer p) (w0 @ (CHR ''['' # t @ w @ '']'') @ cs)"
  then obtain l where l: "scan (m_lexer p) = (begin_array, l)" "lex_at l (t @ w @ CHR '']'' # cs)"
    using scan_punct(1) [OF w0, of "m_lexer p" "t @ w @ CHR '']'' # cs"] by auto
  note g = get_token_reading [OF l(1)]
  define q where "q = start_array (reading l begin_array p)"
  define r where "r = q\<lparr>states := True # states p\<rparr>"
  have r: "ref_stack r = FArray [] # ref_stack p" "states r = True # states p" "lex_at (m_lexer r) (t @ w @ CHR '']'' # cs)"
    using l(2) by (simp_all add: r_def q_def start_array_def)
  have "number_end (w @ CHR '']'' # cs)" by (rule number_end_ws [OF _ w]) simp
  with parses_elementsD [OF vs r] obtain l2 tk2 where el: "last_token (get_token r) \<noteq> end_array"
    "sax_loop False (get_token r) = sax_loop True (reading l2 tk2 (r\<lparr>ref_stack := FArray vs # ref_stack p\<rparr>))"
    "lex_at l2 (w @ CHR '']'' # cs)" by metis
  then have "value_step (get_token p) = Inr (True, get_token r)"
    by (simp add: g value_step_def Let_def r_def q_def)
  then have eq: "sax_loop False (get_token p) = sax_loop False (get_token r)" by (rule sax_loop_continue)
  define u where "u = reading l2 tk2 (r\<lparr>ref_stack := FArray vs # ref_stack p\<rparr>)"
  obtain l3 where l3: "scan l2 = (end_array, l3)" "lex_at l3 cs" using scan_punct(2) [OF w el(3)] by blast
  have gu: "get_token u = reading l3 end_array (r\<lparr>ref_stack := FArray vs # ref_stack p\<rparr>)"
    using get_token_reading [of u] l3(1) by (simp add: u_def)
  have "state_step u = Inr (Some (True, reading l3 end_array
      (handle_value (JArray vs) (r\<lparr>ref_stack := ref_stack p, states := states p\<rparr>))))"
    using state_step_array(2) [OF _ gu, of "states p"] r(2) by (simp add: u_def end_container_def)
  moreover have "r\<lparr>ref_stack := ref_stack p, states := states p\<rparr> = reading l begin_array p"
    by (simp add: r_def q_def start_array_def reading_def)
  ultimately show "last_token (get_token p) \<noteq> end_array \<and>
     (\<exists>l tk. sax_loop False (get_token p) = sax_loop True (reading l tk (handle_value (JArray vs) p)) \<and> lex_at l cs)"
    using l3(2) eq el(2) by (auto simp: sax_loop_state u_def g)
qed

text \<open>A member: the key, the separator and the value, after which the object holds the member.\<close>

lemma put_members_simps [simp]:
  "put_members [] = []" "put_members (kvs @ [(k, v)]) = map_put k v (put_members kvs)"
  by (simp_all add: put_members_def)

lemma member_parse:
  assumes w: "ws w1" "ws w2" "ws w3" and k: "str_text k kt" and v: "parses v t"
    and p: "ref_stack p = FObject m k0 # rs" "lex_at (m_lexer p) (w1 @ dq # kt @ dq # w2 @ '':'' @ w3 @ t @ cs)" "number_end cs"
  shows "last_token (get_token p) = value_string \<and>
    (\<exists>q l tk. parse_key (get_token p) = Inr q \<and> states q = states p \<and>
      sax_loop False (get_token q) = sax_loop True (reading l tk (p\<lparr>ref_stack := FObject (map_put k v m) k # rs\<rparr>)) \<and> lex_at l cs)"
proof -
  obtain l tk where key: "last_token (get_token p) = value_string"
      "parse_key (get_token p) = Inr (reading l tk (sax_key k p))" "lex_at l (w3 @ t @ cs)"
    using parse_key_reads [OF w(1,2) k p(2)] by blast
  define q where "q = reading l tk (sax_key k p)"
  have q: "q = reading l tk (p\<lparr>ref_stack := FObject m k # rs\<rparr>)"
    using p(1) by (simp add: q_def sax_key_def)
  have "lex_at (m_lexer q) (w3 @ t @ cs)" using key(3) by (simp add: q_def)
  then obtain l2 t2 where v: "sax_loop False (get_token q) = sax_loop True (reading l2 t2 (handle_value v q))" "lex_at l2 cs"
    using parsesD [OF v w(3) _ p(3)] by metis
  have hv: "reading l2 t2 (handle_value v q) = reading l2 t2 (p\<lparr>ref_stack := FObject (map_put k v m) k # rs\<rparr>)"
    by (simp add: q handle_value_def)
  have "parse_key (get_token p) = Inr q" "states q = states p" using key(2) by (simp_all add: q_def)
  with v(1) [unfolded hv] v(2) key(1) show ?thesis by blast
qed

lemma parses_member:
  assumes w: "ws w1" "ws w2" "ws w3" and k: "str_text k kt" and v: "parses v t"
  shows "parses_members [(k, v)] (w1 @ dq # kt @ dq # w2 @ '':'' @ w3 @ t)"
  unfolding parses_members_def
proof (intro allI impI)
  fix p :: parser and rs st cs
  assume p: "ref_stack p = FObject [] [] # rs" "lex_at (m_lexer p) ((w1 @ dq # kt @ dq # w2 @ '':'' @ w3 @ t) @ cs)" "number_end cs"
  then have "lex_at (m_lexer p) (w1 @ dq # kt @ dq # w2 @ '':'' @ w3 @ t @ cs)" by simp
  from member_parse [OF w k v p(1) this p(3)]
  show "last_token (get_token p) = value_string \<and>
     (\<exists>q l tk k'. parse_key (get_token p) = Inr q \<and> states q = states p \<and>
        sax_loop False (get_token q) = sax_loop True (reading l tk (p\<lparr>ref_stack := FObject (put_members [(k, v)]) k' # rs\<rparr>)) \<and>
        lex_at l cs)"
    by (auto simp: put_members_def)
qed

lemma parses_more_members:
  assumes kvs: "parses_members kvs t" and w': "ws w'" and w: "ws w1" "ws w2" "ws w3" and k: "str_text k kt" and v: "parses v u"
  shows "parses_members (kvs @ [(k, v)]) (t @ w' @ '','' @ w1 @ dq # kt @ dq # w2 @ '':'' @ w3 @ u)"
  unfolding parses_members_def
proof (intro allI impI)
  fix p :: parser and rs st cs
  let ?m = "w1 @ dq # kt @ dq # w2 @ '':'' @ w3 @ u @ cs"
  assume p: "ref_stack p = FObject [] [] # rs" "states p = False # st"
    "lex_at (m_lexer p) ((t @ w' @ '','' @ w1 @ dq # kt @ dq # w2 @ '':'' @ w3 @ u) @ cs)" "number_end cs"
  then have inp: "lex_at (m_lexer p) (t @ w' @ CHR '','' # ?m)" by simp
  have "number_end (w' @ CHR '','' # ?m)" by (rule number_end_ws [OF _ w']) simp
  with parses_membersD [OF kvs p(1,2) inp] obtain q l tk k0 where q: "last_token (get_token p) = value_string" "parse_key (get_token p) = Inr q" "states q = states p"
      "sax_loop False (get_token q) = sax_loop True (reading l tk (p\<lparr>ref_stack := FObject (put_members kvs) k0 # rs\<rparr>))"
      "lex_at l (w' @ CHR '','' # ?m)" by metis
  define r where "r = reading l tk (p\<lparr>ref_stack := FObject (put_members kvs) k0 # rs\<rparr>)"
  obtain l2 where l2: "scan l = (value_separator, l2)" "lex_at l2 ?m" using scan_punct(6) [OF w' q(5)] by blast
  define r2 where "r2 = reading l2 value_separator (p\<lparr>ref_stack := FObject (put_members kvs) k0 # rs\<rparr>)"
  have g: "get_token r = r2" using get_token_reading [of r] l2(1) by (simp add: r_def r2_def)
  have r2: "ref_stack r2 = FObject (put_members kvs) k0 # rs" "states r2 = False # st" "lex_at (m_lexer r2) ?m"
    using p(2) l2(2) by (simp_all add: r2_def)
  from member_parse [OF w k v r2(1,3) p(4)] obtain q2 l3 t3 where
    q2: "parse_key (get_token r2) = Inr q2"
      "sax_loop False (get_token q2) = sax_loop True (reading l3 t3 (r2\<lparr>ref_stack := FObject (map_put k v (put_members kvs)) k # rs\<rparr>))"
      "lex_at l3 cs"
    by blast
  have "state_step r = Inr (Some (False, get_token q2))"
    using state_step_object(1) [OF _ g _ q2(1), of st] p(2) by (simp add: r_def r2_def)
  then have "sax_loop False (get_token q) = sax_loop False (get_token q2)"
    using q(4) by (simp add: sax_loop_state r_def)
  with q2(2,3) q(1-3) show "last_token (get_token p) = value_string \<and>
     (\<exists>q l tk k'. parse_key (get_token p) = Inr q \<and> states q = states p \<and>
        sax_loop False (get_token q) = sax_loop True (reading l tk (p\<lparr>ref_stack := FObject (put_members (kvs @ [(k, v)])) k' # rs\<rparr>)) \<and>
        lex_at l cs)"
    by (auto simp: r2_def)
qed

lemma parse_key_states:
  "parse_key (p\<lparr>states := st\<rparr>) = Inr q \<Longrightarrow> parse_key p = Inr (q\<lparr>states := states p\<rparr>)"
  by (auto simp: parse_key_def Let_def syntax_error_def split: if_splits)

lemma parses_object0:
  assumes "ws w"
  shows "parses (JObject []) (CHR ''{'' # w @ ''}'')"
  unfolding parses_def
proof (intro allI impI)
  fix p :: parser and w0 cs
  assume w0: "ws w0" and inp: "lex_at (m_lexer p) (w0 @ (CHR ''{'' # w @ ''}'') @ cs)"
  then obtain l where l: "scan (m_lexer p) = (begin_object, l)" "lex_at l (w @ CHR ''}'' # cs)"
    using scan_punct(3) [OF w0, of "m_lexer p" "w @ CHR ''}'' # cs"] by auto
  obtain l2 where l2: "scan l = (end_object, l2)" "lex_at l2 cs" using scan_punct(4) [OF assms l(2)] by blast
  note g = get_token_reading [OF l(1)]
  define q where "q = start_object (reading l begin_object p)"
  have "get_token q = reading l2 end_object (start_object p)"
    using get_token_reading [of q] l2(1) by (simp add: q_def)
  then have "value_step (get_token p) = Inr (False, reading l2 end_object (handle_value (JObject []) p))"
    by (simp add: g value_step_def Let_def q_def end_container_def start_object_def)
  with l2(2) show "last_token (get_token p) \<noteq> end_array \<and>
     (\<exists>l tk. sax_loop False (get_token p) = sax_loop True (reading l tk (handle_value (JObject []) p)) \<and> lex_at l cs)"
    by (auto simp: sax_loop_scalar g)
qed

lemma parses_object:
  assumes kvs: "parses_members kvs t" and w: "ws w"
  shows "parses (JObject (put_members kvs)) (CHR ''{'' # t @ w @ ''}'')"
  unfolding parses_def
proof (intro allI impI)
  fix p :: parser and w0 cs
  assume w0: "ws w0" and inp: "lex_at (m_lexer p) (w0 @ (CHR ''{'' # t @ w @ ''}'') @ cs)"
  then obtain l where l: "scan (m_lexer p) = (begin_object, l)" "lex_at l (t @ w @ CHR ''}'' # cs)"
    using scan_punct(3) [OF w0, of "m_lexer p" "t @ w @ CHR ''}'' # cs"] by auto
  note g = get_token_reading [OF l(1)]
  define q where "q = start_object (reading l begin_object p)"
  define r where "r = q\<lparr>states := False # states p\<rparr>"
  have r: "ref_stack r = FObject [] [] # ref_stack p" "states r = False # states p" "lex_at (m_lexer r) (t @ w @ CHR ''}'' # cs)"
    using l(2) by (simp_all add: r_def q_def start_object_def)
  have "number_end (w @ CHR ''}'' # cs)" by (rule number_end_ws [OF _ w]) simp
  with parses_membersD [OF kvs r] obtain q2 l2 tk2 k where
    q2: "last_token (get_token r) = value_string" "parse_key (get_token r) = Inr q2" "states q2 = states r"
      "sax_loop False (get_token q2) = sax_loop True (reading l2 tk2 (r\<lparr>ref_stack := FObject (put_members kvs) k # ref_stack p\<rparr>))"
      "lex_at l2 (w @ CHR ''}'' # cs)" by metis
  have pk: "parse_key (get_token q) = Inr (q2\<lparr>states := states p\<rparr>)"
    using parse_key_states [where p = "get_token q" and st = "False # states p" and q = q2] q2(2) by (simp add: r_def q_def)
  have "q2\<lparr>states := states p, states := False # states p\<rparr> = q2" using q2(3) r(2) by simp
  then have "value_step (get_token p) = Inr (True, get_token q2)"
    using q2(1) pk by (simp add: g value_step_def Let_def r_def q_def)
  then have eq: "sax_loop False (get_token p) = sax_loop False (get_token q2)" by (rule sax_loop_continue)
  define u where "u = reading l2 tk2 (r\<lparr>ref_stack := FObject (put_members kvs) k # ref_stack p\<rparr>)"
  obtain l3 where l3: "scan l2 = (end_object, l3)" "lex_at l3 cs" using scan_punct(4) [OF w q2(5)] by blast
  have gu: "get_token u = reading l3 end_object (r\<lparr>ref_stack := FObject (put_members kvs) k # ref_stack p\<rparr>)"
    using get_token_reading [of u] l3(1) by (simp add: u_def)
  have "state_step u = Inr (Some (True, reading l3 end_object
      (handle_value (JObject (put_members kvs)) (r\<lparr>ref_stack := ref_stack p, states := states p\<rparr>))))"
    using state_step_object(2) [OF _ gu, of "states p"] r(2) by (simp add: u_def end_container_def)
  moreover have "r\<lparr>ref_stack := ref_stack p, states := states p\<rparr> = reading l begin_object p"
    by (simp add: r_def q_def start_object_def reading_def)
  ultimately show "last_token (get_token p) \<noteq> end_array \<and>
     (\<exists>l tk. sax_loop False (get_token p) = sax_loop True (reading l tk (handle_value (JObject (put_members kvs)) p)) \<and> lex_at l cs)"
    using l3(2) eq q2(4) by (auto simp: sax_loop_state u_def g)
qed

section \<open>Documents\<close>

lemma grammar_parses:
  "gvalue v t \<Longrightarrow> parses v t"
  "gelements vs t \<Longrightarrow> parses_elements vs t"
  "gmembers kvs t \<Longrightarrow> parses_members kvs t"
  by (induction rule: gvalue_gelements_gmembers.inducts)
    (blast intro: parses_literals parses_number parses_string parses_array0 parses_array parses_object0 parses_object
      parses_element parses_more_elements parses_member parses_more_members)+

lemma chars_read_get: "chars_read_total (lex_get s) = Suc (chars_read_total s)"
proof -
  have "chars_read_total (lex_note s) = chars_read_total s" "chars_read_total (lex_fetch s) = chars_read_total s" for s
    by (simp_all add: lex_note_def lex_fetch_def split: option.split list.split)
  then show ?thesis by (simp add: lex_get_def)
qed

text \<open>A byte order mark before the first token is skipped.\<close>

lemma scan_bom:
  assumes "chars_read_total s = 0" "lex_at s (bom @ cs)"
  obtains s' where "scan s = scan s'" "lex_at s' cs"
proof -
  have at: "lex_at s (CHR 0xEF # CHR 0xBB # CHR 0xBF # cs)" using assms(2) by (simp add: bom_def)
  note r1 = lex_get_step [OF at]
  note r2 = lex_get_step [OF r1(3)]
  note r3 = lex_get_step [OF r2(3)]
  let ?s = "lex_get (lex_get (lex_get s))"
  have "chars_read_total ?s \<noteq> 0" by (simp add: chars_read_get)
  then have "scan s = scan ?s"
    using assms(1) r1(1) r2(1) r3(1) by (simp add: scan_def skip_bom_def Let_def)
  with r3(3) that show ?thesis by blast
qed

theorem document_parses:
  assumes "document v text"
  shows "json_parse text = Inr v"
proof -
  obtain b w t w' rest where d: "text = b @ w @ t @ w' @ rest" "b = [] \<or> b = bom" "ws w" "gvalue v t" "ws w'"
      "rest = [] \<or> hd rest = CHR 0x00"
    using assms unfolding document_def by blast
  define p0 where "p0 = new_parser text"
  have at: "lex_at (m_lexer p0) (b @ w @ t @ w' @ rest)"
    using d(1) by (simp add: p0_def new_parser_def new_lexer_def lex_at_def view_def)
  have "chars_read_total (m_lexer p0) = 0" by (simp add: p0_def new_parser_def new_lexer_def)
  then obtain s where s: "scan (m_lexer p0) = scan s" "lex_at s (w @ t @ w' @ rest)"
    using d(2) at scan_bom by (metis append_Nil)
  define p where "p = p0\<lparr>m_lexer := s\<rparr>"
  have same: "get_token p0 = get_token p" using s(1) by (simp add: p_def get_token_def Let_def case_prod_unfold)
  have "lex_at (m_lexer p) (w @ t @ w' @ rest)" using s(2) by (simp add: p_def)
  moreover have "number_end (w' @ rest)"
    using d(5,6) by (cases w'; cases rest) (auto simp: number_end_def ws_def is_ws_def is_digit_def)
  ultimately obtain l tk where loop: "sax_loop False (get_token p) = sax_loop True (reading l tk (handle_value v p))"
      "lex_at l (w' @ rest)"
    using parsesD [OF grammar_parses(1) [OF d(4)] d(3)] by metis
  define q where "q = reading l tk (handle_value v p)"
  have "states q = []" "root q = v" "m_lexer q = l"
    by (simp_all add: q_def p_def p0_def new_parser_def handle_value_def)
  moreover obtain l2 where "scan l = (end_of_input, l2)" using scan_end [OF d(5) loop(2) d(6)] .
  ultimately have "sax_loop True q = Inr q" "last_token (get_token q) = end_of_input" "root (get_token q) = v"
    using get_token_reading [of q] by (simp_all add: sax_loop.simps [of True q] state_step_def)
  then show ?thesis using loop(1) by (simp add: json_parse_def parser_parse_def q_def Let_def same p0_def [symmetric])
qed

end
