(* ===== verification/Json_Sound.thy ===== *)
theory Json_Sound
  imports Json_Complete
begin

text \<open>
  Soundness of the parser: what it accepts is a text of the grammar, and its result is the value of the
  text. Each scan function is shown to return a token only after it has read a text of the token; the
  stack of the parser describes the text that has been read of every container that is still open.
\<close>

section \<open>The text that has been read\<close>

text \<open>The scanner in front of a text, after at least one character: a byte order mark is no longer looked for.\<close>

definition live :: "lexer \<Rightarrow> string \<Rightarrow> bool" where
  "live s cs \<longleftrightarrow> lex_at s cs \<and> 0 < chars_read_total s"

lemma live_at: "live s cs \<Longrightarrow> lex_at s cs"
  by (simp add: live_def)

lemma live_get: "lex_at (lex_get s) cs \<Longrightarrow> live (lex_get s) cs"
  by (simp add: live_def chars_read_get)

lemma total_frame [simp]:
  "chars_read_total (lex_add c s) = chars_read_total s" "chars_read_total (add_current s) = chars_read_total s"
  "chars_read_total (lex_reset s) = chars_read_total s"
  by (simp_all add: lex_add_def add_current_def lex_reset_def split: option.split)

lemma live_frame [simp]:
  "live (lex_add c s) cs = live s cs" "live (add_current s) cs = live s cs" "live (lex_reset s) cs = live s cs"
  "live (s\<lparr>num_unsigned := n\<rparr>) cs = live s cs" "live (s\<lparr>num_integer := i\<rparr>) cs = live s cs"
  "live (s\<lparr>num_float := x\<rparr>) cs = live s cs"
  by (simp_all add: live_def)

lemma live_add_all [simp]: "live (add_all bs s) cs = live s cs"
proof -
  have "live (foldl (\<lambda>s c. lex_add c s) s bs) cs = live s cs"
    by (induction bs arbitrary: s) simp_all
  then show ?thesis by (simp add: add_all_def)
qed

lemma live_unget_get: "live s cs \<Longrightarrow> live (lex_unget (lex_get s)) cs"
  using at_unget_get [of s cs] by (simp add: live_def lex_unget_def Let_def chars_read_get)

text \<open>Reading a character: there is none, or it is the next one of the text.\<close>

lemma get_cases:
  assumes "lex_at s cs"
  obtains (eof) "cs = []" "current (lex_get s) = None" "live (lex_get s) []"
    | (char) c cs' where "cs = c # cs'" "current (lex_get s) = Some c" "live (lex_get s) cs'"
proof (cases cs)
  case Nil
  with assms lex_get_eof [of s] show ?thesis by (intro eof) (simp_all add: live_get)
next
  case (Cons c cs')
  with assms have at: "lex_at s (c # cs')" by simp
  show ?thesis by (rule char [OF Cons lex_get_step(1) [OF at] live_get [OF lex_get_step(3) [OF at]]])
qed

lemma get_Some:
  assumes "lex_at s cs" "current (lex_get s) = Some c"
  obtains cs' where "cs = c # cs'" "live (lex_get s) cs'"
  using get_cases [OF assms(1)] assms(2) by (metis option.distinct(1) option.inject)

section \<open>Strings\<close>

lemma codepoint_loop_step:
  assumes "get_codepoint_loop (f # fs) cp s = (r, s')" "r \<noteq> - 1" "lex_at s cs"
  obtains c d cs' where "cs = c # cs'" "hex_digit c = Some d" "live (lex_get s) cs'"
    "get_codepoint_loop fs (cp + int d * 2 ^ f) (lex_get s) = (r, s')"
proof -
  from assms(1,2) obtain c d where c: "current (lex_get s) = Some c" "hex_digit c = Some d"
      "get_codepoint_loop fs (cp + int d * 2 ^ f) (lex_get s) = (r, s')"
    by (auto simp: Let_def split: option.splits bind_splits)
  from get_Some [OF assms(3) c(1)] c(2,3) that show ?thesis by metis
qed

lemma get_codepoint_sound:
  assumes "get_codepoint s = (r, s')" "r \<noteq> - 1" "lex_at s cs"
  obtains h n cs' where "cs = h @ cs'" "code_unit h = Some n" "r = int n" "live s' cs'" "token_buffer s' = token_buffer s"
proof -
  note step = codepoint_loop_step [OF _ assms(2)]
  from assms(1) have "get_codepoint_loop [12, 8, 4, 0] 0 s = (r, s')" by (simp add: get_codepoint_def)
  from step [OF this assms(3)] obtain a w cs1 where 1: "cs = a # cs1" "hex_digit a = Some w" "live (lex_get s) cs1"
    "get_codepoint_loop [8, 4, 0] (0 + int w * 2 ^ 12) (lex_get s) = (r, s')" .
  from step [OF 1(4) live_at [OF 1(3)]] obtain b x cs2 where 2: "cs1 = b # cs2" "hex_digit b = Some x"
    "live (lex_get (lex_get s)) cs2"
    "get_codepoint_loop [4, 0] (0 + int w * 2 ^ 12 + int x * 2 ^ 8) (lex_get (lex_get s)) = (r, s')" .
  from step [OF 2(4) live_at [OF 2(3)]] obtain c y cs3 where 3: "cs2 = c # cs3" "hex_digit c = Some y"
    "live (lex_get (lex_get (lex_get s))) cs3"
    "get_codepoint_loop [0] (0 + int w * 2 ^ 12 + int x * 2 ^ 8 + int y * 2 ^ 4) (lex_get (lex_get (lex_get s))) = (r, s')" .
  from step [OF 3(4) live_at [OF 3(3)]] obtain d z cs4 where 4: "cs3 = d # cs4" "hex_digit d = Some z"
    "live (lex_get (lex_get (lex_get (lex_get s)))) cs4"
    "get_codepoint_loop [] (0 + int w * 2 ^ 12 + int x * 2 ^ 8 + int y * 2 ^ 4 + int z * 2 ^ 0) (lex_get (lex_get (lex_get (lex_get s)))) = (r, s')" .
  show ?thesis
    by (rule that [of "[a, b, c, d]" cs4 "w * 4096 + x * 256 + y * 16 + z"])
      (use 1(1,2) 2(1,2) 3(1,2) 4 in \<open>auto simp: lex_get_state(4)\<close>)
qed

lemma next_byte_loop_sound:
  "next_byte_loop rs s = (True, s') \<Longrightarrow> live s cs \<Longrightarrow>
   \<exists>bs cs'. cs = bs @ cs' \<and> in_ranges rs bs \<and> live s' cs' \<and> token_buffer s' = token_buffer s @ bs"
proof (induction rs arbitrary: s cs)
  case Nil
  then show ?case by (intro exI [of _ "[]"] exI [of _ cs]) (simp add: in_ranges_def)
next
  case (Cons r rs)
  obtain lo hi where r: "r = (lo, hi)" by fastforce
  from Cons.prems(1) r obtain c where c: "current (lex_get s) = Some c" "lo \<le> byte c" "byte c \<le> hi"
      "next_byte_loop rs (lex_add c (lex_get s)) = (True, s')"
    by (auto simp: Let_def split: option.splits if_splits)
  from get_Some [OF live_at [OF Cons.prems(2)] c(1)] obtain cs1 where cs1: "cs = c # cs1" "live (lex_get s) cs1" .
  from cs1(2) have "live (lex_add c (lex_get s)) cs1" by simp
  from Cons.IH [OF c(4) this] obtain bs cs' where
    "cs1 = bs @ cs'" "in_ranges rs bs" "live s' cs'" "token_buffer s' = token_buffer s @ c # bs"
    by (auto simp: token_buffer_lex lex_get_state(4))
  with cs1(1) c(2,3) r show ?case by (intro exI [of _ "c # bs"] exI [of _ cs']) (simp add: in_ranges_def)
qed

abbreviation reads_char :: "lexer \<Rightarrow> string \<Rightarrow> lexer \<Rightarrow> bool" where
  "reads_char s cs s' \<equiv> \<exists>b u cs'. str_char b u \<and> cs = u @ cs' \<and> live s' cs' \<and> token_buffer s' = token_buffer s @ b"

lemma scan_unicode_sound:
  assumes "scan_unicode s = (None, s')" "live s cs"
  shows "\<exists>b u cs'. str_char b (bsl # CHR ''u'' # u) \<and> cs = u @ cs' \<and> live s' cs' \<and> token_buffer s' = token_buffer s @ b"
proof -
  obtain r s1 where g: "get_codepoint s = (r, s1)" by fastforce
  have "r \<noteq> - 1" using assms(1) g by (auto simp: scan_unicode_def lex_error_def)
  from get_codepoint_sound [OF g this live_at [OF assms(2)]] obtain h n cs1 where
    h: "cs = h @ cs1" "code_unit h = Some n" "r = int n" "live s1 cs1" "token_buffer s1 = token_buffer s" .
  show ?thesis
  proof (cases "0xD800 \<le> n \<and> n < 0xDC00")
    case False
    with assms(1) g h(3) have s': "s' = add_all (codepoint_bytes n) s1" "n < 0xD800 \<or> 0xE000 \<le> n"
      by (auto simp: scan_unicode_def lex_error_def split: if_splits)
    with h str_char.unit [OF h(2)] show ?thesis
      by (intro exI [of _ "codepoint_bytes n"] exI [of _ h] exI [of _ cs1]) simp
  next
    case True
    with assms(1) g h(3) have c: "current (lex_get s1) = Some bsl" "current (lex_get (lex_get s1)) = Some CHR ''u''"
      by (auto simp: scan_unicode_def lex_error_def Let_def split: if_splits)
    from get_Some [OF live_at [OF h(4)] c(1)] obtain cs2 where cs2: "cs1 = bsl # cs2" "live (lex_get s1) cs2" .
    from get_Some [OF live_at [OF cs2(2)] c(2)] obtain cs3 where
      cs3: "cs2 = CHR ''u'' # cs3" "live (lex_get (lex_get s1)) cs3" .
    obtain r2 s2 where g2: "get_codepoint (lex_get (lex_get s1)) = (r2, s2)" by fastforce
    from assms(1) g h(3) True c g2 have r2: "r2 \<noteq> - 1" "0xDC00 \<le> r2" "r2 \<le> 0xDFFF"
        "s' = add_all (codepoint_bytes (nat (int n * 2 ^ 10 + r2 - 0x35FDC00))) s2"
      by (auto simp: scan_unicode_def lex_error_def Let_def split: if_splits)
    from get_codepoint_sound [OF g2 r2(1) live_at [OF cs3(2)]] obtain l m cs4 where
      l: "cs3 = l @ cs4" "code_unit l = Some m" "r2 = int m" "live s2 cs4" "token_buffer s2 = token_buffer (lex_get (lex_get s1))" .
    have "nat (int n * 2 ^ 10 + int m - 0x35FDC00) = 0x10000 + (n - 0xD800) * 0x400 + (m - 0xDC00)"
      using True r2(2) l(3) by (simp add: nat_eq_iff)
    moreover have "str_char (codepoint_bytes (0x10000 + (n - 0xD800) * 0x400 + (m - 0xDC00)))
        (bsl # CHR ''u'' # h @ bsl # CHR ''u'' # l)"
      using str_char.pair [OF h(2) _ _ l(2)] True r2(2,3) l(3) by simp
    ultimately show ?thesis
      using h(1,5) cs2(1) cs3(1) l r2(4)
      by (intro exI [of _ "codepoint_bytes (0x10000 + (n - 0xD800) * 0x400 + (m - 0xDC00))"]
          exI [of _ "h @ bsl # CHR ''u'' # l"] exI [of _ cs4]) (simp add: lex_get_state(4))
  qed
qed

lemma scan_string_step_sound:
  assumes "scan_string_step (lex_get s) = (None, s')" "live s cs"
  shows "reads_char s cs s'"
proof -
  obtain c where c: "current (lex_get s) = Some c"
    using assms(1) by (cases "current (lex_get s)") (auto simp: scan_string_step_def lex_error_def)
  from get_Some [OF live_at [OF assms(2)] c] obtain cs1 where cs1: "cs = c # cs1" "live (lex_get s) cs1" .
  note step = assms(1) [unfolded scan_string_step_def c, simplified]
  have nq: "c \<noteq> dq" using step by auto
  consider "c = bsl" | "c \<noteq> bsl" "byte c \<le> 0x7F" | "0x80 \<le> byte c" by linarith
  then show ?thesis
  proof cases
    case 1
    with step nq have esc: "scan_escape (lex_get s) = (None, s')" by simp
    then obtain x where x: "current (lex_get (lex_get s)) = Some x"
      by (cases "current (lex_get (lex_get s))") (auto simp: scan_escape_def Let_def lex_error_def)
    from get_Some [OF live_at [OF cs1(2)] x] obtain cs2 where cs2: "cs1 = x # cs2" "live (lex_get (lex_get s)) cs2" .
    show ?thesis
    proof (cases "simple_escape x")
      case (Some e)
      with esc x have "s' = lex_add e (lex_get (lex_get s))" by (simp add: scan_escape_def Let_def)
      with str_char.short [OF Some] cs1(1) cs2 1 show ?thesis
        by (intro exI [of _ "[e]"] exI [of _ "[bsl, x]"] exI [of _ cs2]) (simp add: token_buffer_lex lex_get_state(4))
    next
      case None
      with esc x have "x = CHR ''u''" "scan_unicode (lex_get (lex_get s)) = (None, s')"
        by (auto simp: scan_escape_def Let_def lex_error_def split: if_splits)
      with scan_unicode_sound [OF _ cs2(2)] cs1(1) cs2(1) 1 show ?thesis
        by (fastforce simp: lex_get_state(4))
    qed
  next
    case 2
    with step nq have "s' = add_current (lex_get s)" "\<not> byte c \<le> 0x1F"
      by (auto simp: lex_error_def split: if_splits)
    with str_char.plain [of c] 2 nq cs1 c show ?thesis
      by (intro exI [of _ "[c]"] exI [of _ "[c]"] exI [of _ cs1]) (simp add: add_current_def token_buffer_lex lex_get_state(4))
  next
    case 3
    then have ne: "c \<noteq> bsl" "\<not> byte c \<le> 0x1F" "\<not> byte c \<le> 0x7F" by auto
    with step nq obtain rs where rs: "utf8_ranges (byte c) = Some rs" "next_byte_in_range rs (lex_get s) = (True, s')"
      by (auto simp: lex_error_def split: option.splits prod.splits if_splits)
    then have "next_byte_loop rs (add_current (lex_get s)) = (True, s')" by (simp add: next_byte_in_range_def)
    with next_byte_loop_sound [of rs "add_current (lex_get s)" s' cs1] cs1(2) obtain bs cs' where
      bs: "cs1 = bs @ cs'" "in_ranges rs bs" "live s' cs'" "token_buffer s' = token_buffer s @ c # bs"
      using c by (auto simp: add_current_def token_buffer_lex lex_get_state(4))
    with str_char.multi [OF 3 rs(1) bs(2)] cs1(1) show ?thesis
      by (intro exI [of _ "c # bs"] exI [of _ "c # bs"] exI [of _ cs']) simp
  qed
qed

lemma scan_string_loop_sound:
  "scan_string_loop s = (value_string, s') \<Longrightarrow> live s cs \<Longrightarrow>
   \<exists>str t cs'. str_text str t \<and> cs = t @ dq # cs' \<and> live s' cs' \<and> token_buffer s' = token_buffer s @ str"
proof (induction s arbitrary: cs rule: scan_string_loop.induct)
  case (1 s)
  obtain r s1 where st: "scan_string_step (lex_get s) = (r, s1)" by fastforce
  show ?case
  proof (cases r)
    case None
    with st have step: "scan_string_step (lex_get s) = (None, s1)" by simp
    then have loop: "scan_string_loop s1 = (value_string, s')" using "1.prems"(1) by (simp add: scan_string_loop.simps [of s])
    from scan_string_step_sound [OF step "1.prems"(2)] obtain b u cs1 where
      u: "str_char b u" "cs = u @ cs1" "live s1 cs1" "token_buffer s1 = token_buffer s @ b" by blast
    from "1.IH" [OF step [symmetric] refl loop u(3)] obtain str t cs' where
      "str_text str t" "cs1 = t @ dq # cs'" "live s' cs'" "token_buffer s' = token_buffer s1 @ str" by blast
    with u str_text.char [OF u(1)] show ?thesis
      by (intro exI [of _ "b @ str"] exI [of _ "u @ t"] exI [of _ cs']) simp
  next
    case (Some x)
    with st "1.prems"(1) have x: "x = value_string" "s' = s1" by (simp_all add: scan_string_loop.simps [of s])
    with st Some have step: "scan_string_step (lex_get s) = (Some value_string, s')" by simp
    then have c: "current (lex_get s) = Some dq" "s' = lex_get s"
      by (auto simp: scan_string_step_def scan_escape_def scan_unicode_def lex_error_def Let_def case_prod_unfold
          split: option.splits if_splits)
    from get_Some [OF live_at [OF "1.prems"(2)] c(1)] obtain cs1 where "cs = dq # cs1" "live (lex_get s) cs1" .
    with c(2) str_text.empty show ?thesis
      by (intro exI [of _ "[]"] exI [of _ "[]"] exI [of _ cs1]) (simp add: lex_get_state(4))
  qed
qed

section \<open>Numbers\<close>

text \<open>The scanner has read \<open>u\<close> into its buffer and ends the number behind it.\<close>

definition done_after :: "token_type \<times> lexer \<Rightarrow> lexer \<Rightarrow> string \<Rightarrow> token_type \<Rightarrow> string \<Rightarrow> bool" where
  "done_after r s cs ty u \<longleftrightarrow> (\<exists>cs' s1. cs = u @ cs' \<and> live s1 cs' \<and> token_buffer s1 = token_buffer s @ u \<and>
     r = scan_number_done ty (lex_get s1))"

abbreviation failed :: "token_type \<times> lexer \<Rightarrow> bool" where
  "failed r \<equiv> fst r = parse_error"

lemma done_after_now: "live s cs \<Longrightarrow> done_after (scan_number_done ty (lex_get s)) s cs ty []"
  unfolding done_after_def by (intro exI [of _ cs] exI [of _ s]) simp

lemma done_after_current:
  "done_after r (add_current x) cs ty u \<Longrightarrow> current x = Some c \<Longrightarrow> done_after r x (c # cs) ty (c # u)"
  by (auto simp: done_after_def add_current_def token_buffer_lex)

lemma done_after_char:
  assumes "done_after r (add_current (lex_get s)) cs ty u" "current (lex_get s) = Some c"
  shows "done_after r s (c # cs) ty (c # u)"
  using done_after_current [OF assms] by (simp add: done_after_def lex_get_state(4))

lemma scan_any2_sound: "live s cs \<Longrightarrow> \<exists>ds. list_all is_digit ds \<and> done_after (scan_number_any2 ty s) s cs ty ds"
proof (induction ty s arbitrary: cs rule: scan_number_any2.induct)
  case (1 ty s)
  show ?case
  proof (cases "cur_digit (lex_get s)")
    case True
    then obtain c where c: "current (lex_get s) = Some c" "is_digit c" by (auto split: option.splits)
    from get_Some [OF live_at [OF "1.prems"] c(1)] obtain cs1 where cs1: "cs = c # cs1" "live (lex_get s) cs1" .
    then have "live (add_current (lex_get s)) cs1" by simp
    from "1.IH" [OF True this] obtain ds where
      "list_all is_digit ds" "done_after (scan_number_any2 ty (add_current (lex_get s))) (add_current (lex_get s)) cs1 ty ds" by blast
    with done_after_char [OF _ c(1)] True c(2) cs1(1) show ?thesis
      by (intro exI [of _ "c # ds"]) (simp add: scan_number_any2.simps [of ty s])
  next
    case False
    with done_after_now [OF "1.prems"] show ?thesis
      by (intro exI [of _ "[]"]) (simp add: scan_number_any2.simps [of ty s])
  qed
qed

lemma scan_exponent_sound:
  assumes "live s cs"
  shows "failed (scan_number_exponent s) \<or> (\<exists>sg ds. sg \<in> {[], ''+'', ''-''} \<and> ds \<noteq> [] \<and> list_all is_digit ds \<and>
    done_after (scan_number_exponent s) s cs value_float (sg @ ds))"
proof (cases "failed (scan_number_exponent s)")
  case False
  then obtain c where c: "current (lex_get s) = Some c" "c \<in> set ''+-'' \<or> is_digit c"
    by (auto simp: scan_number_exponent_def Let_def split: option.splits if_splits)
  from get_Some [OF live_at [OF assms] c(1)] obtain cs1 where cs1: "cs = c # cs1" "live (lex_get s) cs1" .
  then have l1: "live (add_current (lex_get s)) cs1" by simp
  show ?thesis
  proof (cases "c \<in> set ''+-''")
    case False
    with c have eq: "scan_number_exponent s = scan_number_any2 value_float (add_current (lex_get s))"
      by (simp add: scan_number_exponent_def Let_def)
    from scan_any2_sound [OF l1, of value_float] obtain ds where
      "list_all is_digit ds" "done_after (scan_number_exponent s) (add_current (lex_get s)) cs1 value_float ds" unfolding eq by blast
    with done_after_char [OF _ c(1)] False c(2) cs1(1) show ?thesis
      by (intro disjI2 exI [of _ "[]"] exI [of _ "c # ds"]) auto
  next
    case True
    let ?s = "add_current (lex_get s)"
    from True c(1) have eq: "scan_number_exponent s = scan_number_sign value_float ?s"
      by (simp add: scan_number_exponent_def Let_def)
    with False obtain d where d: "current (lex_get ?s) = Some d" "is_digit d"
      by (auto simp: scan_number_sign_def Let_def split: option.splits if_splits)
    from get_Some [OF live_at [OF l1] d(1)] obtain cs2 where cs2: "cs1 = d # cs2" "live (lex_get ?s) cs2" .
    then have l2: "live (add_current (lex_get ?s)) cs2" by simp
    from eq d have eq2: "scan_number_exponent s = scan_number_any2 value_float (add_current (lex_get ?s))"
      by (simp add: scan_number_sign_def Let_def)
    from scan_any2_sound [OF l2, of value_float] obtain ds where
      ds: "list_all is_digit ds" "done_after (scan_number_exponent s) (add_current (lex_get ?s)) cs2 value_float ds" unfolding eq2 by blast
    from done_after_char [OF done_after_char [OF ds(2) d(1)] c(1)]
    have "done_after (scan_number_exponent s) s cs value_float ([c] @ d # ds)" by (simp add: cs1(1) cs2(1))
    with True ds(1) d(2) show ?thesis
      by (intro disjI2 exI [of _ "[c]"] exI [of _ "d # ds"]) auto
  qed
qed simp

lemma exponent_tail_sound:
  assumes "cur_in ''eE'' (lex_get s)" "live s cs"
  shows "failed (scan_number_exponent (add_current (lex_get s))) \<or>
    (\<exists>et. exponent et \<and> et \<noteq> [] \<and> done_after (scan_number_exponent (add_current (lex_get s))) s cs value_float et)"
proof -
  from assms(1) obtain c where c: "current (lex_get s) = Some c" "c \<in> set ''eE''" by (auto split: option.splits)
  from get_Some [OF live_at [OF assms(2)] c(1)] obtain cs1 where cs1: "cs = c # cs1" "live (lex_get s) cs1" .
  then have "live (add_current (lex_get s)) cs1" by simp
  from scan_exponent_sound [OF this] show ?thesis
  proof (elim disjE exE conjE)
    fix sg ds
    assume e: "sg \<in> {[], ''+'', ''-''}" "ds \<noteq> []" "list_all is_digit ds"
      and d: "done_after (scan_number_exponent (add_current (lex_get s))) (add_current (lex_get s)) cs1 value_float (sg @ ds)"
    have "exponent (c # sg @ ds)" using e c(2) unfolding exponent_def by blast
    with done_after_char [OF d c(1)] cs1(1) show ?thesis by blast
  qed simp
qed

lemma scan_decimal2_sound:
  "live s cs \<Longrightarrow> failed (scan_number_decimal2 s) \<or>
   (\<exists>ds et. list_all is_digit ds \<and> exponent et \<and> done_after (scan_number_decimal2 s) s cs value_float (ds @ et))"
proof (induction s arbitrary: cs rule: scan_number_decimal2.induct)
  case (1 s)
  show ?case
  proof (cases "cur_digit (lex_get s)")
    case True
    then obtain c where c: "current (lex_get s) = Some c" "is_digit c" by (auto split: option.splits)
    from get_Some [OF live_at [OF "1.prems"] c(1)] obtain cs1 where cs1: "cs = c # cs1" "live (lex_get s) cs1" .
    then have l: "live (add_current (lex_get s)) cs1" by simp
    have eq: "scan_number_decimal2 s = scan_number_decimal2 (add_current (lex_get s))"
      using True by (simp add: scan_number_decimal2.simps [of s])
    from "1.IH" [OF True l] show ?thesis
    proof (elim disjE exE conjE)
      fix ds et
      assume d: "list_all is_digit ds" "exponent et"
        "done_after (scan_number_decimal2 (add_current (lex_get s))) (add_current (lex_get s)) cs1 value_float (ds @ et)"
      from done_after_char [OF d(3) c(1)] d(1,2) c(2) cs1(1) eq show ?thesis
        by (intro disjI2 exI [of _ "c # ds"] exI [of _ et]) simp
    qed (simp add: eq)
  next
    case False
    show ?thesis
    proof (cases "cur_in ''eE'' (lex_get s)")
      case True
      with False have eq: "scan_number_decimal2 s = scan_number_exponent (add_current (lex_get s))"
        by (simp add: scan_number_decimal2.simps [of s])
      from exponent_tail_sound [OF True "1.prems"] show ?thesis
        unfolding eq by (metis append_Nil list.pred_inject(1))
    next
      case False
      with \<open>\<not> cur_digit (lex_get s)\<close> have eq: "scan_number_decimal2 s = scan_number_done value_float (lex_get s)"
        by (simp add: scan_number_decimal2.simps [of s])
      with done_after_now [OF "1.prems"] show ?thesis
        by (intro disjI2 exI [of _ "[]"]) (simp add: exponent_def)
    qed
  qed
qed

lemma after_digits_sound:
  assumes "live s cs"
  shows "failed (after_digits ty s) \<or> (\<exists>ft et. fraction ft \<and> exponent et \<and>
    done_after (after_digits ty s) s cs (if ft = [] \<and> et = [] then ty else value_float) (ft @ et))"
proof (cases "cur_in ''.'' (lex_get s)")
  case True
  then have c: "current (lex_get s) = Some CHR ''.''" by (auto split: option.splits)
  from get_Some [OF live_at [OF assms] c] obtain cs1 where cs1: "cs = CHR ''.'' # cs1" "live (lex_get s) cs1" .
  let ?s = "add_current (lex_get s)"
  have dot: "lex_add CHR ''.'' (lex_get s) = ?s" using c by (simp add: add_current_def)
  have l: "live ?s cs1" using cs1(2) by simp
  have eq: "after_digits ty s = scan_number_decimal1 ?s" using True by (simp add: after_digits_def dot)
  show ?thesis
  proof (cases "cur_digit (lex_get ?s)")
    case False
    then have "failed (scan_number_decimal1 ?s)" by (simp add: scan_number_decimal1_def Let_def)
    then show ?thesis by (simp add: eq)
  next
    case True
    then obtain d where d: "current (lex_get ?s) = Some d" "is_digit d" by (auto split: option.splits)
    from get_Some [OF live_at [OF l] d(1)] obtain cs2 where cs2: "cs1 = d # cs2" "live (lex_get ?s) cs2" .
    then have l2: "live (add_current (lex_get ?s)) cs2" by simp
    have eq2: "after_digits ty s = scan_number_decimal2 (add_current (lex_get ?s))"
      using True by (simp add: eq scan_number_decimal1_def Let_def)
    from scan_decimal2_sound [OF l2] show ?thesis
    proof (elim disjE exE conjE)
      fix ds et
      assume p: "list_all is_digit ds" "exponent et"
        "done_after (scan_number_decimal2 (add_current (lex_get ?s))) (add_current (lex_get ?s)) cs2 value_float (ds @ et)"
      have "fraction (CHR ''.'' # d # ds)" using p(1) d(2) by (simp add: fraction_def)
      moreover from done_after_char [OF done_after_char [OF p(3) d(1)] c]
      have "done_after (after_digits ty s) s cs value_float ((CHR ''.'' # d # ds) @ et)" by (simp add: cs1(1) cs2(1) eq2)
      ultimately show ?thesis using p(2)
        by - (rule disjI2, rule exI [of _ "CHR ''.'' # d # ds"], rule exI [of _ et], simp)
    qed (simp add: eq2)
  qed
next
  case False
  show ?thesis
  proof (cases "cur_in ''eE'' (lex_get s)")
    case True
    with False have eq: "after_digits ty s = scan_number_exponent (add_current (lex_get s))" by (simp add: after_digits_def)
    from exponent_tail_sound [OF True assms] show ?thesis
    proof (elim disjE exE conjE)
      fix et
      assume e: "exponent et" "et \<noteq> []" "done_after (scan_number_exponent (add_current (lex_get s))) s cs value_float et"
      then show ?thesis unfolding eq
        by - (rule disjI2, rule exI [of _ "[]"], rule exI [of _ et], simp add: fraction_def)
    qed (simp add: eq)
  next
    case False
    with \<open>\<not> cur_in ''.'' (lex_get s)\<close> have eq: "after_digits ty s = scan_number_done ty (lex_get s)"
      by (simp add: after_digits_def)
    with done_after_now [OF assms] show ?thesis
      by (intro disjI2 exI [of _ "[]"]) (simp add: exponent_def fraction_def)
  qed
qed

abbreviation number_rest :: "token_type \<Rightarrow> token_type \<times> lexer \<Rightarrow> lexer \<Rightarrow> string \<Rightarrow> bool" where
  "number_rest ty r s cs \<equiv> failed r \<or> (\<exists>ds ft et. list_all is_digit ds \<and> fraction ft \<and> exponent et \<and>
     done_after r s cs (if ft = [] \<and> et = [] then ty else value_float) (ds @ ft @ et))"

lemma scan_any1_sound: "live s cs \<Longrightarrow> number_rest ty (scan_number_any1 ty s) s cs"
proof (induction ty s arbitrary: cs rule: scan_number_any1.induct)
  case (1 ty s)
  show ?case
  proof (cases "cur_digit (lex_get s)")
    case True
    then obtain c where c: "current (lex_get s) = Some c" "is_digit c" by (auto split: option.splits)
    from get_Some [OF live_at [OF "1.prems"] c(1)] obtain cs1 where cs1: "cs = c # cs1" "live (lex_get s) cs1" .
    then have l: "live (add_current (lex_get s)) cs1" by simp
    have eq: "scan_number_any1 ty s = scan_number_any1 ty (add_current (lex_get s))"
      using True by (simp add: scan_number_any1.simps [of ty s])
    from "1.IH" [OF True l] show ?thesis
    proof (elim disjE exE conjE)
      fix ds ft et
      assume d: "list_all is_digit ds" "fraction ft" "exponent et"
        "done_after (scan_number_any1 ty (add_current (lex_get s))) (add_current (lex_get s)) cs1
          (if ft = [] \<and> et = [] then ty else value_float) (ds @ ft @ et)"
      from done_after_char [OF d(4) c(1)] d(1-3) c(2) cs1(1) eq show ?thesis
        by (intro disjI2 exI [of _ "c # ds"] exI [of _ ft] exI [of _ et]) simp
    qed (simp add: eq)
  next
    case False
    then have eq: "scan_number_any1 ty s = after_digits ty s" by (simp add: scan_number_states(2))
    from after_digits_sound [OF "1.prems", of ty] show ?thesis
      unfolding eq by (metis append_Nil list.pred_inject(1))
  qed
qed

text \<open>A number from its first digit on.\<close>

lemma scan_first_sound:
  assumes d: "current x = Some d" "is_digit d" and at: "live x cs"
    and r: "r = (if d = CHR ''0'' then scan_number_zero ty (add_current x) else scan_number_any1 ty (add_current x))"
  shows "failed r \<or> (\<exists>ip ft et. number_parts ip ft et \<and>
    done_after r x (d # cs) (if ft = [] \<and> et = [] then ty else value_float) (ip @ ft @ et))"
proof -
  have l: "live (add_current x) cs" using at by simp
  show ?thesis
  proof (cases "d = CHR ''0''")
    case True
    then have eq: "r = after_digits ty (add_current x)" by (simp add: r scan_number_states(1))
    from after_digits_sound [OF l, of ty] show ?thesis
    proof (elim disjE exE conjE)
      fix ft et
      assume p: "fraction ft" "exponent et"
        "done_after (after_digits ty (add_current x)) (add_current x) cs (if ft = [] \<and> et = [] then ty else value_float) (ft @ et)"
      from done_after_current [OF p(3) d(1)] have
        "done_after r x (d # cs) (if ft = [] \<and> et = [] then ty else value_float) (''0'' @ ft @ et)"
        by (simp add: eq True)
      moreover have "number_parts ''0'' ft et" using p(1,2) by (simp add: number_parts_def)
      ultimately show ?thesis by blast
    qed (simp add: eq)
  next
    case False
    then have eq: "r = scan_number_any1 ty (add_current x)" by (simp add: r)
    from scan_any1_sound [OF l, of ty] show ?thesis
    proof (elim disjE exE conjE)
      fix ds ft et
      assume p: "list_all is_digit ds" "fraction ft" "exponent et"
        "done_after (scan_number_any1 ty (add_current x)) (add_current x) cs (if ft = [] \<and> et = [] then ty else value_float) (ds @ ft @ et)"
      from done_after_current [OF p(4) d(1)] have
        "done_after r x (d # cs) (if ft = [] \<and> et = [] then ty else value_float) ((d # ds) @ ft @ et)"
        by (simp add: eq)
      moreover have "number_parts (d # ds) ft et" using p(1-3) d(2) False by (simp add: number_parts_def lead_digits_def)
      ultimately show ?thesis by blast
    qed (simp add: eq)
  qed
qed

lemma live_number_done: "live s cs \<Longrightarrow> live (snd (scan_number_done ty (lex_get s))) cs"
  using live_unget_get [of s cs] by (simp add: scan_number_done_def scan_number_float_def Let_def split: option.split)

text \<open>The text of a token, and that the token stands for it.\<close>

definition token_text :: "token_type \<Rightarrow> lexer \<Rightarrow> string \<Rightarrow> bool" where
  "token_text t l u \<longleftrightarrow>
     (case t of
        begin_array \<Rightarrow> u = ''['' | end_array \<Rightarrow> u = '']'' | begin_object \<Rightarrow> u = ''{'' | end_object \<Rightarrow> u = ''}''
      | name_separator \<Rightarrow> u = '':'' | value_separator \<Rightarrow> u = '',''
      | value_string \<Rightarrow> (\<exists>t. u = dq # t @ [dq] \<and> str_text (token_buffer l) t)
      | end_of_input \<Rightarrow> False | parse_error \<Rightarrow> False
      | _ \<Rightarrow> (\<forall>v. token_json t l = Some v \<longrightarrow> gvalue v u))"

lemma number_token_text:
  assumes "number_parts ip ft et" "number_token t" "token_json t l = number_value neg ip ft et"
  shows "token_text t l (sign_text neg @ ip @ ft @ et)"
proof -
  have "\<forall>v. token_json t l = Some v \<longrightarrow> gvalue v (sign_text neg @ ip @ ft @ et)"
    unfolding assms(3) using gvalue_gelements_gmembers.g_number [OF assms(1)] by blast
  with assms(2) show ?thesis unfolding token_text_def by (elim insertE emptyE) (simp_all only: token_type.case)
qed

lemma scan_number_sound:
  assumes c: "current x = Some c" "c = CHR ''-'' \<or> is_digit c" and at: "live x cs" and r: "scan_number x = (t, l)" "t \<noteq> parse_error"
  shows "\<exists>u cs'. token_text t l u \<and> c # cs = u @ cs' \<and> live l cs'"
proof -
  let ?x = "lex_reset x"
  have x: "current ?x = Some c" "live ?x cs" "token_buffer ?x = []" using c(1) at by simp_all
  have "\<exists>neg ip ft et. number_parts ip ft et \<and> done_after (t, l) ?x (c # cs)
      (if ft = [] \<and> et = [] then if neg then value_integer else value_unsigned else value_float) (sign_text neg @ ip @ ft @ et)"
  proof (cases "c = CHR ''-''")
    case False
    with c(2) have d: "is_digit c" by simp
    have "(t, l) = (if c = CHR ''0'' then scan_number_zero value_unsigned (add_current ?x) else scan_number_any1 value_unsigned (add_current ?x))"
      using r(1) False c(1) by (simp add: scan_number_def Let_def split: if_splits)
    from scan_first_sound [OF x(1) d x(2) this] r(2) obtain ip ft et where
      "number_parts ip ft et" "done_after (t, l) ?x (c # cs) (if ft = [] \<and> et = [] then value_unsigned else value_float) (ip @ ft @ et)"
      by auto
    then show ?thesis by - (rule exI [of _ False], rule exI [of _ ip], rule exI [of _ ft], rule exI [of _ et], auto split: if_splits)
  next
    case True
    let ?y = "add_current ?x"
    have y: "live ?y cs" using x(2) by simp
    have eq: "(t, l) = scan_number_minus ?y" using r(1) True c(1) by (simp add: scan_number_def)
    with r(2) obtain d where d: "current (lex_get ?y) = Some d" "is_digit d"
      by (auto simp: scan_number_minus_def Let_def lex_error_def is_digit_def split: option.splits if_splits)
    from get_Some [OF live_at [OF y] d(1)] obtain cs1 where cs1: "cs = d # cs1" "live (lex_get ?y) cs1" .
    have "(t, l) = (if d = CHR ''0'' then scan_number_zero value_integer (add_current (lex_get ?y))
        else scan_number_any1 value_integer (add_current (lex_get ?y)))"
      using eq d by (simp add: scan_number_minus_def Let_def split: if_splits)
    from scan_first_sound [OF d cs1(2) this] r(2) obtain ip ft et where
      p: "number_parts ip ft et" "done_after (t, l) (lex_get ?y) (d # cs1) (if ft = [] \<and> et = [] then value_integer else value_float) (ip @ ft @ et)"
      by auto
    then have "done_after (t, l) ?y cs (if ft = [] \<and> et = [] then value_integer else value_float) (ip @ ft @ et)"
      by (simp add: done_after_def lex_get_state(4) cs1(1))
    from done_after_current [OF this x(1)] p(1) True show ?thesis
      by - (rule exI [of _ True], rule exI [of _ ip], rule exI [of _ ft], rule exI [of _ et], auto split: if_splits)
  qed
  then obtain neg ip ft et cs' s1 where p: "number_parts ip ft et" "c # cs = (sign_text neg @ ip @ ft @ et) @ cs'" "live s1 cs'"
    "token_buffer s1 = sign_text neg @ ip @ ft @ et"
    "(t, l) = scan_number_done (if ft = [] \<and> et = [] then if neg then value_integer else value_unsigned else value_float) (lex_get s1)"
    unfolding done_after_def x(3) append_Nil by blast
  note n = number_done [OF p(1,4) refl, folded p(5)]
  from live_number_done [OF p(3)] have "live l cs'" by (metis p(5) snd_conv)
  with number_token_text [OF p(1), of t l neg] n p(2) show ?thesis by fastforce
qed

section \<open>Tokens\<close>

lemma scan_literal_sound:
  "scan_literal_loop ls t0 s = (t, l) \<Longrightarrow> t \<noteq> parse_error \<Longrightarrow> live s cs \<Longrightarrow> t = t0 \<and> (\<exists>cs'. cs = ls @ cs' \<and> live l cs')"
proof (induction ls arbitrary: s cs)
  case (Cons c ls)
  then have c: "current (lex_get s) = Some c" "scan_literal_loop ls t0 (lex_get s) = (t, l)"
    by (auto simp: Let_def lex_error_def split: if_splits)
  from get_Some [OF live_at [OF Cons.prems(3)] c(1)] obtain cs1 where cs1: "cs = c # cs1" "live (lex_get s) cs1" .
  from Cons.IH [OF c(2) Cons.prems(2) cs1(2)] cs1(1) show ?case by simp
qed simp

lemma scan_token_sound:
  assumes r: "scan_token x = (t, l)" and ok: "t \<noteq> parse_error" "t \<noteq> end_of_input" and x: "current x = Some c" "live x cs"
  shows "\<exists>u cs'. token_text t l u \<and> c # cs = u @ cs' \<and> live l cs'"
proof -
  have lit: ?thesis if "scan_literal (c # ls) t0 x = (t, l)" "gvalue v (c # ls)" "token_json t0 l = Some v"
    "t0 \<in> {literal_true, literal_false, literal_null}" for ls t0 v
  proof -
    from that(1) have "scan_literal_loop ls t0 x = (t, l)" by (simp add: scan_literal_def)
    from scan_literal_sound [OF this ok(1) x(2)] obtain cs' where "t = t0" "cs = ls @ cs'" "live l cs'" by blast
    with that(2-4) show ?thesis by (intro exI [of _ "c # ls"] exI [of _ cs']) (auto simp: token_text_def)
  qed
  have punct: ?thesis if "(t, l) = (t0, x)" "token_text t0 x [c]" for t0
    using that x(2) by (intro exI [of _ "[c]"] exI [of _ cs]) simp
  note st = r [unfolded scan_token_def x(1), simplified]
  note g = gvalue_gelements_gmembers.intros
  consider "c \<in> set ''[]{}:,''" | "c = CHR ''t''" | "c = CHR ''f''" | "c = CHR ''n''" | "c = dq"
    | "c = CHR ''-'' \<or> is_digit c" | "c \<notin> set ''[]{}:,tfn-''" "c \<noteq> dq" "\<not> is_digit c"
    by auto
  then show ?thesis
  proof cases
    case 1
    then show ?thesis using st by (intro punct [of t]) (auto simp: token_text_def split: if_splits)
  next
    case 2
    then show ?thesis using st lit [of "''rue''" literal_true, OF _ _ _] g(2) by (simp add: token_json_def)
  next
    case 3
    then show ?thesis using st lit [of "''alse''" literal_false, OF _ _ _] g(3) by (simp add: token_json_def)
  next
    case 4
    then show ?thesis using st lit [of "''ull''" literal_null, OF _ _ _] g(1) by (simp add: token_json_def)
  next
    case 5
    with st have s: "scan_string_loop (lex_reset x) = (t, l)" by (simp add: scan_string_def is_digit_def)
    have t: "t = value_string" using scan_string_loop_types [of "lex_reset x"] s ok(1) by simp
    have "live (lex_reset x) cs" using x(2) by simp
    from scan_string_loop_sound [OF s [unfolded t] this] obtain str u cs' where
      "str_text str u" "cs = u @ dq # cs'" "live l cs'" "token_buffer l = str" by auto
    with t 5 show ?thesis by (intro exI [of _ "dq # u @ [dq]"] exI [of _ cs']) (simp add: token_text_def)
  next
    case 6
    then have "c \<notin> set ''[]{}:,tfn'' \<and> c \<noteq> dq" by (elim disjE) (auto simp: is_digit_def)
    with st 6 have "scan_number x = (t, l)" by auto
    from scan_number_sound [OF x(1) 6 x(2) this ok(1)] show ?thesis .
  next
    case 7
    with st ok show ?thesis by (auto simp: lex_error_def split: if_splits)
  qed
qed

lemma scan_token_end:
  assumes r: "scan_token x = (end_of_input, l)" and x: "current x = Some c" "live x cs"
  shows "c = CHR 0x00"
proof -
  have lit: False if "scan_literal (c # ls) t0 x = (end_of_input, l)" "t0 \<noteq> end_of_input" for ls t0
    using that scan_literal_sound [OF _ _ x(2), of ls t0 end_of_input l] by (simp add: scan_literal_def)
  have str: False if "scan_string x = (end_of_input, l)"
    using that scan_string_loop_types [of "lex_reset x"] by (simp add: scan_string_def)
  have num: False if "scan_number x = (end_of_input, l)" "c = CHR ''-'' \<or> is_digit c"
    using scan_number_sound [OF x(1) that(2) x(2) that(1)] by (simp add: token_text_def)
  show ?thesis
    using r [unfolded scan_token_def x(1), simplified] lit [of "''rue''" literal_true] lit [of "''alse''" literal_false]
      lit [of "''ull''" literal_null] str num by (auto simp: lex_error_def split: if_splits)
qed

lemma skip_whitespace_sound:
  "lex_at s cs \<Longrightarrow> \<exists>w s1 cs1. ws w \<and> cs = w @ cs1 \<and> skip_whitespace s = lex_get s1 \<and> lex_at s1 cs1"
proof (induction s arbitrary: cs rule: skip_whitespace.induct)
  case (1 s)
  show ?case
  proof (cases "cur_ws (lex_get s)")
    case True
    then obtain c where c: "current (lex_get s) = Some c" "is_ws c" by (auto split: option.splits)
    from get_Some [OF "1.prems" c(1)] obtain cs1 where cs1: "cs = c # cs1" "live (lex_get s) cs1" .
    from "1.IH" [OF True live_at [OF cs1(2)]] obtain w s1 cs2 where
      "ws w" "cs1 = w @ cs2" "skip_whitespace (lex_get s) = lex_get s1" "lex_at s1 cs2" by blast
    with True c(2) cs1(1) show ?thesis
      by - (rule exI [of _ "c # w"], rule exI [of _ s1], rule exI [of _ cs2], simp add: skip_whitespace.simps [of s] ws_def)
  next
    case False
    with "1.prems" show ?thesis
      by - (rule exI [of _ "[]"], rule exI [of _ s], simp add: skip_whitespace.simps [of s] ws_def)
  qed
qed

text \<open>After the first token: whitespace and a token, or whitespace and the end.\<close>

abbreviation finds :: "string \<Rightarrow> token_type \<Rightarrow> lexer \<Rightarrow> bool" where
  "finds cs t l \<equiv> (\<exists>w u cs'. cs = w @ u @ cs' \<and> ws w \<and> token_text t l u \<and> live l cs')"

abbreviation at_end :: "string \<Rightarrow> bool" where
  "at_end cs \<equiv> (\<exists>w rest. cs = w @ rest \<and> ws w \<and> (rest = [] \<or> hd rest = CHR 0x00))"

lemma token_after_ws:
  assumes "lex_at s cs" "scan_token (skip_whitespace s) = (t, l)" "t \<noteq> parse_error"
  shows "if t = end_of_input then at_end cs else finds cs t l"
proof -
  from skip_whitespace_sound [OF assms(1)] obtain w s1 cs1 where
    s1: "ws w" "cs = w @ cs1" "skip_whitespace s = lex_get s1" "lex_at s1 cs1" by blast
  from s1(4) show ?thesis
  proof (cases rule: get_cases)
    case eof
    with assms(2) s1(3) have "t = end_of_input" by (simp add: scan_token_def)
    with s1(1,2) eof(1) show ?thesis by auto
  next
    case (char c cs')
    show ?thesis
    proof (cases "t = end_of_input")
      case True
      with assms(2) s1(3) have "scan_token (lex_get s1) = (end_of_input, l)" by simp
      from scan_token_end [OF this char(2,3)] s1(1,2) char(1) True show ?thesis
        by - (simp, rule exI [of _ w], rule exI [of _ cs1], simp)
    next
      case False
      from scan_token_sound [OF _ assms(3) False char(2,3), of l] assms(2) s1(3) obtain u cs2 where
        "token_text t l u" "c # cs' = u @ cs2" "live l cs2" by auto
      with s1(1,2) char(1) False show ?thesis by auto
    qed
  qed
qed

lemma scan_sound:
  assumes "live s cs" "scan s = (t, l)" "t \<noteq> parse_error"
  shows "if t = end_of_input then at_end cs else finds cs t l"
proof -
  have "scan_token (skip_whitespace s) = (t, l)" using assms(1,2) by (simp add: scan_def live_def)
  from token_after_ws [OF live_at [OF assms(1)] this assms(3)] show ?thesis .
qed

text \<open>The first token of a text may follow a byte order mark.\<close>

lemma scan_first_token_sound:
  assumes at: "lex_at s cs" and zero: "chars_read_total s = 0" and r: "scan s = (t, l)" "t \<noteq> parse_error" "t \<noteq> end_of_input"
  obtains b cs1 where "cs = b @ cs1" "b = [] \<or> b = bom" "finds cs1 t l"
proof (cases "current (lex_get s) = Some CHR 0xEF")
  case False
  with zero r(1) have "scan_token (skip_whitespace (lex_unget (lex_get s))) = (t, l)"
    by (simp add: scan_def skip_bom_def Let_def)
  from token_after_ws [OF at_unget_get [OF at] this r(2)] r(3) show ?thesis by (intro that [of "[]" cs]) auto
next
  case True
  let ?s = "lex_get (lex_get (lex_get s))"
  from True zero r(1,2) have c: "current (lex_get (lex_get s)) = Some CHR 0xBB" "current ?s = Some CHR 0xBF"
      "scan_token (skip_whitespace ?s) = (t, l)"
    by (auto simp: scan_def skip_bom_def Let_def lex_error_def split: if_splits)
  from get_Some [OF at True] obtain cs1 where cs1: "cs = CHR 0xEF # cs1" "live (lex_get s) cs1" .
  from get_Some [OF live_at [OF cs1(2)] c(1)] obtain cs2 where cs2: "cs1 = CHR 0xBB # cs2" "live (lex_get (lex_get s)) cs2" .
  from get_Some [OF live_at [OF cs2(2)] c(2)] obtain cs3 where cs3: "cs2 = CHR 0xBF # cs3" "live ?s cs3" .
  from token_after_ws [OF live_at [OF cs3(2)] c(3) r(2)] r(3) cs1(1) cs2(1) cs3(1) show ?thesis
    by (intro that [of bom cs3]) (auto simp: bom_def)
qed

section \<open>The stack of the parser\<close>

text \<open>
  What has been read where a value comes next: the text of each open container up to there, with the
  value of what is complete in the frame of the container.
\<close>

inductive before :: "bool list \<Rightarrow> frame list \<Rightarrow> string \<Rightarrow> bool" where
  b_top: "b = [] \<or> b = bom \<Longrightarrow> before [] [] b"
| b_first: "before st rs pre \<Longrightarrow> ws w \<Longrightarrow> before (True # st) (FArray [] # rs) (pre @ w @ ''['')"
| b_next: "before st rs pre \<Longrightarrow> ws w \<Longrightarrow> gelements vs t \<Longrightarrow> ws w' \<Longrightarrow>
    before (True # st) (FArray vs # rs) (pre @ w @ ''['' @ t @ w' @ '','')"
| b_key: "before st rs pre \<Longrightarrow> ws w \<Longrightarrow> ws w1 \<Longrightarrow> str_text k kt \<Longrightarrow> ws w2 \<Longrightarrow>
    before (False # st) (FObject [] k # rs) (pre @ w @ ''{'' @ w1 @ dq # kt @ dq # w2 @ '':'')"
| b_next_key: "before st rs pre \<Longrightarrow> ws w \<Longrightarrow> gmembers kvs t \<Longrightarrow> ws w' \<Longrightarrow> ws w1 \<Longrightarrow> str_text k kt \<Longrightarrow> ws w2 \<Longrightarrow>
    before (False # st) (FObject (put_members kvs) k # rs)
      (pre @ w @ ''{'' @ t @ w' @ '','' @ w1 @ dq # kt @ dq # w2 @ '':'')"

text \<open>What has been read after a value.\<close>

fun after :: "bool list \<Rightarrow> frame list \<Rightarrow> json \<Rightarrow> string \<Rightarrow> bool" where
  "after [] [] r pre \<longleftrightarrow> (\<exists>b w t. pre = b @ w @ t \<and> (b = [] \<or> b = bom) \<and> ws w \<and> gvalue r t)"
| "after (True # st) (FArray vs # rs) r pre \<longleftrightarrow>
     (\<exists>pre' w t. pre = pre' @ w @ ''['' @ t \<and> before st rs pre' \<and> ws w \<and> gelements vs t)"
| "after (False # st) (FObject m k # rs) r pre \<longleftrightarrow>
     (\<exists>pre' w kvs t. pre = pre' @ w @ ''{'' @ t \<and> before st rs pre' \<and> ws w \<and> gmembers kvs t \<and> m = put_members kvs)"
| "after _ _ _ _ \<longleftrightarrow> False"

text \<open>Handing a value to the handler, and closing a container.\<close>

lemma after_value:
  assumes "before (states p) (ref_stack p) pre" "ws w" "gvalue v u"
  shows "after (states p) (ref_stack (handle_value v p)) (root (handle_value v p)) (pre @ w @ u)"
  using assms(1)
proof (cases rule: before.cases)
  case b_top
  with assms(2,3) show ?thesis by (auto simp: handle_value_def)
next
  case (b_first st rs pre' w')
  have "gelements [v] (w @ u)" using assms(2,3) by (rule gvalue_gelements_gmembers.g_element)
  with b_first show ?thesis by (auto simp: handle_value_def)
next
  case (b_next st rs pre' w1 vs t w2)
  have "gelements (vs @ [v]) (t @ w2 @ '','' @ w @ u)"
    using b_next assms(2,3) by (intro gvalue_gelements_gmembers.g_elements)
  with b_next show ?thesis by (auto simp: handle_value_def)
next
  case (b_key st rs pre' w0 w1 k kt w2)
  have "gmembers [(k, v)] (w1 @ dq # kt @ dq # w2 @ '':'' @ w @ u)"
    using b_key assms(2,3) by (intro gvalue_gelements_gmembers.g_member)
  moreover have "put_members [(k, v)] = map_put k v []" by (simp add: put_members_def)
  ultimately show ?thesis using b_key by (fastforce simp: handle_value_def)
next
  case (b_next_key st rs pre' w0 kvs t w' w1 k kt w2)
  have "gmembers (kvs @ [(k, v)]) (t @ w' @ '','' @ w1 @ dq # kt @ dq # w2 @ '':'' @ w @ u)"
    using b_next_key assms(2,3) by (intro gvalue_gelements_gmembers.g_members)
  with b_next_key show ?thesis by (fastforce simp: handle_value_def)
qed

lemma array_closed:
  assumes "after (True # st) (FArray vs # rs) r pre" "ws w"
  obtains pre' w0 t where "pre @ w @ '']'' = pre' @ w0 @ t" "before st rs pre'" "ws w0" "gvalue (JArray vs) t"
proof -
  from assms(1) obtain pre' w0 t where "pre = pre' @ w0 @ ''['' @ t" "before st rs pre'" "ws w0" "gelements vs t" by auto
  with gvalue_gelements_gmembers.g_array [OF _ assms(2)] that [of pre' w0 "CHR ''['' # t @ w @ '']''"] show ?thesis by simp
qed

lemma object_closed:
  assumes "after (False # st) (FObject m k # rs) r pre" "ws w"
  obtains pre' w0 t where "pre @ w @ ''}'' = pre' @ w0 @ t" "before st rs pre'" "ws w0" "gvalue (JObject m) t"
proof -
  from assms(1) obtain pre' w0 kvs t where "pre = pre' @ w0 @ ''{'' @ t" "before st rs pre'" "ws w0" "gmembers kvs t" "m = put_members kvs"
    by auto
  with gvalue_gelements_gmembers.g_object [OF _ assms(2)] that [of pre' w0 "CHR ''{'' # t @ w @ ''}''"] show ?thesis by simp
qed

text \<open>The three situations of the parser in a text: a value is expected, its first token has been read, a value has been read.\<close>

definition expecting :: "parser \<Rightarrow> string \<Rightarrow> bool" where
  "expecting p text \<longleftrightarrow> (\<exists>pre cs. text = pre @ cs \<and> before (states p) (ref_stack p) pre \<and> live (m_lexer p) cs)"

definition token_read :: "parser \<Rightarrow> string \<Rightarrow> bool" where
  "token_read p text \<longleftrightarrow> last_token p \<in> {parse_error, end_of_input} \<or>
     (\<exists>pre w u cs. text = pre @ w @ u @ cs \<and> before (states p) (ref_stack p) pre \<and> ws w \<and>
        token_text (last_token p) (m_lexer p) u \<and> live (m_lexer p) cs)"

definition value_read :: "parser \<Rightarrow> string \<Rightarrow> bool" where
  "value_read p text \<longleftrightarrow> (\<exists>pre cs. text = pre @ cs \<and> after (states p) (ref_stack p) (root p) pre \<and> live (m_lexer p) cs)"

lemma get_token_fields [simp]:
  "ref_stack (get_token p) = ref_stack p" "scan (m_lexer p) = (last_token (get_token p), m_lexer (get_token p))"
  by (simp_all add: get_token_def case_prod_unfold Let_def)

lemma get_token_finds:
  assumes "live (m_lexer p) cs" "last_token (get_token p) \<notin> {parse_error, end_of_input}"
  shows "finds cs (last_token (get_token p)) (m_lexer (get_token p))"
  using scan_sound [OF assms(1) get_token_fields(2)] assms(2) by auto

lemma token_read_get: "expecting p text \<Longrightarrow> token_read (get_token p) text"
proof (cases "last_token (get_token p) \<in> {parse_error, end_of_input}")
  case False
  assume "expecting p text"
  then obtain pre cs where p: "text = pre @ cs" "before (states p) (ref_stack p) pre" "live (m_lexer p) cs"
    unfolding expecting_def by blast
  from get_token_finds [OF p(3) False] obtain w u cs' where
    "cs = w @ u @ cs'" "ws w" "token_text (last_token (get_token p)) (m_lexer (get_token p)) u" "live (m_lexer (get_token p)) cs'" by blast
  with p(1,2) show ?thesis unfolding token_read_def by (intro disjI2 exI) auto
qed (simp add: token_read_def)

text \<open>The key of a member, with the separator after it.\<close>

lemma parse_key_sound:
  assumes "parse_key p = Inr q" "token_text (last_token p) (m_lexer p) u" "live (m_lexer p) cs"
  obtains k kt w cs' where "u = dq # kt @ [dq]" "str_text k kt" "ws w" "cs = w @ '':'' @ cs'" "live (m_lexer q) cs'"
    "states q = states p" "ref_stack q = ref_stack (sax_key k p)" "root q = root (sax_key k p)"
proof -
  let ?k = "token_buffer (m_lexer p)" and ?p = "sax_key (token_buffer (m_lexer p)) p"
  from assms(1) have t: "last_token p = value_string" "q = get_token ?p" "last_token q = name_separator"
    by (auto simp: parse_key_def syntax_error_def Let_def split: if_splits)
  from assms(2) t(1) obtain kt where kt: "u = dq # kt @ [dq]" "str_text ?k kt" by (auto simp: token_text_def)
  have "live (m_lexer ?p) cs" using assms(3) by simp
  from get_token_finds [OF this] t(2,3) obtain w cs' where
    "cs = w @ '':'' @ cs'" "ws w" "live (m_lexer q) cs'" by (auto simp: token_text_def)
  with kt t(2) show ?thesis by (intro that [of kt ?k w cs']) simp_all
qed

section \<open>Steps of the parser\<close>

lemma container_end_read:
  assumes "text = pre' @ w @ u @ cs" "before (states p) (ref_stack p) pre'" "ws w" "gvalue v u" "live (m_lexer p) cs"
  shows "value_read (handle_value v p) text"
  using after_value [OF assms(2-4)] assms(1,5) unfolding value_read_def
  by (intro exI [of _ "pre' @ w @ u"] exI [of _ cs]) simp

lemma value_step_sound:
  assumes "token_read p text" "value_step p = Inr (c, q)"
  shows "if c then token_read q text else value_read q text"
proof -
  have ok: "last_token p \<notin> {parse_error, end_of_input}"
    using assms(2) by (auto simp: value_step_def syntax_error_def split: if_splits)
  then obtain pre w u cs where p: "text = pre @ w @ u @ cs" "before (states p) (ref_stack p) pre" "ws w"
      "token_text (last_token p) (m_lexer p) u" "live (m_lexer p) cs"
    using assms(1) unfolding token_read_def by blast
  show ?thesis
  proof (cases "token_json (last_token p) (m_lexer p)")
    case (Some v)
    then have "gvalue v u"
      using p(4) gvalue_gelements_gmembers.g_string by (auto simp: token_json_def token_text_def split: token_type.splits)
    with container_end_read [OF p(1-3) _ p(5)] value_step_token [OF Some] assms(2) show ?thesis by simp
  next
    case None
    with assms(2) have t: "last_token p = begin_array \<or> last_token p = begin_object"
      by (auto simp: value_step_def token_json_def syntax_error_def split: token_type.splits double.splits if_splits)
    show ?thesis
    proof (cases "last_token p = begin_array")
      case True
      let ?r = "get_token (start_array p)"
      have u: "u = ''[''" using True p(4) by (simp add: token_text_def)
      show ?thesis
      proof (cases "last_token ?r = end_array")
        case False
        with True assms(2) have q: "c" "q = ?r\<lparr>states := True # states p\<rparr>" by (auto simp: value_step_def Let_def)
        have "expecting ((start_array p)\<lparr>states := True # states p\<rparr>) text"
          using b_first [OF p(2,3)] p(1,5) u unfolding expecting_def
          by (intro exI [of _ "pre @ w @ ''[''"] exI [of _ cs]) (simp add: start_array_def)
        from token_read_get [OF this] q show ?thesis by simp
      next
        case closed: True
        with True assms(2) have q: "\<not> c" "q = end_container ?r" by (auto simp: value_step_def Let_def)
        have "live (m_lexer (start_array p)) cs" using p(5) by simp
        from get_token_finds [OF this] closed obtain w' cs' where
          w': "cs = w' @ '']'' @ cs'" "ws w'" "live (m_lexer ?r) cs'" by (auto simp: token_text_def)
        have "q = handle_value (JArray []) (?r\<lparr>ref_stack := ref_stack p\<rparr>)"
          by (simp add: q(2) end_container_def start_array_def)
        with container_end_read [of "text" pre w "CHR ''['' # w' @ '']''" cs' "?r\<lparr>ref_stack := ref_stack p\<rparr>" "JArray []"]
          gvalue_gelements_gmembers.g_array0 [OF w'(2)] p(1-3) u w'(1,3) q(1)
        show ?thesis by (simp add: start_array_def)
      qed
    next
      case False
      with t have obj: "last_token p = begin_object" by simp
      let ?r = "get_token (start_object p)"
      have u: "u = ''{''" using obj p(4) by (simp add: token_text_def)
      have lv: "live (m_lexer (start_object p)) cs" using p(5) by simp
      show ?thesis
      proof (cases "last_token ?r = end_object")
        case True
        with obj assms(2) have q: "\<not> c" "q = end_container ?r" by (auto simp: value_step_def Let_def)
        from get_token_finds [OF lv] True obtain w' cs' where
          w': "cs = w' @ ''}'' @ cs'" "ws w'" "live (m_lexer ?r) cs'" by (auto simp: token_text_def)
        have "q = handle_value (JObject []) (?r\<lparr>ref_stack := ref_stack p\<rparr>)"
          by (simp add: q(2) end_container_def start_object_def)
        with container_end_read [of "text" pre w "CHR ''{'' # w' @ ''}''" cs' "?r\<lparr>ref_stack := ref_stack p\<rparr>" "JObject []"]
          gvalue_gelements_gmembers.g_object0 [OF w'(2)] p(1-3) u w'(1,3) q(1)
        show ?thesis by (simp add: start_object_def)
      next
        case False
        with obj assms(2) obtain r where r: "parse_key ?r = Inr r" "c" "q = get_token (r\<lparr>states := False # states r\<rparr>)"
          by (cases "parse_key ?r") (simp_all add: value_step_def Let_def)
        have "last_token ?r = value_string" using r(1) by (auto simp: parse_key_def syntax_error_def split: if_splits)
        then have "last_token ?r \<notin> {parse_error, end_of_input}" by simp
        from get_token_finds [OF lv this] obtain w1 ku cs1 where
          k1: "cs = w1 @ ku @ cs1" "ws w1" "token_text (last_token ?r) (m_lexer ?r) ku" "live (m_lexer ?r) cs1" by blast
        obtain k kt w2 cs2 where
          k2: "ku = dq # kt @ [dq]" "str_text k kt" "ws w2" "cs1 = w2 @ '':'' @ cs2" "live (m_lexer r) cs2"
            "states r = states ?r" "ref_stack r = ref_stack (sax_key k ?r)" "root r = root (sax_key k ?r)"
          by (rule parse_key_sound [OF r(1) k1(3,4)])
        have so: "ref_stack ?r = FObject [] [] # ref_stack p" "states ?r = states p"
          by (simp_all add: start_object_def [of p])
        then have "ref_stack r = FObject [] k # ref_stack p" "states r = states p"
          unfolding k2(6,7) by (simp_all add: sax_key_def)
        then have "expecting (r\<lparr>states := False # states r\<rparr>) text"
          using b_key [OF p(2,3) k1(2) k2(2,3)] p(1) u k1(1) k2(1,4,5) unfolding expecting_def
          by (intro exI [of _ "pre @ w @ ''{'' @ w1 @ dq # kt @ dq # w2 @ '':''"] exI [of _ cs2]) simp
        from token_read_get [OF this] r(2,3) show ?thesis by simp
      qed
    qed
  qed
qed

lemma state_step_sound:
  assumes "value_read p text" "state_step p = Inr (Some (sk, q))"
  shows "if sk then value_read q text else token_read q text"
proof -
  obtain pre cs where p: "text = pre @ cs" "after (states p) (ref_stack p) (root p) pre" "live (m_lexer p) cs"
    using assms(1) unfolding value_read_def by blast
  let ?r = "get_token p"
  consider (arr) st vs rs where "states p = True # st" "ref_stack p = FArray vs # rs"
    | (obj) st m k rs where "states p = False # st" "ref_stack p = FObject m k # rs"
    using p(2) assms(2) by (cases "(states p, ref_stack p, root p, pre)" rule: after.cases) (auto simp: state_step_def)
  then show ?thesis
  proof cases
    case arr
    note af = p(2) [unfolded arr]
    show ?thesis
    proof (cases "last_token ?r = value_separator")
      case True
      with assms(2) arr(1) have q: "\<not> sk" "q = get_token ?r" by (auto simp: state_step_def Let_def)
      from get_token_finds [OF p(3)] True obtain w cs' where
        w: "cs = w @ '','' @ cs'" "ws w" "live (m_lexer ?r) cs'" by (auto simp: token_text_def)
      from af obtain pre' w0 t where a: "pre = pre' @ w0 @ ''['' @ t" "before st rs pre'" "ws w0" "gelements vs t" by auto
      have "expecting ?r text"
        using b_next [OF a(2-4) w(2)] p(1) a(1) w(1,3) arr unfolding expecting_def
        by (intro exI [of _ "pre' @ w0 @ ''['' @ t @ w @ '',''"] exI [of _ cs']) simp
      from token_read_get [OF this] q show ?thesis by simp
    next
      case False
      with assms(2) arr(1) have q: "sk" "last_token ?r = end_array" "q = (end_container ?r)\<lparr>states := st\<rparr>"
        by (auto simp: state_step_def syntax_error_def Let_def split: if_splits)
      from get_token_finds [OF p(3)] q(2) obtain w cs' where
        w: "cs = w @ '']'' @ cs'" "ws w" "live (m_lexer ?r) cs'" by (auto simp: token_text_def)
      obtain pre' w0 t where a: "pre @ w @ '']'' = pre' @ w0 @ t" "before st rs pre'" "ws w0" "gvalue (JArray vs) t"
        using array_closed [OF af w(2)] .
      let ?p = "?r\<lparr>ref_stack := rs, states := st\<rparr>"
      have "text = pre' @ w0 @ t @ cs'" using p(1) w(1) arg_cong [OF a(1), of "\<lambda>s. s @ cs'"] by simp
      with a(2-4) w(3) have "value_read (handle_value (JArray vs) ?p) text"
        by (intro container_end_read) simp_all
      moreover have "q = handle_value (JArray vs) ?p"
        using arr(2) by (simp add: q(3) end_container_def handle_value_def)
      ultimately show ?thesis using q(1) by simp
    qed
  next
    case obj
    note af = p(2) [unfolded obj]
    show ?thesis
    proof (cases "last_token ?r = value_separator")
      case True
      let ?q = "get_token ?r"
      obtain r where r: "parse_key ?q = Inr r" "\<not> sk" "q = get_token r"
        using assms(2) obj(1) True by (cases "parse_key ?q") (auto simp: state_step_def Let_def)
      from get_token_finds [OF p(3)] True obtain w cs' where
        w: "cs = w @ '','' @ cs'" "ws w" "live (m_lexer ?r) cs'" by (auto simp: token_text_def)
      have "last_token ?q = value_string" using r(1) by (auto simp: parse_key_def syntax_error_def split: if_splits)
      then have "last_token ?q \<notin> {parse_error, end_of_input}" by simp
      from get_token_finds [OF w(3) this] obtain w1 ku cs1 where
        k1: "cs' = w1 @ ku @ cs1" "ws w1" "token_text (last_token ?q) (m_lexer ?q) ku" "live (m_lexer ?q) cs1" by blast
      obtain k' kt w2 cs2 where
        k2: "ku = dq # kt @ [dq]" "str_text k' kt" "ws w2" "cs1 = w2 @ '':'' @ cs2" "live (m_lexer r) cs2"
          "states r = states ?q" "ref_stack r = ref_stack (sax_key k' ?q)" "root r = root (sax_key k' ?q)"
        by (rule parse_key_sound [OF r(1) k1(3,4)])
      from af obtain pre' w0 kvs t where
        a: "pre = pre' @ w0 @ ''{'' @ t" "before st rs pre'" "ws w0" "gmembers kvs t" "m = put_members kvs" by auto
      have rs: "ref_stack r = FObject (put_members kvs) k' # rs" "states r = False # st"
        unfolding k2(6,7) using obj a(5) by (simp_all add: sax_key_def)
      have "expecting r text"
        using b_next_key [OF a(2-4) w(2) k1(2) k2(2,3)] p(1) a(1) w(1) k1(1) k2(1,4,5) rs unfolding expecting_def
        by (intro exI [of _ "pre' @ w0 @ ''{'' @ t @ w @ '','' @ w1 @ dq # kt @ dq # w2 @ '':''"] exI [of _ cs2]) simp
      from token_read_get [OF this] r(2,3) show ?thesis by simp
    next
      case False
      with assms(2) obj(1) have q: "sk" "last_token ?r = end_object" "q = (end_container ?r)\<lparr>states := st\<rparr>"
        by (auto simp: state_step_def syntax_error_def Let_def split: if_splits)
      from get_token_finds [OF p(3)] q(2) obtain w cs' where
        w: "cs = w @ ''}'' @ cs'" "ws w" "live (m_lexer ?r) cs'" by (auto simp: token_text_def)
      obtain pre' w0 t where a: "pre @ w @ ''}'' = pre' @ w0 @ t" "before st rs pre'" "ws w0" "gvalue (JObject m) t"
        using object_closed [OF af w(2)] .
      let ?p = "?r\<lparr>ref_stack := rs, states := st\<rparr>"
      have "text = pre' @ w0 @ t @ cs'" using p(1) w(1) arg_cong [OF a(1), of "\<lambda>s. s @ cs'"] by simp
      with a(2-4) w(3) have "value_read (handle_value (JObject m) ?p) text"
        by (intro container_end_read) simp_all
      moreover have "q = handle_value (JObject m) ?p"
        using obj(2) by (simp add: q(3) end_container_def handle_value_def)
      ultimately show ?thesis using q(1) by simp
    qed
  qed
qed

lemma sax_loop_sound:
  "(if skip then value_read p text else token_read p text) \<Longrightarrow> sax_loop skip p = Inr q \<Longrightarrow> value_read q text \<and> states q = []"
proof (induction skip p rule: sax_loop.induct)
  case (1 skip p)
  from "1.prems"(2) obtain c p1 where v: "(if skip then Inr (False, p) else value_step p) = Inr (c, p1)"
    by (auto simp: sax_loop.simps [of skip p] split: sum.splits)
  have p1: "if c then token_read p1 text else value_read p1 text"
    using v "1.prems"(1) value_step_sound [of p "text" c p1] by (cases skip) auto
  show ?case
  proof (cases c)
    case True
    with v "1.prems"(2) have "sax_loop False p1 = Inr q" by (simp add: sax_loop.simps [of skip p])
    with "1.IH"(1) [OF v refl True] p1 True show ?thesis by simp
  next
    case False
    with v "1.prems"(2) consider "state_step p1 = Inr None" "q = p1"
      | sk r where "state_step p1 = Inr (Some (sk, r))" "sax_loop sk r = Inr q"
      by (auto simp: sax_loop.simps [of skip p] split: sum.splits option.splits)
    then show ?thesis
    proof cases
      case 1
      then have "states q = []"
        by (auto simp: state_step_def syntax_error_def Let_def split: list.splits bool.splits if_splits sum.splits)
      with p1 False 1(2) show ?thesis by simp
    next
      case (2 sk r)
      have "value_read p1 text" using p1 False by simp
      from state_step_sound [OF this 2(1)] "1.IH"(2) [OF v refl False 2(1) refl refl _ 2(2)] show ?thesis by simp
    qed
  qed
qed

section \<open>Documents\<close>

lemma parse_document:
  assumes "json_parse text = Inr v"
  shows "document v text"
proof -
  define p0 where "p0 = new_parser text"
  from assms obtain q where loop: "sax_loop False (get_token p0) = Inr q"
    and fin: "last_token (get_token q) = end_of_input" "root q = v"
    by (auto simp: json_parse_def parser_parse_def p0_def syntax_error_def Let_def split: sum.splits if_splits)
  have at: "lex_at (m_lexer p0) text" "chars_read_total (m_lexer p0) = 0" and p0: "states p0 = []" "ref_stack p0 = []"
    by (simp_all add: p0_def new_parser_def new_lexer_def lex_at_def view_def)
  have "token_read (get_token p0) text"
  proof (cases "last_token (get_token p0) \<in> {parse_error, end_of_input}")
    case False
    then have ne: "last_token (get_token p0) \<noteq> parse_error" "last_token (get_token p0) \<noteq> end_of_input" by simp_all
    obtain b cs1 where b: "text = b @ cs1" "b = [] \<or> b = bom" "finds cs1 (last_token (get_token p0)) (m_lexer (get_token p0))"
      by (rule scan_first_token_sound [OF at get_token_fields(2) ne])
    then obtain w u cs where "cs1 = w @ u @ cs" "ws w" "token_text (last_token (get_token p0)) (m_lexer (get_token p0)) u"
      "live (m_lexer (get_token p0)) cs" by blast
    with b(1) b_top [OF b(2)] p0 show ?thesis unfolding token_read_def by (intro disjI2 exI) auto
  qed (simp add: token_read_def)
  with sax_loop_sound [of False "get_token p0" "text" q] loop have "value_read q text" "states q = []" by simp_all
  then obtain pre cs where q: "text = pre @ cs" "after [] (ref_stack q) (root q) pre" "live (m_lexer q) cs"
    unfolding value_read_def by auto
  then have "ref_stack q = []" by (cases "ref_stack q") auto
  with q(2) fin(2) obtain b w t where d: "pre = b @ w @ t" "b = [] \<or> b = bom" "ws w" "gvalue v t" by auto
  from scan_sound [OF q(3) get_token_fields(2)] fin(1) obtain w' rest where
    "cs = w' @ rest" "ws w'" "rest = [] \<or> hd rest = CHR 0x00" by auto
  with q(1) d show ?thesis unfolding document_def by (intro exI [of _ b] exI [of _ w] exI [of _ t] exI [of _ w'] exI [of _ rest]) simp
qed

end
