(* ===== verification/Json_Roundtrip.thy ===== *)
theory Json_Roundtrip
  imports Json_Sound
begin

text \<open>
  Parsing inverts printing: the compact text of a value belongs to the grammar, so the parser reads it
  back.
\<close>

text \<open>A non-negative integer is read back as an unsigned number, as the text has no sign.\<close>

fun norm_json :: "json \<Rightarrow> json" where
  "norm_json (JInt i) = (if 0 \<le> i then JUint (nat i) else JInt i)"
| "norm_json (JArray vs) = JArray (map norm_json vs)"
| "norm_json (JObject m) = JObject (map (\<lambda>(k, v). (k, norm_json v)) m)"
| "norm_json j = j"

section \<open>Strings\<close>

lemma hex_lower_digit: "d < 16 \<Longrightarrow> hex_digit (hex_lower d) = Some d"
proof -
  have "list_all (\<lambda>d. hex_digit (hex_lower d) = Some d) [0..<16]" by code_simp
  then show "d < 16 \<Longrightarrow> ?thesis" by (simp add: list_all_iff)
qed

lemma code_unit_u_escape:
  assumes "n < 2 ^ 16"
  obtains h where "u_escape n = bsl # CHR ''u'' # h" "code_unit h = Some n"
proof -
  let ?h = "\<lambda>k. hex_lower (n div k mod 16)"
  have e: "u_escape n = bsl # CHR ''u'' # [?h 4096, ?h 256, ?h 16, hex_lower (n mod 16)]" by (simp add: u_escape_def)
  have "n div 4096 < 16" using assms by simp
  then have "n div 4096 mod 16 = n div 4096" by simp
  moreover have "n div 256 = n div 4096 * 16 + n div 256 mod 16"
    using div_mult_mod_eq [of "n div 256" 16] by (simp add: div_mult2_eq [of n 256 16, simplified])
  moreover have "n div 16 = n div 256 * 16 + n div 16 mod 16"
    using div_mult_mod_eq [of "n div 16" 16] by (simp add: div_mult2_eq [of n 16 16, simplified])
  moreover have "n = n div 16 * 16 + n mod 16" by simp
  ultimately have n: "n div 4096 mod 16 * 4096 + n div 256 mod 16 * 256 + n div 16 mod 16 * 16 + n mod 16 = n"
    by linarith
  have "code_unit [?h 4096, ?h 256, ?h 16, hex_lower (n mod 16)]
      = Some (n div 4096 mod 16 * 4096 + n div 256 mod 16 * 256 + n div 16 mod 16 * 16 + n mod 16)"
    by (simp only: code_unit.simps hex_lower_digit [OF mod_less_divisor] bind.bind_lunit zero_less_numeral)
  then have "code_unit [?h 4096, ?h 256, ?h 16, hex_lower (n mod 16)] = Some n" unfolding n .
  with that [OF e] show ?thesis .
qed

lemma utf8_scan_split:
  "utf8_scan rs t = Some [] \<Longrightarrow> \<exists>bs t'. t = bs @ t' \<and> in_ranges rs bs \<and> utf8_ok t'"
proof (induction rs arbitrary: t)
  case Nil
  then show ?case by (simp add: utf8_ok_def in_ranges_def)
next
  case (Cons r rs)
  obtain lo hi where r: "r = (lo, hi)" by fastforce
  from Cons.prems obtain c t1 where t: "t = c # t1" by (cases t) auto
  with Cons.prems r have c: "lo \<le> byte c" "byte c \<le> hi" and "utf8_scan rs t1 = Some []"
    by (auto split: if_splits)
  then obtain bs t' where "t1 = bs @ t'" "in_ranges rs bs" "utf8_ok t'" using Cons.IH by blast
  with c t r show ?case by (intro exI [of _ "c # bs"] exI [of _ t']) (simp add: in_ranges_def)
qed

lemma utf8_ranges_high: "utf8_ranges b = Some rs \<Longrightarrow> (lo, hi) \<in> set rs \<Longrightarrow> 0x80 \<le> lo"
  by (auto simp: utf8_ranges_def split: if_splits)

lemma escape_string_high: "in_ranges rs bs \<Longrightarrow> \<forall>(lo, hi) \<in> set rs. 0x80 \<le> lo \<Longrightarrow> escape_string bs = bs"
  unfolding in_ranges_def
  by (induction rs bs rule: list_all2_induct) (auto simp: escape_string_def esc_byte_def)

text \<open>The three ways a byte below 0x80 is written.\<close>

lemma esc_byte_cases:
  assumes "byte c < 0x80"
  obtains (short) x where "esc_byte c = [bsl, x]" "simple_escape x = Some c"
    | (hex) "esc_byte c = u_escape (byte c)" "byte c \<le> 0x1F"
    | (plain) "esc_byte c = [c]" "c \<noteq> dq" "c \<noteq> bsl" "0x1F < byte c"
proof -
  have two: thesis if "byte c = (byte d :: nat)" "esc_byte d = [bsl, x]" "simple_escape x = Some d" for d x
    using that short by simp
  note defs = esc_byte_def escape_codepoint_def simple_escape_def
  consider "byte c = (8 :: nat)" | "byte c = (9 :: nat)" | "byte c = (10 :: nat)" | "byte c = (12 :: nat)"
    | "byte c = (13 :: nat)" | "byte c = (0x22 :: nat)" | "byte c = (0x5C :: nat)"
    | "byte c \<notin> {8, 9, 10, 12, 13, 0x22, 0x5C :: nat}"
    by blast
  then show thesis
  proof cases
    case 1
    then show ?thesis by (intro two [of "CHR 0x08" "CHR ''b''"]) (simp_all add: defs)
  next
    case 2
    then show ?thesis by (intro two [of "CHR 0x09" "CHR ''t''"]) (simp_all add: defs)
  next
    case 3
    then show ?thesis by (intro two [of "CHR 0x0A" "CHR ''n''"]) (simp_all add: defs)
  next
    case 4
    then show ?thesis by (intro two [of "CHR 0x0C" "CHR ''f''"]) (simp_all add: defs)
  next
    case 5
    then show ?thesis by (intro two [of "CHR 0x0D" "CHR ''r''"]) (simp_all add: defs)
  next
    case 6
    then show ?thesis by (intro two [of dq dq]) (simp_all add: defs)
  next
    case 7
    then show ?thesis by (intro two [of bsl bsl]) (simp_all add: defs)
  next
    case 8
    show ?thesis
    proof (cases "(byte c :: nat) \<le> 0x1F")
      case True
      with 8 assms show ?thesis by (intro hex) (simp_all add: esc_byte_def escape_codepoint_def)
    next
      case False
      with 8 assms show ?thesis by (intro plain) (auto simp: esc_byte_def escape_codepoint_def)
    qed
  qed
qed

lemma byte_ascii_char: "codepoint_bytes (byte c) = [c]" if "byte c < 0x80"
  using that by (simp add: codepoint_bytes_def)

lemma str_char_ascii: assumes "byte c < 0x80" shows "str_char [c] (esc_byte c)"
  using assms
proof (cases rule: esc_byte_cases)
  case (short x)
  then show ?thesis using str_char.short by simp
next
  case hex
  have "(byte c :: nat) < 2 ^ 16" using hex by simp
  then obtain h where "u_escape (byte c) = bsl # CHR ''u'' # h" "code_unit h = Some (byte c)" using code_unit_u_escape by blast
  with hex str_char.unit [of h "byte c"] byte_ascii_char [OF assms] show ?thesis by simp
next
  case plain
  with assms str_char.plain [of c] show ?thesis by simp
qed

text \<open>A well-formed UTF-8 string is a sequence of characters, each escaped on its own.\<close>

lemma utf8_ok_cases:
  assumes "utf8_ok str"
  obtains (empty) "str = []" | (ascii) c t where "str = c # t" "byte c < 0x80" "utf8_ok t"
    | (multibyte) c rs bs t where "str = c # bs @ t" "0x80 \<le> byte c" "utf8_ranges (byte c) = Some rs" "in_ranges rs bs" "utf8_ok t"
proof (cases str)
  case Nil
  then show ?thesis by (rule empty)
next
  case (Cons c t)
  show ?thesis
  proof (cases "byte c < 0x80")
    case True
    with assms Cons show ?thesis by (intro ascii [of c t]) simp_all
  next
    case False
    with assms Cons obtain rs where rs: "utf8_ranges (byte c) = Some rs" "utf8_scan rs t = Some []"
      by (auto simp: utf8_ok_def split: bind_splits)
    then obtain bs t' where "t = bs @ t'" "in_ranges rs bs" "utf8_ok t'" using utf8_scan_split by blast
    with False Cons rs(1) show ?thesis by (intro multibyte [of c bs t' rs]) simp_all
  qed
qed

lemma escape_string_append: "escape_string (s @ t) = escape_string s @ escape_string t"
  by (simp add: escape_string_def)

lemma str_text_escape: "utf8_ok str \<Longrightarrow> str_text str (escape_string str)"
proof (induction str rule: length_induct)
  case (1 str)
  from "1.prems" show ?case
  proof (cases rule: utf8_ok_cases)
    case empty
    then show ?thesis using str_text.empty by (simp add: escape_string_def)
  next
    case (ascii c t)
    with "1.IH" str_text.char [OF str_char_ascii [OF ascii(2)], of t "escape_string t"] show ?thesis
      by (simp add: escape_string_def)
  next
    case (multibyte c rs bs t)
    have "escape_string bs = bs"
      using multibyte(4) utf8_ranges_high [OF multibyte(3)] by (intro escape_string_high) auto
    then have "escape_string str = (c # bs) @ escape_string t"
      using multibyte(1,2) escape_string_append [of "c # bs" t] by (simp add: escape_string_def esc_byte_def)
    moreover have "str_text t (escape_string t)" using "1.IH" multibyte(1,5) by simp
    ultimately show ?thesis
      using str_text.char [OF str_char.multi [OF multibyte(2-4)], of t "escape_string t"] multibyte(1) by simp
  qed
qed

section \<open>Numbers\<close>

lemma show_nat_first:
  assumes "show_nat n = d # ds"
  shows "is_digit d" "d = CHR ''0'' \<longleftrightarrow> n = 0"
proof -
  show "is_digit d" using show_nat_digits [of d n] assms by simp
  have "show_nat 0 = ''0''" by code_simp
  then show "d = CHR ''0'' \<longleftrightarrow> n = 0" using assms show_nat_hd_nonzero [of n] by auto
qed

lemma show_nat_parts: "number_parts (show_nat n) [] []"
proof -
  obtain d ds where ds: "show_nat n = d # ds" by (cases "show_nat n") auto
  have "list_all is_digit (show_nat n)" using show_nat_digits by (simp add: list_all_iff)
  then have "show_nat n = ''0'' \<or> lead_digits (show_nat n)"
    using show_nat_first [OF ds] ds by (cases "n = 0") (auto simp: lead_digits_def show_nat.simps)
  then show ?thesis by (simp add: number_parts_def fraction_def exponent_def)
qed

lemma gvalue_unsigned: "n < 2 ^ 64 \<Longrightarrow> gvalue (JUint n) (show_nat n)"
  using gvalue_gelements_gmembers.g_number [OF show_nat_parts, of False n] by (simp add: number_value_def)

lemma gvalue_negative: "n \<le> 2 ^ 63 \<Longrightarrow> gvalue (JInt (- int n)) (CHR ''-'' # show_nat n)"
  using gvalue_gelements_gmembers.g_number [OF show_nat_parts, of True n] by (simp add: number_value_def)

lemma gvalue_integer:
  assumes "- (2 ^ 63) \<le> i" "i < 2 ^ 63"
  shows "gvalue (norm_json (JInt i)) (show_int i)"
proof (cases "0 \<le> i")
  case True
  with assms(2) have "nat i < 2 ^ 64" by (simp add: nat_less_iff)
  with gvalue_unsigned [OF this] True show ?thesis by (simp add: show_int_def)
next
  case False
  with assms(1) have "nat (- i) \<le> 2 ^ 63" "- int (nat (- i)) = i" by (simp_all add: nat_le_iff)
  with gvalue_negative [of "nat (- i)"] False show ?thesis by (simp add: show_int_def)
qed

text \<open>The text of a double has a fraction or an exponent.\<close>

lemma prints_as_parts:
  assumes "prints_as t v"
  obtains ip ft et where "t = ip @ ft @ et" "number_parts ip ft et" "ft \<noteq> [] \<or> et \<noteq> []"
proof -
  obtain ip fp ep where t: "t = decimal_text ip fp ep" and sh: "float_shape ip fp ep"
    using assms unfolding prints_as_def by blast
  define ft where "ft = (case fp of None \<Rightarrow> [] | Some f \<Rightarrow> CHR ''.'' # f)"
  define et where "et = (case ep of None \<Rightarrow> [] | Some e \<Rightarrow> CHR ''e'' # e)"
  have "fraction ft" using sh by (auto simp: float_shape_def ft_def fraction_def split: option.split)
  moreover have "exponent et"
  proof (cases ep)
    case None
    then show ?thesis by (simp add: et_def exponent_def)
  next
    case (Some e)
    with sh obtain sg es where "e = sg # es" "sg \<in> set ''+-''" "es \<noteq> []" "list_all is_digit es"
      unfolding float_shape_def by blast
    with Some show ?thesis unfolding exponent_def et_def
      by - (rule disjI2, rule exI [of _ "CHR ''e''"], rule exI [of _ "[sg]"], rule exI [of _ es], auto)
  qed
  ultimately have "number_parts ip ft et" using sh by (simp add: number_parts_def float_shape_def)
  moreover have "ft \<noteq> [] \<or> et \<noteq> []" using sh by (auto simp: float_shape_def ft_def et_def)
  ultimately show ?thesis using that t by (simp add: decimal_text_def ft_def et_def)
qed

lemma float_value:
  assumes "number_parts ip ft et" "ft \<noteq> [] \<or> et \<noteq> []" "strtod (sign_text neg @ ip @ ft @ et) = Fin x"
  shows "number_value neg ip ft et = Some (JFloat (Fin x))"
  using assms(2) assms(3) [unfolded strtod_parts [OF assms(1)]] by (auto simp: number_value_def Let_def)

lemma to_chars_parts:
  assumes "round64 x = Fin x"
  obtains neg ip ft et where "to_chars (x < 0) x = Some (sign_text neg @ ip @ ft @ et)" "length (sign_text neg @ ip @ ft @ et) \<le> 24"
    "number_parts ip ft et" "number_value neg ip ft et = Some (JFloat (Fin x))"
proof -
  obtain t where t: "to_chars (x < 0) x = Some (sign_text (x < 0) @ t)" "prints_as t (decimal_val t)"
    "strtod (sign_text (x < 0) @ t) = Fin x"
    using to_chars_strtod [OF assms] .
  obtain ip ft et where p: "t = ip @ ft @ et" "number_parts ip ft et" "ft \<noteq> [] \<or> et \<noteq> []"
    using prints_as_parts [OF t(2)] .
  have "length t \<le> 23" using t(2) by (simp add: prints_as_def)
  with float_value [OF p(2,3) t(3) [unfolded p(1)]] p(1,2) t(1) show ?thesis by (intro that [of "x < 0" ip ft et]) simp_all
qed

lemma gvalue_float:
  assumes "round64 x = Fin x"
  obtains t where "to_chars (x < 0) x = Some t" "gvalue (JFloat (Fin x)) t"
  using to_chars_parts [OF assms] gvalue_gelements_gmembers.g_number by metis

lemma scan_float:
  assumes "round64 x = Fin x" "to_chars (x < 0) x = Some t" "lex_at s (t @ cs)" "number_end cs"
  shows "\<exists>s'. scan s = (value_float, s') \<and> lex_at s' cs \<and> num_float s' = Fin x"
proof -
  obtain neg ip ft et where p: "to_chars (x < 0) x = Some (sign_text neg @ ip @ ft @ et)"
    "number_parts ip ft et" "number_value neg ip ft et = Some (JFloat (Fin x))"
    using to_chars_parts [OF assms(1)] by metis
  have "t = sign_text neg @ ip @ ft @ et" using assms(2) p(1) by simp
  then have "lex_at s ([] @ sign_text neg @ ip @ ft @ et @ cs)" using assms(3) by (simp only: append_assoc append_Nil)
  from scan_number_at [OF _ p(2) this assms(4)] p(3) obtain t' l where
    l: "scan s = (t', l)" "lex_at l cs" "number_token t'" "token_json t' l = Some (JFloat (Fin x))" by (auto simp: ws_def)
  from l(3,4) have "t' = value_float" "num_float l = Fin x" by (auto simp: token_json_def split: double.splits)
  with l(1,2) show ?thesis by blast
qed

text \<open>The negative zero.\<close>

lemma to_chars_zero: "to_chars b 0 = Some (sign_text b @ ''0.0'')"
  by (simp add: to_chars_def)

lemma scan_zero:
  assumes "lex_at s ((sign_text b @ ''0.0'') @ cs)" "number_end cs"
  shows "\<exists>s'. scan s = (value_float, s') \<and> lex_at s' cs \<and> num_float s' = Fin 0"
proof -
  have p: "number_parts ''0'' ''.0'' []"
    by (simp add: number_parts_def fraction_def exponent_def is_digit_def)
  have v: "number_value b ''0'' ''.0'' [] = Some (JFloat (Fin 0))"
  proof (cases b)
    case True
    have "number_value True ''0'' ''.0'' [] = Some (JFloat (Fin 0))" by code_simp
    with True show ?thesis by simp
  next
    case False
    have "number_value False ''0'' ''.0'' [] = Some (JFloat (Fin 0))" by code_simp
    with False show ?thesis by simp
  qed
  have at: "lex_at s ([] @ sign_text b @ ''0'' @ ''.0'' @ [] @ cs)" using assms(1) by simp
  from scan_number_at [OF _ p at assms(2)] v obtain t' l where
    l: "scan s = (t', l)" "lex_at l cs" "number_token t'" "token_json t' l = Some (JFloat (Fin 0))" by (auto simp: ws_def)
  from l(3,4) have "t' = value_float" "num_float l = Fin 0" by (auto simp: token_json_def split: double.splits)
  with l(1,2) show ?thesis by blast
qed

section \<open>Values\<close>

lemma ws_Nil [simp]: "ws []"
  by (simp add: ws_def)

lemma gelements_print:
  assumes "list_all (\<lambda>v. gvalue (norm_json v) (print_json v)) (v # vs)"
  shows "gelements (map norm_json (v # vs)) (print_elements (v # vs))"
proof -
  have more: "gelements us t \<Longrightarrow> list_all (\<lambda>v. gvalue (norm_json v) (print_json v)) vs \<Longrightarrow>
      gelements (us @ map norm_json vs) (t @ (if vs = [] then [] else '','' @ print_elements vs))" for us t
  proof (induction vs arbitrary: us t)
    case (Cons w vs)
    then have "gelements (us @ [norm_json w]) (t @ [] @ '','' @ [] @ print_json w)"
      by (intro gvalue_gelements_gmembers.g_elements) simp_all
    with Cons.IH [OF this] Cons.prems(2) show ?case by simp
  qed simp
  have "gelements [norm_json v] ([] @ print_json v)"
    using assms by (intro gvalue_gelements_gmembers.g_element) simp_all
  with more [of "[norm_json v]" "print_json v"] assms show ?thesis by simp
qed

abbreviation norm_members :: "(string \<times> json) list \<Rightarrow> (string \<times> json) list" where
  "norm_members \<equiv> map (\<lambda>(k, v). (k, norm_json v))"

lemma gmembers_print:
  assumes "list_all (\<lambda>(k, v). utf8_ok k \<and> gvalue (norm_json v) (print_json v)) ((k, v) # m)"
  shows "gmembers (norm_members ((k, v) # m)) (print_members ((k, v) # m))"
proof -
  have more: "gmembers us t \<Longrightarrow> list_all (\<lambda>(k, v). utf8_ok k \<and> gvalue (norm_json v) (print_json v)) m \<Longrightarrow>
      gmembers (us @ norm_members m) (t @ (if m = [] then [] else '','' @ print_members m))" for us t
  proof (induction m arbitrary: us t)
    case (Cons kv m)
    obtain k v where kv: "kv = (k, v)" by fastforce
    with Cons.prems have "gmembers (us @ [(k, norm_json v)])
        (t @ [] @ '','' @ [] @ dq # escape_string k @ dq # [] @ '':'' @ [] @ print_json v)"
      by (intro gvalue_gelements_gmembers.g_members str_text_escape) simp_all
    with Cons.IH [OF this] Cons.prems(2) kv show ?case by simp
  qed simp
  have "gmembers [(k, norm_json v)] ([] @ dq # escape_string k @ dq # [] @ '':'' @ [] @ print_json v)"
    using assms by (intro gvalue_gelements_gmembers.g_member str_text_escape) simp_all
  with more [of "[(k, norm_json v)]" "dq # escape_string k @ dq # CHR '':'' # print_json v"] assms show ?thesis by simp
qed

text \<open>Members with sorted, distinct keys are put one behind the other.\<close>

lemma map_put_last: "\<forall>(a, b) \<in> set m. a < k \<Longrightarrow> map_put k v m = m @ [(k, v)]"
  by (induction m) (auto simp: not_less_iff_gr_or_eq)

lemma put_members_sorted: "map_sorted kvs \<Longrightarrow> put_members kvs = kvs"
proof (induction kvs rule: rev_induct)
  case (snoc kv kvs)
  obtain k v where kv: "kv = (k, v)" by fastforce
  with snoc show ?case by (auto simp: sorted_wrt_append intro!: map_put_last)
qed simp

lemma norm_members_sorted: "map_sorted m \<Longrightarrow> map_sorted (norm_members m)"
  by (simp add: comp_def case_prod_unfold)

lemma print_json_grammar: "json_wf j \<Longrightarrow> gvalue (norm_json j) (print_json j)"
proof (induction j)
  case (JInt i)
  then show ?case using gvalue_integer [of i] by simp
next
  case (JFloat d)
  then obtain x where x: "d = Fin x" "round64 x = Fin x" by (auto split: double.splits)
  obtain t where "to_chars (x < 0) x = Some t" "gvalue (JFloat (Fin x)) t" using gvalue_float [OF x(2)] .
  with x(1) show ?case by (simp add: dump_float_def)
next
  case (JArray vs)
  then have vs: "list_all (\<lambda>v. gvalue (norm_json v) (print_json v)) vs" by (auto simp: list_all_iff)
  show ?case
  proof (cases vs)
    case Nil
    then show ?thesis using gvalue_gelements_gmembers.g_array0 [of "[]"] by simp
  next
    case (Cons v us)
    from gvalue_gelements_gmembers.g_array [OF gelements_print [of v us] ws_Nil] vs Cons show ?thesis by simp
  qed
next
  case (JObject m)
  then have m: "list_all (\<lambda>(k, v). utf8_ok k \<and> gvalue (norm_json v) (print_json v)) m" and sorted: "map_sorted m"
    by (fastforce simp: list_all_iff)+
  show ?case
  proof (cases m)
    case Nil
    then show ?thesis using gvalue_gelements_gmembers.g_object0 [of "[]"] by simp
  next
    case (Cons kv us)
    obtain k v where kv: "kv = (k, v)" by fastforce
    from gvalue_gelements_gmembers.g_object [OF gmembers_print [of k v us] ws_Nil] m Cons kv
    have "gvalue (JObject (put_members (norm_members m))) (print_json (JObject m))" by simp
    then show ?thesis using put_members_sorted [OF norm_members_sorted [OF sorted]] by simp
  qed
next
  case (JBool b)
  then show ?case by (cases b) (simp_all add: gvalue_gelements_gmembers.intros(2,3))
next
  case (JString s)
  then show ?case using gvalue_gelements_gmembers.g_string [OF str_text_escape [of s]] by simp
qed (simp_all add: gvalue_gelements_gmembers.intros(1) gvalue_unsigned)

lemma document_value: "gvalue v t \<Longrightarrow> document v t"
  unfolding document_def
  by (rule exI [of _ "[]"], rule exI [of _ "[]"], rule exI [of _ t], rule exI [of _ "[]"], rule exI [of _ "[]"]) simp

lemma json_parse_print:
  assumes "json_wf j"
  shows "json_parse (print_json j) = Inr (norm_json j)"
  using assms by (intro document_parses document_value print_json_grammar)

end
