(* ===== verification/Json_Dump.thy ===== *)
theory Json_Dump
  imports Json_Roundtrip
begin

text \<open>
  \<open>dump\<close> with any arguments: indentation, with any character, and \<open>ensure_ascii\<close>. Every text that it
  writes with the strict error handler is a text of the grammar with the value that was dumped, as long
  as the indentation does not outgrow \<open>indent_string\<close>.
\<close>

section \<open>Escaping to ASCII\<close>

lemma escape_ascii_char:
  assumes "byte c < 0x80"
  shows "str_char [c] (escape_codepoint ea (byte c) c)"
proof (cases "ea \<and> byte c = (0x7F :: nat)")
  case True
  obtain h where "u_escape 0x7F = bsl # CHR ''u'' # h" "code_unit h = Some 0x7F" using code_unit_u_escape [of "0x7F"] by auto
  with True str_char.unit [of h "0x7F"] byte_ascii_char [OF assms] show ?thesis by (simp add: escape_codepoint_def)
next
  case False
  with assms have "escape_codepoint ea (byte c) c = esc_byte c" by (auto simp: esc_byte_def escape_codepoint_def)
  with str_char_ascii [OF assms] show ?thesis by simp
qed

text \<open>The code point of a multi-byte sequence, as the decoder collects it.\<close>

definition cp_value :: "nat \<Rightarrow> string \<Rightarrow> nat" where
  "cp_value = foldl (\<lambda>v b. byte b mod 64 + 64 * v)"

definition lead_value :: "char \<Rightarrow> nat" where
  "lead_value c = drop_bit (byte_type (byte c)) 0xFF AND byte c"

lemma char_of_sum [simp]: "k \<le> byte c \<Longrightarrow> char_of (k + (byte c - k)) = c"
  by simp

lemma lead_values:
  "0xC2 \<le> byte c \<Longrightarrow> byte c \<le> 0xDF \<Longrightarrow> lead_value c = byte c - 0xC0"
  "0xE0 \<le> byte c \<Longrightarrow> byte c \<le> 0xEF \<Longrightarrow> lead_value c = byte c - 0xE0"
  "0xF0 \<le> byte c \<Longrightarrow> byte c \<le> 0xF4 \<Longrightarrow> lead_value c = byte c - 0xF0"
  by (cases "byte c :: nat" rule: byte_classes;
      simp add: lead_value_def byte_type_def nat_and_masks drop_bit_eq_div byte_mods)+

lemma utf8_range_cases:
  assumes "utf8_ranges b = Some rs" "in_ranges rs bs"
  obtains (two) b1 where "bs = [b1]" "0xC2 \<le> b" "b \<le> 0xDF" "0x80 \<le> byte b1" "byte b1 \<le> 0xBF"
    | (three) b1 b2 where "bs = [b1, b2]" "0xE0 \<le> b" "b \<le> 0xEF" "0x80 \<le> byte b1" "byte b1 \<le> 0xBF"
        "0x80 \<le> byte b2" "byte b2 \<le> 0xBF" "b = 0xE0 \<Longrightarrow> 0xA0 \<le> byte b1" "b = 0xED \<Longrightarrow> byte b1 \<le> 0x9F"
    | (four) b1 b2 b3 where "bs = [b1, b2, b3]" "0xF0 \<le> b" "b \<le> 0xF4" "0x80 \<le> byte b1" "byte b1 \<le> 0xBF"
        "0x80 \<le> byte b2" "byte b2 \<le> 0xBF" "0x80 \<le> byte b3" "byte b3 \<le> 0xBF"
        "b = 0xF0 \<Longrightarrow> 0x90 \<le> byte b1" "b = 0xF4 \<Longrightarrow> byte b1 \<le> 0x8F"
proof -
  have len: "length bs = length rs" using assms(2) by (simp add: in_ranges_def list_all2_lengthD)
  have "length rs = 1 \<or> length rs = 2 \<or> length rs = 3" using assms(1) by (auto simp: utf8_ranges_def split: if_splits)
  with len consider b1 where "bs = [b1]" | b1 b2 where "bs = [b1, b2]" | b1 b2 b3 where "bs = [b1, b2, b3]"
    by (auto simp: length_Suc_conv numeral_2_eq_2 numeral_3_eq_3)
  then show ?thesis
  proof cases
    case (1 b1)
    with assms show ?thesis by (intro two [of b1]) (auto simp: utf8_ranges_def in_ranges_def split: if_splits)
  next
    case (2 b1 b2)
    with assms show ?thesis by (intro three [of b1 b2]) (auto simp: utf8_ranges_def in_ranges_def split: if_splits)
  next
    case (3 b1 b2 b3)
    with assms show ?thesis by (intro four [of b1 b2 b3]) (auto simp: utf8_ranges_def in_ranges_def split: if_splits)
  qed
qed

lemma pack64: "b < 64 \<Longrightarrow> (64 * a + b) div 64 = (a :: nat)" "b < 64 \<Longrightarrow> (64 * a + b) mod 64 = (b :: nat)"
  by simp_all

lemma pack64_digits:
  fixes x y z u :: nat
  assumes "y < 64" "z < 64"
  shows "(4096 * x + 64 * y + z) div 4096 = x" "(4096 * x + 64 * y + z) div 64 = 64 * x + y" "(4096 * x + 64 * y + z) mod 64 = z"
proof -
  have e: "4096 * x + 64 * y + z = 64 * (64 * x + y) + z" by simp
  show "(4096 * x + 64 * y + z) div 64 = 64 * x + y" "(4096 * x + 64 * y + z) mod 64 = z"
    unfolding e using assms by (simp_all only: pack64)
  have "(4096 * x + 64 * y + z) div (64 * 64) = x" unfolding div_mult2_eq e using assms by (simp only: pack64)
  then show "(4096 * x + 64 * y + z) div 4096 = x" by simp
qed

lemma multibyte_value:
  assumes "utf8_ranges (byte c) = Some rs" "in_ranges rs bs"
  shows "codepoint_bytes (cp_value (lead_value c) bs) = c # bs" "0x80 \<le> cp_value (lead_value c) bs"
    "cp_value (lead_value c) bs \<le> 0x10FFFF" "\<not> (0xD800 \<le> cp_value (lead_value c) bs \<and> cp_value (lead_value c) bs \<le> 0xDFFF)"
proof -
  have cont: "byte b mod 64 = byte b - 0x80" if "0x80 \<le> byte b" "byte b \<le> 0xBF" for b
    using that byte_mods(4) [of "byte b"] by simp
  have "codepoint_bytes (cp_value (lead_value c) bs) = c # bs \<and> 0x80 \<le> cp_value (lead_value c) bs \<and>
    cp_value (lead_value c) bs \<le> 0x10FFFF \<and> \<not> (0xD800 \<le> cp_value (lead_value c) bs \<and> cp_value (lead_value c) bs \<le> 0xDFFF)"
    using assms
  proof (cases rule: utf8_range_cases)
    case (two b1)
    define x where "x = byte c - (0xC0 :: nat)"
    define y where "y = byte b1 - (0x80 :: nat)"
    have "lead_value c = x" "byte b1 mod 64 = y" using two lead_values(1) [of c] cont [of b1] by (simp_all add: x_def y_def)
    then have v: "cp_value (lead_value c) bs = 64 * x + y" using two(1) by (simp add: cp_value_def)
    have r: "2 \<le> x" "x < 32" "y < 64" using two by (auto simp: x_def y_def)
    have "0xC0 + x = byte c" "0x80 + y = byte b1" using two by (auto simp: x_def y_def)
    then have "char_of (0xC0 + x) = c" "char_of (0x80 + y) = b1" by simp_all
    moreover have "(64 * x + y) div 64 = x" "(64 * x + y) mod 64 = y" using r by simp_all
    ultimately show ?thesis using r two(1) unfolding v by (simp add: codepoint_bytes_def)
  next
    case (three b1 b2)
    define x where "x = byte c - (0xE0 :: nat)"
    define y where "y = byte b1 - (0x80 :: nat)"
    define z where "z = byte b2 - (0x80 :: nat)"
    have "lead_value c = x" "byte b1 mod 64 = y" "byte b2 mod 64 = z"
      using three lead_values(2) [of c] cont [of b1] cont [of b2] by (simp_all add: x_def y_def z_def)
    then have v: "cp_value (lead_value c) bs = 4096 * x + 64 * y + z" using three(1) by (simp add: cp_value_def)
    have r: "x < 16" "y < 64" "z < 64" "x = 0 \<Longrightarrow> 32 \<le> y" using three by (auto simp: x_def y_def z_def)
    have "x = 13 \<Longrightarrow> byte c = (0xED :: nat)" using three(2) by (simp add: x_def)
    then have r5: "x = 13 \<Longrightarrow> y < 32" using three(9) by (auto simp: y_def)
    have "0xE0 + x = byte c" "0x80 + y = byte b1" "0x80 + z = byte b2" using three by (auto simp: x_def y_def z_def)
    then have ch: "char_of (0xE0 + x) = c" "char_of (0x80 + y) = b1" "char_of (0x80 + z) = b2" by simp_all
    note d = pack64_digits [OF r(2,3)] pack64(2) [OF r(2)]
    have ge: "0x800 \<le> 4096 * x + 64 * y + z" using r by (cases "x = 0") auto
    have "4096 * x + 64 * y + z \<le> 0xFFFF" using r by linarith
    moreover have "\<not> (0xD800 \<le> 4096 * x + 64 * y + z \<and> 4096 * x + 64 * y + z \<le> 0xDFFF)"
    proof (cases x "13 :: nat" rule: linorder_cases)
      case less
      with r(2,3) have "4096 * x + 64 * y + z < 0xD800" by linarith
      then show ?thesis by simp
    next
      case equal
      with r5 r(3) have "4096 * x + 64 * y + z < 0xD800" by simp
      then show ?thesis by simp
    next
      case greater
      then have "0xDFFF < 4096 * x + 64 * y + z" by linarith
      then show ?thesis by simp
    qed
    ultimately show ?thesis using ge three(1) ch using r unfolding v by (simp add: codepoint_bytes_def d)
  next
    case (four b1 b2 b3)
    define x where "x = byte c - (0xF0 :: nat)"
    define y where "y = byte b1 - (0x80 :: nat)"
    define z where "z = byte b2 - (0x80 :: nat)"
    define u where "u = byte b3 - (0x80 :: nat)"
    have "lead_value c = x" "byte b1 mod 64 = y" "byte b2 mod 64 = z" "byte b3 mod 64 = u"
      using four lead_values(3) [of c] cont [of b1] cont [of b2] cont [of b3] by (simp_all add: x_def y_def z_def u_def)
    then have v: "cp_value (lead_value c) bs = 262144 * x + 4096 * y + 64 * z + u" using four(1) by (simp add: cp_value_def)
    have r: "x \<le> 4" "y < 64" "z < 64" "u < 64" "x = 0 \<Longrightarrow> 16 \<le> y" using four by (auto simp: x_def y_def z_def u_def)
    have "x = 4 \<Longrightarrow> byte c = (0xF4 :: nat)" using four(2) by (simp add: x_def)
    then have r6: "x = 4 \<Longrightarrow> y < 16" using four(11) by (auto simp: y_def)
    have "0xF0 + x = byte c" "0x80 + y = byte b1" "0x80 + z = byte b2" "0x80 + u = byte b3" using four by (auto simp: x_def y_def z_def u_def)
    then have ch: "char_of (0xF0 + x) = c" "char_of (0x80 + y) = b1" "char_of (0x80 + z) = b2" "char_of (0x80 + u) = b3" by simp_all
    let ?v = "262144 * x + 4096 * y + 64 * z + u"
    have e: "?v = 64 * (4096 * x + 64 * y + z) + u" by simp
    note d3 = pack64_digits [OF r(2,3), of x]
    have d6: "?v div 64 = 4096 * x + 64 * y + z" "?v mod 64 = u" unfolding e using r(4) by (simp_all only: pack64)
    have "?v div (64 * 64) = 64 * x + y" "?v div (64 * 4096) = x" unfolding div_mult2_eq d6 d3 by simp_all
    then have d: "?v div 262144 = x" "?v div 4096 = 64 * x + y" by simp_all
    note d = d d6 d3(3) pack64(2) [OF r(2)]
    have ge: "0x10000 \<le> ?v" using r by (cases "x = 0") auto
    have "?v \<le> 0x10FFFF" using r r6 by (cases "x = 4") auto
    with ge four(1) ch show ?thesis using r unfolding v by (simp add: codepoint_bytes_def d)
  qed
  then show "codepoint_bytes (cp_value (lead_value c) bs) = c # bs" "0x80 \<le> cp_value (lead_value c) bs"
    "cp_value (lead_value c) bs \<le> 0x10FFFF" "\<not> (0xD800 \<le> cp_value (lead_value c) bs \<and> cp_value (lead_value c) bs \<le> 0xDFFF)"
    by blast+
qed

text \<open>A code point beyond ASCII is written as one escape sequence or as a surrogate pair.\<close>

lemma escape_unicode_char:
  assumes "0x80 \<le> cp" "cp \<le> 0x10FFFF" "\<not> (0xD800 \<le> cp \<and> cp \<le> 0xDFFF)"
  shows "str_char (codepoint_bytes cp) (escape_codepoint True cp c)"
proof (cases "cp \<le> 0xFFFF")
  case True
  then have "cp < 2 ^ 16" by simp
  then obtain h where h: "u_escape cp = bsl # CHR ''u'' # h" "code_unit h = Some cp" by (rule code_unit_u_escape)
  have "escape_codepoint True cp c = u_escape cp" using assms(1) True by (simp add: escape_codepoint_def)
  with h str_char.unit [OF h(2)] assms(3) show ?thesis by auto
next
  case False
  define k where "k = cp - 0x10000"
  have k: "cp = 0x10000 + k" "k < 0x100000" using False assms(2) by (auto simp: k_def)
  define n where "n = 0xD800 + k div 1024"
  define m where "m = 0xDC00 + k mod 1024"
  have hl: "k div 1024 < 1024" "k mod 1024 < 1024" using k(2) by simp_all
  have "(64 * 1024 + k) div 1024 = 64 + k div 1024" "(64 * 1024 + k) mod 1024 = k mod 1024"
    by (simp, rule mod_mult_self3)
  then have dm: "cp div 1024 = 64 + k div 1024" "cp mod 1024 = k mod 1024" unfolding k(1) by simp_all
  have "drop_bit 10 cp = cp div 1024" by (simp add: drop_bit_eq_div)
  then have "(0xD7C0 + drop_bit 10 cp) mod 2 ^ 16 = n" using hl(1) by (simp add: n_def dm(1))
  moreover have "cp AND 0x3FF = cp mod 1024" using take_bit_eq_mask [of 10 cp] by (simp add: mask_eq_exp_minus_1 take_bit_eq_mod)
  then have "(0xDC00 + (cp AND 0x3FF)) mod 2 ^ 16 = m" using hl(2) by (simp add: m_def dm(2))
  ultimately have e: "escape_codepoint True cp c = u_escape n @ u_escape m" using False assms(1) by (simp add: escape_codepoint_def)
  have "n < 2 ^ 16" "m < 2 ^ 16" using hl by (simp_all add: n_def m_def)
  then obtain h l where h: "u_escape n = bsl # CHR ''u'' # h" "code_unit h = Some n"
    and l: "u_escape m = bsl # CHR ''u'' # l" "code_unit l = Some m" by (metis code_unit_u_escape)
  have "0x10000 + (n - 0xD800) * 0x400 + (m - 0xDC00) = cp" using k(1) by (simp add: n_def m_def)
  moreover have "0xD800 \<le> n" "n < 0xDC00" "0xDC00 \<le> m" "m < 0xE000" using hl by (simp_all add: n_def m_def)
  ultimately show ?thesis using str_char.pair [OF h(2) _ _ l(2)] e h(1) l(1) by simp
qed

text \<open>The decoder in the middle of a sequence: it writes nothing before the last byte.\<close>

lemma multi_loop:
  "bs \<noteq> [] \<Longrightarrow> dump_ok d \<Longrightarrow> utf8_state d \<noteq> 0 \<Longrightarrow> in_ranges (pending (utf8_state d)) bs \<Longrightarrow>
   \<exists>d'. dump_escaped_loop eh_strict True i (bs @ t) d = dump_escaped_loop eh_strict True (i + length bs) t d' \<and>
     dump_ok d' \<and> utf8_state d' = 0 \<and>
     content d' = content d @ escape_codepoint True (cp_value (codepoint d) bs) (last bs)"
proof (induction bs arbitrary: d i)
  case (Cons b bs)
  let ?d = "decode_next b d"
  have st: "utf8_state d \<in> set dfa_states" "cp_ok (utf8_state d) (codepoint d)" using Cons.prems(2) by (simp_all add: dump_ok_def)
  obtain lo hi rs where p: "pending (utf8_state d) = (lo, hi) # rs" "lo \<le> byte b" "byte b \<le> hi" "in_ranges rs bs"
    using Cons.prems(4) by (cases "pending (utf8_state d)") (auto simp: in_ranges_def)
  with dfa_step [OF st(1) byte_less_256 [of b]] have
    ns: "utf8_state ?d \<in> set dfa_states" "pending (utf8_state ?d) = rs" by (simp_all add: decode_next_state)
  then have ne: "utf8_state ?d \<noteq> 1" by (auto simp: dfa_states_def)
  note ok = decode_next_ok(1) [OF Cons.prems(2) ne]
  have cp: "codepoint ?d = byte b mod 64 + 64 * codepoint d"
    using Cons.prems(3) append_bits [OF cp_bound [OF st(1) Cons.prems(3) st(2)]] by (simp add: decode_next_state)
  show ?case
  proof (cases "bs = []")
    case True
    with p(4) have "rs = []" by (simp add: in_ranges_def)
    with ns pending_empty have z: "utf8_state ?d = 0" by simp
    let ?d' = "on_accept True b ?d"
    have "dump_escaped_loop eh_strict True i ((b # bs) @ t) d = dump_escaped_loop eh_strict True (i + length (b # bs)) t ?d'"
      using z True by (simp add: UTF8_ACCEPT_def)
    moreover have "dump_ok ?d'" using ok by (simp add: dump_ok_def)
    ultimately show ?thesis using z cp True by (intro exI [of _ ?d']) (simp add: cp_value_def)
  next
    case False
    with p(4) have "rs \<noteq> []" by (auto simp: in_ranges_def)
    with ns pending_empty have z: "utf8_state ?d \<noteq> 0" by auto
    let ?d1 = "on_incomplete True b ?d"
    have loop: "dump_escaped_loop eh_strict True i ((b # bs) @ t) d = dump_escaped_loop eh_strict True (Suc i) (bs @ t) ?d1"
      using z ne by (simp add: UTF8_ACCEPT_def UTF8_REJECT_def)
    have d1: "dump_ok ?d1" "utf8_state ?d1 \<noteq> 0" "in_ranges (pending (utf8_state ?d1)) bs"
      "codepoint ?d1 = byte b mod 64 + 64 * codepoint d" "content ?d1 = content d"
      using ok z ns(2) p(4) cp by (simp_all add: dump_ok_def on_incomplete_def)
    from Cons.IH [OF False d1(1-3), of "Suc i"] loop d1(4,5) False show ?thesis
      by (auto simp: cp_value_def)
  qed
qed simp

lemma escape_ascii_loop:
  "utf8_ok s \<Longrightarrow> dump_ok d \<Longrightarrow> utf8_state d = 0 \<Longrightarrow>
   \<exists>d' t. dump_escaped_loop eh_strict True i s d = Inr d' \<and> utf8_state d' = 0 \<and> content d' = content d @ t \<and> str_text s t"
proof (induction s arbitrary: d i rule: length_induct)
  case (1 s)
  from "1.prems"(1) show ?case
  proof (cases rule: utf8_ok_cases)
    case empty
    with "1.prems"(3) str_text.empty show ?thesis by auto
  next
    case (ascii c t)
    let ?d = "decode_next c d"
    have b: "byte c < (256 :: nat)" by (rule byte_less_256)
    have bt: "byte_type (byte c) = 0" using ascii(2) by (simp add: byte_type_def)
    have z: "utf8_state ?d = 0" "codepoint ?d = byte c"
      using "1.prems"(3) bt b by (simp_all add: decode_next_state next_state_simps nat_and_masks)
    let ?d' = "on_accept True c ?d"
    have ok: "dump_ok ?d'" "utf8_state ?d' = 0" using z(1) by (simp_all add: dump_ok_def dfa_states_def cp_ok_def)
    have loop: "dump_escaped_loop eh_strict True i s d = dump_escaped_loop eh_strict True (Suc i) t ?d'"
      using z(1) ascii(1) by (simp add: UTF8_ACCEPT_def)
    have "length t < length s" using ascii(1) by simp
    with "1.IH" ascii(3) ok obtain d2 u where
      d2: "dump_escaped_loop eh_strict True (Suc i) t ?d' = Inr d2" "utf8_state d2 = 0" "content d2 = content ?d' @ u" "str_text t u"
      by blast
    have "str_text ([c] @ t) (escape_codepoint True (byte c) c @ u)"
      by (rule str_text.char [OF escape_ascii_char [OF ascii(2)] d2(4)])
    with d2 loop z(2) ascii(1) show ?thesis by auto
  next
    case (multibyte c rs bs t)
    let ?d = "decode_next c d"
    have ex: "expect (pending (utf8_state d)) (byte c) = Some rs" using multibyte(2,3) "1.prems"(3) by (simp add: pending_def)
    have "utf8_state d \<in> set dfa_states" using "1.prems"(2) by (simp add: dump_ok_def)
    from dfa_step [OF this byte_less_256 [of c]] ex have
      ns: "utf8_state ?d \<in> set dfa_states" "pending (utf8_state ?d) = rs" by (simp_all add: decode_next_state)
    then have ne: "utf8_state ?d \<noteq> 1" by (auto simp: dfa_states_def)
    have rs: "rs \<noteq> []" using multibyte(3) by (auto simp: utf8_ranges_def split: if_splits)
    with ns pending_empty have z: "utf8_state ?d \<noteq> 0" by auto
    have bs: "bs \<noteq> []" using rs multibyte(4) by (auto simp: in_ranges_def)
    let ?d1 = "on_incomplete True c ?d"
    have loop: "dump_escaped_loop eh_strict True i s d = dump_escaped_loop eh_strict True (Suc i) (bs @ t) ?d1"
      using z ne multibyte(1) by (simp add: UTF8_ACCEPT_def UTF8_REJECT_def)
    have d1: "dump_ok ?d1" "utf8_state ?d1 \<noteq> 0" "in_ranges (pending (utf8_state ?d1)) bs"
      "codepoint ?d1 = lead_value c" "content ?d1 = content d"
      using decode_next_ok(1) [OF "1.prems"(2) ne] z ns(2) multibyte(4) "1.prems"(3)
      by (simp_all add: dump_ok_def on_incomplete_def decode_next_state(2) lead_value_def)
    from multi_loop [OF bs d1(1-3), of "Suc i" t] obtain d2 where
      d2: "dump_escaped_loop eh_strict True (Suc i) (bs @ t) ?d1 = dump_escaped_loop eh_strict True (Suc i + length bs) t d2"
        "dump_ok d2" "utf8_state d2 = 0"
        "content d2 = content d @ escape_codepoint True (cp_value (lead_value c) bs) (last bs)"
      using d1(4,5) by auto
    have "length t < length s" using multibyte(1) by simp
    with "1.IH" multibyte(5) d2(2,3) obtain d3 u where
      d3: "dump_escaped_loop eh_strict True (Suc i + length bs) t d2 = Inr d3" "utf8_state d3 = 0" "content d3 = content d2 @ u" "str_text t u"
      by blast
    note mv = multibyte_value [OF multibyte(3,4)]
    have "str_text ((c # bs) @ t) (escape_codepoint True (cp_value (lead_value c) bs) (last bs) @ u)"
      using escape_unicode_char [OF mv(2-4), of "last bs"] d3(4) unfolding mv(1) by (rule str_text.char)
    with d2(1,4) d3 loop multibyte(1) show ?thesis by auto
  qed
qed

text \<open>With either setting, a well-formed string is written as a text of the grammar.\<close>

lemma dump_escaped_text:
  assumes "utf8_ok s"
  obtains t where "dump_escaped eh_strict ea s = Inr t" "str_text s t"
proof (cases ea)
  case True
  have ok: "dump_ok new_dump_state" "utf8_state new_dump_state = 0" "content new_dump_state = []"
    by (simp_all add: dump_ok_def new_dump_state_def dfa_states_def cp_ok_def UTF8_ACCEPT_def)
  from escape_ascii_loop [OF assms ok(1,2), of 0] ok(3) obtain d t where
    d: "dump_escaped_loop eh_strict True 0 s new_dump_state = Inr d" "utf8_state d = 0" "content d = t" "str_text s t" by auto
  then have "dump_escaped eh_strict True s = Inr t" by (simp add: dump_escaped_def UTF8_ACCEPT_def)
  with that d(4) True show ?thesis by simp
next
  case False
  with dump_escaped_cases [of s] assms str_text_escape [OF assms] that show ?thesis by simp
qed

section \<open>Elements and members from the front\<close>

lemma ws_append [simp]: "ws (v @ w) \<longleftrightarrow> ws v \<and> ws w"
  by (simp add: ws_def)

lemma grammar_ws:
  "gvalue v t \<Longrightarrow> True"
  "gelements vs t \<Longrightarrow> ws w \<Longrightarrow> gelements vs (w @ t)"
  "gmembers kvs t \<Longrightarrow> ws w \<Longrightarrow> gmembers kvs (w @ t)"
proof (induction rule: gvalue_gelements_gmembers.inducts)
  case (g_element w0 v t)
  then show ?case using gvalue_gelements_gmembers.g_element [of "w @ w0" v t] by simp
next
  case (g_elements vs t w' w0 v u)
  then show ?case using gvalue_gelements_gmembers.g_elements [of vs "w @ t" w' w0 v u] by simp
next
  case (g_member w1 k kt w2 w3 v t)
  then show ?case using gvalue_gelements_gmembers.g_member [of "w @ w1" k kt w2 w3 v t] by simp
next
  case (g_members kvs t w' w1 k kt w2 w3 v u)
  then show ?case using gvalue_gelements_gmembers.g_members [of kvs "w @ t" w' w1 k kt w2 w3 v u] by simp
qed simp_all

lemma grammar_Cons:
  "gvalue v t \<Longrightarrow> True"
  "gelements vs t \<Longrightarrow> gelements [v0] t0 \<Longrightarrow> gelements (v0 # vs) (t0 @ '','' @ t)"
  "gmembers kvs t \<Longrightarrow> gmembers [kv] t1 \<Longrightarrow> gmembers (kv # kvs) (t1 @ '','' @ t)"
proof (induction rule: gvalue_gelements_gmembers.inducts)
  case (g_element w v t)
  then show ?case using gvalue_gelements_gmembers.g_elements [of "[v0]" t0 "[]" w v t] by simp
next
  case (g_elements vs t w' w v u)
  then show ?case using gvalue_gelements_gmembers.g_elements [of "v0 # vs" "t0 @ '','' @ t" w' w v u] by simp
next
  case (g_member w1 k kt w2 w3 v t)
  then show ?case using gvalue_gelements_gmembers.g_members [of "[kv]" t1 "[]" w1 k kt w2 w3 v t] by simp
next
  case (g_members kvs t w' w1 k kt w2 w3 v u)
  then show ?case using gvalue_gelements_gmembers.g_members [of "kv # kvs" "t1 @ '','' @ t" w' w1 k kt w2 w3 v u] by simp
qed simp_all

section \<open>Indentation\<close>

text \<open>\<open>indent_string\<close> holds the current level, and one more step does not more than double it.\<close>

definition room :: "dump_format \<Rightarrow> nat \<Rightarrow> string \<Rightarrow> bool" where
  "room f n ind \<longleftrightarrow> (fmt_pretty f \<longrightarrow> ws ind \<and> 512 \<le> length ind \<and> n \<le> length ind \<and> (n = 0 \<or> fmt_step f \<le> length ind))"

lemma room_mono: "room f n ind \<Longrightarrow> room f k ind' \<Longrightarrow> length ind \<le> length ind' \<Longrightarrow> room f n ind'"
  by (auto simp: room_def)

lemma room_level:
  assumes "room f n ind" "fmt_step f \<le> 1024"
  shows "room f (new_indent f n) (level_indent f n ind)" "length ind \<le> length (level_indent f n ind)"
proof -
  have blanks: "ws (replicate k CHR '' '')" for k by (simp add: ws_def is_ws_def list_all_iff)
  have "new_indent f n \<le> n + fmt_step f" by (simp add: new_indent_def)
  moreover have "n = 0 \<Longrightarrow> fmt_pretty f \<Longrightarrow> new_indent f n = fmt_step f" using assms(2) by (simp add: new_indent_def)
  ultimately show "room f (new_indent f n) (level_indent f n ind)"
    using assms blanks by (auto simp: room_def level_indent_def grow_indent_def)
  show "length ind \<le> length (level_indent f n ind)" by (simp add: level_indent_def grow_indent_def)
qed

lemma ws_take: "ws ind \<Longrightarrow> ws (take n ind)"
  by (auto simp: ws_def list_all_iff dest: in_set_takeD)

lemma line_start_room: "room f n ind \<Longrightarrow> \<exists>w. line_start f n ind = Inr w \<and> ws w"
  using ws_take by (auto simp: line_start_def write_indent_def room_def)

lemma bracket_close_room:
  assumes "room f n ind"
  shows "\<exists>w. bracket_close f n ind c = Inr (w @ [c]) \<and> ws w"
proof (cases "fmt_pretty f")
  case True
  with assms have "write_indent n ind = Inr (take n ind)" "ws (take n ind)"
    using ws_take [of ind n] by (simp_all add: write_indent_def room_def)
  moreover from this(2) have "ws (nl # take n ind)" by (simp add: ws_def is_ws_def)
  moreover note True
  ultimately show ?thesis by (intro exI [of _ "nl # take n ind"]) (simp add: bracket_close_def)
next
  case False
  then show ?thesis by (intro exI [of _ "[]"]) (simp add: bracket_close_def)
qed

lemma quoted_text:
  assumes "utf8_ok s" "fmt_handler f = eh_strict"
  obtains t where "quoted f s = Inr (dq # t @ [dq])" "str_text s t"
proof -
  obtain t where "dump_escaped eh_strict (fmt_ascii f) s = Inr t" "str_text s t" using dump_escaped_text [OF assms(1)] .
  with that [of t] assms(2) show ?thesis by (simp add: quoted_def)
qed

section \<open>Values\<close>

lemma dump_grammar:
  assumes f: "fmt_handler f = eh_strict" "fmt_step f \<le> 1024"
  shows "json_wf j \<Longrightarrow> room f n ind \<Longrightarrow>
      \<exists>t ind'. dump_value f n j ind = Inr (t, ind') \<and> gvalue (norm_json j) t \<and> room f n ind' \<and> length ind \<le> length ind'"
    and "m \<noteq> [] \<Longrightarrow> list_all (\<lambda>(k, v). utf8_ok k \<and> json_wf v) m \<Longrightarrow> room f n ind \<Longrightarrow>
      \<exists>t ind'. dump_members f n m ind = Inr (t, ind') \<and> gmembers (norm_members m) t \<and> room f n ind' \<and> length ind \<le> length ind'"
    and "vs \<noteq> [] \<Longrightarrow> list_all json_wf vs \<Longrightarrow> room f n ind \<Longrightarrow>
      \<exists>t ind'. dump_elements f n vs ind = Inr (t, ind') \<and> gelements (map norm_json vs) t \<and> room f n ind' \<and> length ind \<le> length ind'"
  using f
proof (induction f n j ind and f n m ind and f n vs ind rule: dump_value_dump_members_dump_elements.induct)
  case (1 f n m ind)
  show ?case
  proof (cases "m = []")
    case True
    with 1 gvalue_gelements_gmembers.g_object0 [of "[]"] show ?thesis by simp
  next
    case False
    note lv = room_level [OF "1.prems"(2,4)]
    have wf: "list_all (\<lambda>(k, v). utf8_ok k \<and> json_wf v) m" "map_sorted m" using "1.prems"(1) by simp_all
    from "1.IH" [OF False False wf(1) lv(1) "1.prems"(3,4)] obtain t ind' where
      t: "dump_members f (new_indent f n) m (level_indent f n ind) = Inr (t, ind')" "gmembers (norm_members m) t"
        "room f (new_indent f n) ind'" "length (level_indent f n ind) \<le> length ind'" by blast
    have len: "length ind \<le> length ind'" using lv(2) t(4) by simp
    have rm: "room f n ind'" by (rule room_mono [OF "1.prems"(2) t(3) len])
    from bracket_close_room [OF this] obtain w where w: "bracket_close f n ind' CHR ''}'' = Inr (w @ ''}'')" "ws w" by blast
    let ?nl = "if fmt_pretty f then [nl] else []"
    have "ws ?nl" by (simp add: ws_def is_ws_def)
    from gvalue_gelements_gmembers.g_object [OF grammar_ws(3) [OF t(2) this] w(2)]
    have "gvalue (norm_json (JObject m)) (bracket_open f CHR ''{'' @ t @ w @ ''}'')"
      using put_members_sorted [OF norm_members_sorted [OF wf(2)]] by (simp add: bracket_open_def split: if_splits)
    with t(1) w(1) False rm len show ?thesis by simp
  qed
next
  case (2 f n vs ind)
  show ?case
  proof (cases "vs = []")
    case True
    with 2 gvalue_gelements_gmembers.g_array0 [of "[]"] show ?thesis by simp
  next
    case False
    note lv = room_level [OF "2.prems"(2,4)]
    have wf: "list_all json_wf vs" using "2.prems"(1) by simp
    from "2.IH" [OF False False wf lv(1) "2.prems"(3,4)] obtain t ind' where
      t: "dump_elements f (new_indent f n) vs (level_indent f n ind) = Inr (t, ind')" "gelements (map norm_json vs) t"
        "room f (new_indent f n) ind'" "length (level_indent f n ind) \<le> length ind'" by blast
    have len: "length ind \<le> length ind'" using lv(2) t(4) by simp
    have rm: "room f n ind'" by (rule room_mono [OF "2.prems"(2) t(3) len])
    from bracket_close_room [OF this] obtain w where w: "bracket_close f n ind' CHR '']'' = Inr (w @ '']'')" "ws w" by blast
    let ?nl = "if fmt_pretty f then [nl] else []"
    have "ws ?nl" by (simp add: ws_def is_ws_def)
    from gvalue_gelements_gmembers.g_array [OF grammar_ws(2) [OF t(2) this] w(2)]
    have "gvalue (norm_json (JArray vs)) (bracket_open f CHR ''['' @ t @ w @ '']'')"
      by (simp add: bracket_open_def split: if_splits)
    with t(1) w(1) False rm len show ?thesis by simp
  qed
next
  case (3 f n s ind)
  then have "utf8_ok s" by simp
  then obtain t where "quoted f s = Inr (dq # t @ [dq])" "str_text s t" using quoted_text "3.prems"(3) by blast
  with 3 gvalue_gelements_gmembers.g_string show ?case by simp
next
  case (4 f n b ind)
  then show ?case by (cases b) (simp_all add: gvalue_gelements_gmembers.intros(2,3))
next
  case (5 f n i ind)
  then show ?case using gvalue_integer [of i] by (simp add: dump_integer_eq)
next
  case (6 f n k ind)
  then show ?case using gvalue_unsigned [of k] by (simp add: dump_integer_eq show_int_def)
next
  case (7 f n x ind)
  then obtain r where x: "x = Fin r" "round64 r = Fin r" by (auto split: double.splits)
  obtain t where "to_chars (r < 0) r = Some t" "gvalue (JFloat (Fin r)) t" using gvalue_float [OF x(2)] .
  with x(1) 7 show ?case by (simp add: dump_float_def)
next
  case (8 f n ind)
  then show ?case by (simp add: gvalue_gelements_gmembers.intros(1))
next
  case (10 f n k v m ind)
  obtain w where w: "line_start f n ind = Inr w" "ws w" using line_start_room [OF "10.prems"(3)] by blast
  have k: "utf8_ok k" "json_wf v" using "10.prems"(2) by simp_all
  obtain kt where kt: "quoted f k = Inr (dq # kt @ [dq])" "str_text k kt" using quoted_text [OF k(1) "10.prems"(4)] .
  from "10.IH"(1) [OF w(1) kt(1) k(2) "10.prems"(3-5)] obtain t ind1 where
    t: "dump_value f n v ind = Inr (t, ind1)" "gvalue (norm_json v) t" "room f n ind1" "length ind \<le> length ind1" by blast
  define sp where "sp = (if fmt_pretty f then '' '' else [])"
  have "ws sp" by (simp add: sp_def ws_def is_ws_def)
  with gvalue_gelements_gmembers.g_member [OF w(2) kt(2) ws_Nil _ t(2), of sp]
  have one: "gmembers [(k, norm_json v)] (w @ dq # kt @ dq # CHR '':'' # sp @ t)" by simp
  have mem: "w @ (dq # kt @ [dq]) @ (if fmt_pretty f then '': '' else '':'') @ t = w @ dq # kt @ dq # CHR '':'' # sp @ t"
    by (simp add: sp_def)
  show ?case
  proof (cases "m = []")
    case True
    with w(1) kt(1) t one mem show ?thesis by (simp add: Let_def)
  next
    case False
    have wf: "list_all (\<lambda>(k, v). utf8_ok k \<and> json_wf v) m" using "10.prems"(2) by simp
    from "10.IH"(2) [OF w(1) kt(1) t(1) refl refl False False wf t(3) "10.prems"(4,5)] obtain ts ind2 where
      ts: "dump_members f n m ind1 = Inr (ts, ind2)" "gmembers (norm_members m) ts" "room f n ind2" "length ind1 \<le> length ind2" by blast
    let ?nl = "if fmt_pretty f then [nl] else []"
    have "ws ?nl" by (simp add: ws_def is_ws_def)
    from grammar_Cons(3) [OF grammar_ws(3) [OF ts(2) this] one]
    have "gmembers (norm_members ((k, v) # m)) ((w @ (dq # kt @ [dq]) @ (if fmt_pretty f then '': '' else '':'') @ t) @ separator f @ ts)"
      unfolding mem by (simp add: separator_def split: if_splits)
    with w(1) kt(1) t(1,4) ts(1,3,4) False show ?thesis by (simp add: Let_def)
  qed
next
  case (12 f n v vs ind)
  obtain w where w: "line_start f n ind = Inr w" "ws w" using line_start_room [OF "12.prems"(3)] by blast
  have v: "json_wf v" using "12.prems"(2) by simp
  from "12.IH"(1) [OF w(1) v "12.prems"(3-5)] obtain t ind1 where
    t: "dump_value f n v ind = Inr (t, ind1)" "gvalue (norm_json v) t" "room f n ind1" "length ind \<le> length ind1" by blast
  note one = gvalue_gelements_gmembers.g_element [OF w(2) t(2)]
  show ?case
  proof (cases "vs = []")
    case True
    with w(1) t one show ?thesis by simp
  next
    case False
    have wf: "list_all json_wf vs" using "12.prems"(2) by simp
    from "12.IH"(2) [OF w(1) t(1) refl False False wf t(3) "12.prems"(4,5)] obtain ts ind2 where
      ts: "dump_elements f n vs ind1 = Inr (ts, ind2)" "gelements (map norm_json vs) ts" "room f n ind2" "length ind1 \<le> length ind2" by blast
    let ?nl = "if fmt_pretty f then [nl] else []"
    have "ws ?nl" by (simp add: ws_def is_ws_def)
    from grammar_Cons(2) [OF grammar_ws(2) [OF ts(2) this] one]
    have "gelements (map norm_json (v # vs)) (w @ t @ separator f @ ts)" by (simp add: separator_def split: if_splits)
    with w(1) t(1,4) ts(1,3,4) False show ?thesis by simp
  qed
qed simp_all

lemma dump_with_parses:
  assumes "json_wf j" "indent \<le> 1024" "is_ws indent_char"
  shows "\<exists>text. dump_with indent indent_char ascii eh_strict j = Inr text \<and> json_parse text = Inr (norm_json j)"
proof -
  let ?f = "\<lparr>fmt_pretty = 0 \<le> indent, fmt_ascii = ascii, fmt_step = nat indent, fmt_handler = eh_strict\<rparr>"
  have room: "room ?f 0 (replicate 512 indent_char)" using assms(3) by (simp add: room_def ws_def list_all_iff)
  have step: "fmt_handler ?f = eh_strict" "fmt_step ?f \<le> 1024" using assms(2) by simp_all
  from dump_grammar(1) [OF step assms(1) room]
  have "\<exists>t ind. dump_value ?f 0 j (replicate 512 indent_char) = Inr (t, ind) \<and> gvalue (norm_json j) t" by blast
  then obtain t ind where "dump_value ?f 0 j (replicate 512 indent_char) = Inr (t, ind)" "gvalue (norm_json j) t" by blast
  with document_parses [OF document_value] show ?thesis by (simp add: dump_with_def)
qed

end
