(* ===== verification/Json_Buffer.thy ===== *)
theory Json_Buffer
  imports Json_Text
begin

text \<open>
  Memory safety of \<open>serializer::dump_escaped\<close>: the loop writes into a member array of 512 bytes and
  indexes a table of 400 entries without checks in a release build. The states of the loop are a
  reachability predicate, the bounds an invariant by rule induction.
\<close>

section \<open>The states of the loop\<close>

inductive dump_reach :: "error_handler_t \<Rightarrow> bool \<Rightarrow> string \<Rightarrow> string \<Rightarrow> dump_state \<Rightarrow> bool"
  for eh ensure_ascii s where
  start: "dump_reach eh ensure_ascii s s new_dump_state"
| accept: "dump_reach eh ensure_ascii s (c # cs) d \<Longrightarrow> utf8_state (decode_next c d) = UTF8_ACCEPT \<Longrightarrow>
    dump_reach eh ensure_ascii s cs (on_accept ensure_ascii c (decode_next c d))"
| again: "dump_reach eh ensure_ascii s (c # cs) d \<Longrightarrow> utf8_state (decode_next c d) = UTF8_REJECT \<Longrightarrow>
    eh \<noteq> eh_strict \<Longrightarrow> 0 < undumped_chars d \<Longrightarrow>
    dump_reach eh ensure_ascii s (c # cs) (on_reject (eh = eh_replace) ensure_ascii (decode_next c d))"
| skip: "dump_reach eh ensure_ascii s (c # cs) d \<Longrightarrow> utf8_state (decode_next c d) = UTF8_REJECT \<Longrightarrow>
    eh \<noteq> eh_strict \<Longrightarrow> undumped_chars d = 0 \<Longrightarrow>
    dump_reach eh ensure_ascii s cs (on_reject (eh = eh_replace) ensure_ascii (decode_next c d))"
| incomplete: "dump_reach eh ensure_ascii s (c # cs) d \<Longrightarrow>
    utf8_state (decode_next c d) \<noteq> UTF8_ACCEPT \<Longrightarrow> utf8_state (decode_next c d) \<noteq> UTF8_REJECT \<Longrightarrow>
    dump_reach eh ensure_ascii s cs (on_incomplete ensure_ascii c (decode_next c d))"

lemma utf8_codes [simp]: "UTF8_REJECT \<noteq> UTF8_ACCEPT" "UTF8_ACCEPT \<noteq> UTF8_REJECT"
  by (simp_all add: UTF8_ACCEPT_def UTF8_REJECT_def)

text \<open>They are the states the recursive function goes through.\<close>

lemma dump_reach_loop:
  "dump_escaped_loop eh ea i cs d = Inr d' \<Longrightarrow> dump_reach eh ea s cs d \<Longrightarrow> dump_reach eh ea s [] d'"
proof (induction eh ea i cs d rule: dump_escaped_loop.induct)
  case (2 eh ea i c cs d)
  let ?n = "utf8_state (decode_next c d)"
  consider "?n = UTF8_ACCEPT" | "?n \<noteq> UTF8_ACCEPT" "?n = UTF8_REJECT" "0 < undumped_chars d"
    | "?n \<noteq> UTF8_ACCEPT" "?n = UTF8_REJECT" "undumped_chars d = 0" | "?n \<noteq> UTF8_ACCEPT" "?n \<noteq> UTF8_REJECT"
    by force
  then show ?case
  proof cases
    case 1
    with "2.IH"(1) "2.prems" dump_reach.accept show ?thesis by simp
  next
    case 2
    with "2.prems" have eh: "eh \<noteq> eh_strict" by auto
    show ?thesis
      by (rule "2.IH"(2) [OF 2(1,2) eh 2(3)]) (use "2.prems" 2 eh dump_reach.again in simp_all)
  next
    case 3
    with "2.prems" have eh: "eh \<noteq> eh_strict" by auto
    show ?thesis
      by (rule "2.IH"(3) [OF 3(1,2) eh]) (use "2.prems" 3 eh dump_reach.skip in simp_all)
  next
    case 4
    with "2.IH"(4) "2.prems" dump_reach.incomplete show ?thesis by simp
  qed
qed simp

section \<open>The invariant\<close>

text \<open>
  After a code point at most 499 bytes are in use; the bytes of an unfinished sequence come on top
  of them, at most three, and none with \<open>ensure_ascii\<close>.
\<close>

definition dump_room :: "bool \<Rightarrow> dump_state \<Rightarrow> bool" where
  "dump_room ea d \<longleftrightarrow> utf8_state d \<in> set dfa_states \<and> bytes_after_last_accept d \<le> 499 \<and>
     length (string_buffer d) \<le> bytes_after_last_accept d + (if ea then 0 else undumped_chars d) \<and>
     (if utf8_state d = 0 then undumped_chars d = 0
      else undumped_chars d + length (pending (utf8_state d)) \<le> 4)"

lemma utf8_ranges_length: "utf8_ranges b = Some rs \<Longrightarrow> length rs \<le> 3"
  by (auto simp: utf8_ranges_def split: if_splits)

lemma decode_pending:
  assumes "utf8_state d \<in> set dfa_states" "utf8_state (decode_next c d) \<noteq> UTF8_REJECT"
  shows "utf8_state (decode_next c d) \<in> set dfa_states"
    "utf8_state d = 0 \<Longrightarrow> length (pending (utf8_state (decode_next c d))) \<le> 3"
    "utf8_state d \<noteq> 0 \<Longrightarrow> length (pending (utf8_state d)) = Suc (length (pending (utf8_state (decode_next c d))))"
proof -
  obtain rs where rs: "expect (pending (utf8_state d)) (byte c) = Some rs"
      "utf8_state (decode_next c d) \<in> set dfa_states" "pending (utf8_state (decode_next c d)) = rs"
    using dfa_step [OF assms(1) byte_less_256 [of c]] assms(2)
    by (auto simp: decode_next_state UTF8_REJECT_def split: option.splits)
  then show "utf8_state (decode_next c d) \<in> set dfa_states" by simp
  show "length (pending (utf8_state (decode_next c d))) \<le> 3" if "utf8_state d = 0"
    using rs that utf8_ranges_length by (auto simp: pending_def split: if_splits)
  show "length (pending (utf8_state d)) = Suc (length (pending (utf8_state (decode_next c d))))" if "utf8_state d \<noteq> 0"
    using rs that pending_empty [OF assms(1)] by (cases "pending (utf8_state d)") (auto split: if_splits)
qed

lemma flush_buffer_length: "length (string_buffer (flush_buffer d)) \<le> 499"
  by (auto simp: flush_buffer_def)

lemma dump_fields [simp]:
  "bytes_after_last_accept (on_accept ea c d) = length (string_buffer (on_accept ea c d))"
  "undumped_chars (on_accept ea c d) = 0"
  "undumped_chars (on_incomplete ea c d) = Suc (undumped_chars d)"
  "bytes_after_last_accept (on_incomplete ea c d) = bytes_after_last_accept d"
  "utf8_state (on_reject r ea d) = UTF8_ACCEPT"
  by (simp_all add: on_accept_def on_incomplete_def on_reject_def Let_def)

lemma on_accept_room: "dump_room ea (on_accept ea c d)" if "utf8_state d = UTF8_ACCEPT"
  using that flush_buffer_length
  by (simp add: dump_room_def dfa_states_def UTF8_ACCEPT_def) (simp add: on_accept_def Let_def)

lemma on_reject_room: "bytes_after_last_accept d \<le> 499 \<Longrightarrow> dump_room ea (on_reject r ea d)"
  using flush_buffer_length
  by (simp add: dump_room_def dfa_states_def UTF8_ACCEPT_def) (simp add: on_reject_def Let_def)

lemma dump_room_reach: "dump_reach eh ea s cs d \<Longrightarrow> dump_room ea d"
proof (induction rule: dump_reach.induct)
  case start
  then show ?case by (simp add: dump_room_def new_dump_state_def dfa_states_def UTF8_ACCEPT_def)
next
  case (accept c cs d)
  then show ?case by (intro on_accept_room)
next
  case (again c cs d)
  then show ?case by (intro on_reject_room) (simp add: dump_room_def)
next
  case (skip c cs d)
  then show ?case by (intro on_reject_room) (simp add: dump_room_def)
next
  case (incomplete c cs d)
  then have st: "utf8_state d \<in> set dfa_states" by (simp add: dump_room_def)
  note p = decode_pending [OF st incomplete.hyps(3)]
  have "length (string_buffer (on_incomplete ea c (decode_next c d)))
      \<le> length (string_buffer d) + (if ea then 0 else 1)"
    by (simp add: on_incomplete_def Let_def)
  then show ?case
    using incomplete.IH incomplete.hyps(2) p
    by (cases "utf8_state d = 0"; cases ea) (simp_all add: dump_room_def UTF8_ACCEPT_def)
qed

section \<open>Bounds\<close>

lemma length_escape_codepoint:
  "length (escape_codepoint ea cp c) \<le> (if ea then 12 else 6)"
  by (simp add: escape_codepoint_def u_escape_def)

text \<open>
  The bytes of \<open>string_buffer\<close> that an iteration on byte \<open>c\<close> touches: the escape sequence of an
  accepted code point with the terminating zero that \<open>snprintf\<close> adds, the replacement character
  after a rejected byte, one byte of an unfinished sequence.
\<close>

definition buffer_use :: "bool \<Rightarrow> char \<Rightarrow> dump_state \<Rightarrow> nat" where
  "buffer_use ensure_ascii c d =
     (if utf8_state (decode_next c d) = UTF8_ACCEPT
      then length (string_buffer d) + length (escape_codepoint ensure_ascii (codepoint (decode_next c d)) c) + 1
      else if utf8_state (decode_next c d) = UTF8_REJECT
      then bytes_after_last_accept d + length (replacement ensure_ascii)
      else length (string_buffer d) + 1)"

lemma byte_type_bound: "byte_type b \<le> 11"
  by (simp add: byte_type_def)

lemma buffer_use_bound:
  assumes "dump_room ea d"
  shows "buffer_use ea c d \<le> 512"
proof -
  have st: "utf8_state d \<in> set dfa_states" using assms by (simp add: dump_room_def)
  have und: "undumped_chars d \<le> 3" if "utf8_state (decode_next c d) \<noteq> UTF8_REJECT"
    using assms decode_pending(3) [OF st that] by (cases "utf8_state d = 0") (auto simp: dump_room_def)
  have "length (replacement ea) \<le> 6" by (simp add: replacement_def)
  then show ?thesis
    using assms und length_escape_codepoint [of ea "codepoint (decode_next c d)" c]
    by (cases ea) (auto simp: buffer_use_def dump_room_def)
qed

end
