(* ===== verification/Json_Props.thy ===== *)
theory Json_Props
  imports Json_Dump Json_Buffer
begin

text \<open>
  What the JSON library guarantees to the server: the parser accepts exactly the texts of the JSON
  grammar; values that parse are well formed, they can be dumped in every format, and dumping and
  parsing are inverse to each other; the escaping loop stays within its buffer; floating-point numbers
  are printed in bounded space and read back exactly.
\<close>

section \<open>The grammar\<close>

text \<open>
  C17. \<open>json::parse\<close> implements the JSON grammar: it returns a value exactly for the documents of the
  grammar (RFC 8259 with an optional byte order mark, ended by the end of the input or a zero byte),
  and the value is the one that the grammar gives to the text; every other input is an exception.
\<close>

theorem json_parse_grammar: "json_parse text = Inr v \<longleftrightarrow> document v text"
  using parse_document document_parses by blast

section \<open>Round trip\<close>

definition sample_json :: json where
  "sample_json = JObject [(''a'', JArray [JInt (- 5), JUint 7, JNull, JFloat (Fin (- 1 / 8))]), (''b'', JString [dq, CHR 0x0A, CHR 0xC3, CHR 0xA9])]"

lemma sample_json_ok: "json_wf sample_json"
proof -
  have "utf8_ok [dq, CHR 0x0A, CHR 0xC3, CHR 0xA9]" "utf8_ok ''a''" "utf8_ok ''b''"
    by (simp_all add: utf8_ok_def utf8_ranges_def)
  moreover have "round64 (- 1 / 8) = Fin (- 1 / 8)" by code_simp
  ultimately show ?thesis by (simp add: sample_json_def less_list_code)
qed

text \<open>
  C18. Every well-formed value is dumped without an exception in every format: compact, or indented by
  up to 1024 characters of whitespace per level, with or without \<open>ensure_ascii\<close>. Parsing the text gives
  the value back: the same strings, keys, integers and doubles. Only a non-negative signed integer
  comes back as an unsigned one with the same value. The compact form of the program is one of them.
\<close>

theorem dump_parse_roundtrip:
  assumes "json_wf j" "indent \<le> 1024" "is_ws indent_char"
  shows "(\<exists>text. dump_with indent indent_char ascii eh_strict j = Inr text \<and> json_parse text = Inr (norm_json j)) \<and>
    json_dump j = dump_with (- 1) CHR '' '' False eh_strict j"
  using dump_with_parses [OF assms] by (simp add: json_dump_def)

theorem dump_parse_roundtrip_witness:
  "\<exists>text. dump_with 4 CHR 0x09 True eh_strict sample_json = Inr text \<and> json_parse text = Inr (norm_json sample_json)"
  using dump_parse_roundtrip [OF sample_json_ok, of 4 "CHR 0x09" True] by (simp add: is_ws_def)

text \<open>
  C19. Beyond that the indentation is read past its end: \<open>indent_string\<close> is doubled once, to 1024 bytes,
  however much the first level needs, so with an indentation of more than 1025 \<open>dump\<close> of any array or
  object with an element reads behind the string, which is undefined behaviour.
\<close>

theorem dump_indent_overrun:
  assumes "1025 < indent" "indent < 2 ^ 31"
  shows "dump_with indent indent_char ascii eh (JArray (v # vs)) = Inl Undefined \<and>
    dump_with indent indent_char ascii eh (JObject (kv # m)) = Inl Undefined"
proof -
  have "nat indent mod 4294967296 = nat indent" "\<not> nat indent \<le> 1025" "512 < nat indent" using assms by auto
  then show ?thesis
    using assms by (cases kv) (simp add: dump_with_def layout_defs grow_indent_def write_indent_def)
qed

theorem dump_indent_overrun_witness:
  "dump_with 2000 CHR '' '' False eh_strict (JArray [JNull]) = Inl Undefined"
  using dump_indent_overrun [of 2000] by simp

text \<open>
  C20. What the parser returns is a well-formed value, for every input: strings and keys are valid
  UTF-8, integers fit 64 bits, floating-point numbers are finite doubles, and the keys of an object are
  sorted without duplicates. It can be dumped, and parsing the text gives an equal value.
\<close>

theorem parse_result_wf:
  assumes "json_parse text = Inr j"
  shows "json_wf j \<and> (\<exists>text'. json_dump j = Inr text' \<and> json_parse text' = Inr (norm_json j))"
proof -
  have "json_wf j" using assms parser_parse_wf by (simp add: json_parse_def)
  then show ?thesis using json_dump_print [of j] json_parse_print [of j] by simp
qed

theorem parse_result_wf_witness: "json_wf (norm_json sample_json)"
  using parse_result_wf [OF json_parse_print [OF sample_json_ok]] by simp

section \<open>Escaping\<close>

text \<open>
  C21. The buffered escaping loop, driven by the table of a UTF-8 automaton, implements the byte-wise
  reference on exactly the well-formed UTF-8 strings; on any other string it throws type error 316.
\<close>

theorem dump_escaped_refines:
  "if utf8_ok s then dump_escaped eh_strict False s = Inr (escape_string s)
   else (\<exists>m. dump_escaped eh_strict False s = Inl (type_error_create 316 m))"
  by (rule dump_escaped_cases)

text \<open>
  C22. The escaping loop is memory safe under every error handler, with and without \<open>ensure_ascii\<close>:
  in every state it reaches, the bytes the next iteration writes lie within the 512 bytes of
  \<open>string_buffer\<close>, the index into the automaton's table is below its 400 entries, and the state the
  loop ends in is one of those states.
\<close>

theorem dump_escaped_in_bounds:
  assumes "dump_reach eh ensure_ascii s (c # cs) d"
  shows "buffer_use ensure_ascii c d \<le> 512 \<and> 256 + utf8_state d * 16 + utf8d ! byte c < 400 \<and>
    length utf8d = 400 \<and>
    (case dump_escaped_loop eh ensure_ascii 0 s new_dump_state of
       Inl _ \<Rightarrow> True | Inr d' \<Rightarrow> dump_reach eh ensure_ascii s [] d')"
proof (intro conjI)
  have room: "dump_room ensure_ascii d" using assms by (rule dump_room_reach)
  then show "buffer_use ensure_ascii c d \<le> 512" by (rule buffer_use_bound)
  have "utf8_state d \<le> 8" using room by (auto simp: dump_room_def dfa_states_def)
  then show "256 + utf8_state d * 16 + utf8d ! byte c < 400"
    using byte_type_bound [of "byte c"] utf8d_byte [OF byte_less_256 [of c]] by simp
  show "length utf8d = 400" by (simp add: utf8d_def)
  show "case dump_escaped_loop eh ensure_ascii 0 s new_dump_state of
      Inl _ \<Rightarrow> True | Inr d' \<Rightarrow> dump_reach eh ensure_ascii s [] d'"
    using dump_reach_loop [OF _ dump_reach.start] by (simp split: sum.split)
qed

theorem dump_escaped_in_bounds_witness:
  "buffer_use True CHR 0xC3 new_dump_state \<le> 512 \<and> length utf8d = 400"
  using dump_escaped_in_bounds [OF dump_reach.start [of eh_replace True "[CHR 0xC3]"]] by blast

section \<open>Floating-point numbers\<close>

text \<open>
  C23. Grisu2 is total and correct on every positive double, subnormal ones included: its loops end,
  it produces between 1 and 17 digits without a leading or a trailing zero, and the decimal number
  they denote lies in the rounding interval of the double, so that a correctly rounding reader gets
  the same double back.
\<close>

theorem grisu2_correct:
  assumes "0 < x" "round64 x = Fin x"
  shows "\<exists>buf k. grisu2 x = Some (buf, k) \<and> buf \<noteq> [] \<and> length buf \<le> 17 \<and> list_all is_digit buf \<and>
    hd buf \<noteq> CHR ''0'' \<and> last buf \<noteq> CHR ''0'' \<and> round64 (of_nat (digits_val buf) * 10 powi k) = Fin x"
  using assms by (rule grisu2_ends) (metis assms lead_digits_def round64_between)

theorem grisu2_correct_witness:
  "\<exists>buf k. grisu2 (1 / 8) = Some (buf, k) \<and> length buf \<le> 17 \<and> round64 (of_nat (digits_val buf) * 10 powi k) = Fin (1 / 8)"
proof -
  have "round64 (1 / 8) = Fin (1 / 8)" by code_simp
  with grisu2_correct [of "1 / 8"] show ?thesis by auto
qed

text \<open>
  C24. Every finite double is printed, in at most 24 characters, within the 64 bytes of
  \<open>number_buffer\<close>, with a minus sign exactly if its sign bit is set; both zeros are covered, the
  negative one being printed as \<open>-0.0\<close>. The scanner reads the text as one floating-point token up to
  its end, whatever character that does not continue a number follows, and gets exactly the printed
  value (the type of the read number has one zero).
\<close>

theorem to_chars_scan_roundtrip:
  assumes "round64 x = Fin x" and "x = 0 \<or> signbit = (x < 0)"
  shows "\<exists>t. to_chars signbit x = Some t \<and> length t \<le> 24 \<and>
    (take 1 t = ''-'') = signbit \<and> (x = 0 \<longrightarrow> t = (if signbit then ''-0.0'' else ''0.0'')) \<and>
    (\<forall>s cs. lex_at s (t @ cs) \<longrightarrow> number_end cs \<longrightarrow>
       (\<exists>s'. scan s = (value_float, s') \<and> lex_at s' cs \<and> num_float s' = Fin x))"
proof (cases "x = 0")
  case True
  then show ?thesis
    using scan_zero [of _ signbit] by (cases signbit) (simp_all add: to_chars_zero)
next
  case False
  with assms(2) have b: "signbit = (x < 0)" by simp
  obtain t where t: "to_chars (x < 0) x = Some (sign_text (x < 0) @ t)" "prints_as t (decimal_val t)"
    using to_chars_strtod [OF assms(1)] by metis
  obtain d ds where d: "t = d # ds" "is_digit d" using prints_as_digit [OF t(2)] .
  have "length (sign_text (x < 0) @ t) \<le> 24" using to_chars_parts [OF assms(1)] t(1) by (metis option.inject)
  moreover have "(take 1 (sign_text (x < 0) @ t) = ''-'') = (x < 0)"
    using d by (auto simp: is_digit_def)
  ultimately show ?thesis
    using scan_float [OF assms(1) t(1)] False by (intro exI [of _ "sign_text (x < 0) @ t"]) (simp add: b t(1))
qed

theorem to_chars_scan_roundtrip_witness:
  "(\<exists>t. to_chars True (- 1 / 8) = Some t \<and> length t \<le> 24) \<and> to_chars True 0 = Some ''-0.0''"
proof -
  have "round64 (- 1 / 8) = Fin (- 1 / 8)" "round64 0 = Fin 0" by code_simp+
  with to_chars_scan_roundtrip [of "- 1 / 8" True] to_chars_scan_roundtrip [of 0 True] show ?thesis by auto
qed

end
