(* ===== verification/Pqxx.thy ===== *)
theory Pqxx
  imports Json_Lexer
begin

text \<open>
  The part of \<open>libpqxx-7.7.5\<close> that the database layer runs: connections, the transaction class
  \<open>pqxx::work\<close> with its status, registration and focus, the check of query results, and the
  conversions between C++ values and their SQL text. The C library \<open>libpq\<close> and the server behind
  it are not part of the repository; they are a record of functions on a session state, an argument
  of every operation that talks to the server. Notices go to error handlers, of which the program
  registers none, and are left out.
\<close>

section \<open>The libpq interface\<close>

datatype exec_status = PGRES_EMPTY_QUERY | PGRES_COMMAND_OK | PGRES_TUPLES_OK | PGRES_COPY_OUT
  | PGRES_COPY_IN | PGRES_BAD_RESPONSE | PGRES_NONFATAL_ERROR | PGRES_FATAL_ERROR | PGRES_OTHER nat

text \<open>A result: \<open>None\<close> in a row is SQL NULL, \<open>sqlstate = None\<close> a missing error field.\<close>

record pg_result =
  pg_status :: exec_status
  pg_rows :: "string option list list"
  pg_error :: string
  pg_sqlstate :: "string option"

text \<open>
  The calls of libpq on a session: a null result pointer is \<open>None\<close>; \<open>PQclientEncoding\<close> is the name
  of the encoding, \<open>None\<close> when it is unknown or the connection is broken.
\<close>

record 's libpq =
  PQconnectdb :: "string \<Rightarrow> 's"
  PQstatus_ok :: "'s \<Rightarrow> bool"
  PQprotocolVersion :: "'s \<Rightarrow> int"
  PQserverVersion :: "'s \<Rightarrow> int"
  PQerrorMessage :: "'s \<Rightarrow> string"
  PQclientEncoding :: "'s \<Rightarrow> string option"
  PQexec :: "string \<Rightarrow> 's \<Rightarrow> pg_result option \<times> 's"
  PQexecParams :: "string \<Rightarrow> string option list \<Rightarrow> 's \<Rightarrow> pg_result option \<times> 's"
  PQconsumeInput :: "'s \<Rightarrow> bool \<times> 's"

section \<open>Exceptions\<close>

text \<open>The classes derived from \<open>sql_error\<close> that \<open>throw_sql_error\<close> chooses from.\<close>

datatype sql_class = plain_sql_error | sql_feature_not_supported | insufficient_privilege
  | data_exception | restrict_violation | not_null_violation | foreign_key_violation
  | unique_violation | check_violation | integrity_constraint_violation | invalid_cursor_state
  | invalid_sql_statement_name | invalid_cursor_name | transaction_rollback
  | serialization_failure | deadlock_detected | sql_syntax_error | undefined_column
  | undefined_function | undefined_table | disk_full | sql_out_of_memory
  | insufficient_resources | plpgsql_raise | plpgsql_no_data_found | plpgsql_too_many_rows
  | plpgsql_error

datatype pq_exn = failure string | broken_connection string | usage_error string
  | in_doubt_error string | statement_completion_unknown string string string
  | sql_error sql_class string string string | feature_not_supported string | conversion_error string
  | invalid_argument string | internal_error string

fun pq_what :: "pq_exn \<Rightarrow> string" where
  "pq_what (failure m) = m"
| "pq_what (broken_connection m) = m"
| "pq_what (usage_error m) = m"
| "pq_what (in_doubt_error m) = m"
| "pq_what (statement_completion_unknown m _ _) = m"
| "pq_what (sql_error _ m _ _) = m"
| "pq_what (feature_not_supported m) = m"
| "pq_what (conversion_error m) = m"
| "pq_what (invalid_argument m) = m"
| "pq_what (internal_error m) = ''libpqxx internal error: '' @ m"

section \<open>Results\<close>

text \<open>
  \<open>throw_sql_error\<close>: the exception for an error message and its SQLSTATE. The nested switches over
  the first two characters of the code are \<open>sql_class_of\<close>; the codes that leave the family of
  \<open>sql_error\<close> are decided first. A missing privilege (42501) is thrown without its code.
\<close>

definition sql_class_of :: "string \<Rightarrow> sql_class" where
  "sql_class_of c =
     (if take 2 c = ''0A'' then sql_feature_not_supported
      else if take 2 c \<in> {''0L'', ''0P''} then insufficient_privilege
      else if take 2 c = ''22'' then data_exception
      else if c = ''23001'' then restrict_violation
      else if c = ''23502'' then not_null_violation
      else if c = ''23503'' then foreign_key_violation
      else if c = ''23505'' then unique_violation
      else if c = ''23514'' then check_violation
      else if take 2 c = ''23'' then integrity_constraint_violation
      else if take 2 c = ''24'' then invalid_cursor_state
      else if take 2 c = ''26'' then invalid_sql_statement_name
      else if take 2 c = ''34'' then invalid_cursor_name
      else if c = ''40000'' then transaction_rollback
      else if c = ''40001'' then serialization_failure
      else if c = ''40P01'' then deadlock_detected
      else if c = ''42501'' then insufficient_privilege
      else if c = ''42601'' then sql_syntax_error
      else if c = ''42703'' then undefined_column
      else if c = ''42883'' then undefined_function
      else if c = ''42P01'' then undefined_table
      else if c = ''53100'' then disk_full
      else if c = ''53200'' then sql_out_of_memory
      else if take 2 c = ''53'' then insufficient_resources
      else if c = ''P0001'' then plpgsql_raise
      else if c = ''P0002'' then plpgsql_no_data_found
      else if c = ''P0003'' then plpgsql_too_many_rows
      else if take 1 c = ''P'' then plpgsql_error
      else plain_sql_error)"

definition throw_sql_error :: "string \<Rightarrow> string \<Rightarrow> string option \<Rightarrow> pq_exn" where
  "throw_sql_error err query code =
     (case code of
        None \<Rightarrow> broken_connection err
      | Some c \<Rightarrow>
          if c = [] then broken_connection err
          else if take 2 c = ''08'' then broken_connection err
          else if c = ''53300'' then broken_connection err
          else if c = ''40003'' then statement_completion_unknown err query c
          else sql_error (sql_class_of c) err query (if c = ''42501'' then [] else c))"

definition status_error :: "pg_result \<Rightarrow> pq_exn + string" where
  "status_error r =
     (case pg_status r of
        PGRES_EMPTY_QUERY \<Rightarrow> Inr []
      | PGRES_COMMAND_OK \<Rightarrow> Inr []
      | PGRES_TUPLES_OK \<Rightarrow> Inr []
      | PGRES_COPY_OUT \<Rightarrow> Inr []
      | PGRES_COPY_IN \<Rightarrow> Inr []
      | PGRES_BAD_RESPONSE \<Rightarrow> Inr (pg_error r)
      | PGRES_NONFATAL_ERROR \<Rightarrow> Inr (pg_error r)
      | PGRES_FATAL_ERROR \<Rightarrow> Inr (pg_error r)
      | PGRES_OTHER code \<Rightarrow>
          Inl (internal_error (''pqxx::result: Unrecognized response code '' @ show_nat code)))"

definition check_status :: "string \<Rightarrow> pg_result \<Rightarrow> pq_exn + pg_result" where
  "check_status query r =
     sum_bind (status_error r) (\<lambda>err.
       if err = [] then Inr r else Inl (throw_sql_error err query (pg_sqlstate r)))"

section \<open>Connections\<close>

text \<open>\<open>m_trans\<close> is the transaction that is registered, by its address.\<close>

record 's connection =
  m_conn :: 's
  m_trans :: "nat option"

definition enc_group_known :: "string \<Rightarrow> bool" where
  "enc_group_known e \<longleftrightarrow>
     e \<in> set [''BIG5'', ''EUC_CN'', ''EUC_JIS_2004'', ''EUC_JP'', ''EUC_KR'', ''EUC_TW'', ''GB18030'',
       ''GBK'', ''ISO_8859_5'', ''ISO_8859_6'', ''ISO_8859_7'', ''ISO_8859_8'', ''JOHAB'', ''KOI8R'',
       ''KOI8U'', ''LATIN1'', ''LATIN2'', ''LATIN3'', ''LATIN4'', ''LATIN5'', ''LATIN6'', ''LATIN7'',
       ''LATIN8'', ''LATIN9'', ''LATIN10'', ''MULE_INTERNAL'', ''SHIFT_JIS_2004'', ''SJIS'',
       ''SQL_ASCII'', ''UHC'', ''UTF8'', ''WIN866'', ''WIN874'', ''WIN1250'', ''WIN1251'', ''WIN1252'',
       ''WIN1253'', ''WIN1254'', ''WIN1255'', ''WIN1256'', ''WIN1257'', ''WIN1258'']"

definition check_encoding :: "'s libpq \<Rightarrow> 's \<Rightarrow> pq_exn option" where
  "check_encoding lq s =
     (case PQclientEncoding lq s of
        None \<Rightarrow> Some (if PQstatus_ok lq s then failure ''Could not obtain client encoding.''
                       else broken_connection ''Lost connection to the database server.'')
      | Some e \<Rightarrow> if enc_group_known e then None
                   else Some (invalid_argument (''Unrecognized encoding: '' @ [CHR 0x27] @ e @ [CHR 0x27] @ ''.'')))"

definition make_result :: "'s libpq \<Rightarrow> string \<Rightarrow> pg_result option \<Rightarrow> 's \<Rightarrow> pq_exn + pg_result" where
  "make_result lq query pgr s =
     (case pgr of
        None \<Rightarrow> Inl (if PQstatus_ok lq s then failure (PQerrorMessage lq s)
                      else broken_connection ''Lost connection to the database server.'')
      | Some r \<Rightarrow> (case check_encoding lq s of Some e \<Rightarrow> Inl e | None \<Rightarrow> check_status query r))"

text \<open>
  After a result, \<open>get_notifs\<close> reads what the server sent; notifications are not delivered to
  anyone, as the program registers no receiver.
\<close>

definition get_notifs :: "'s libpq \<Rightarrow> 's connection \<Rightarrow> (pq_exn + unit) \<times> 's connection" where
  "get_notifs lq c =
     (let (ok, s) = PQconsumeInput lq (m_conn c); c = c\<lparr>m_conn := s\<rparr>
      in (if ok then Inr () else Inl (broken_connection ''Connection lost.''), c))"

definition finish_exec :: "'s libpq \<Rightarrow> string \<Rightarrow> pg_result option \<times> 's \<Rightarrow> 's connection
    \<Rightarrow> (pq_exn + pg_result) \<times> 's connection" where
  "finish_exec lq query answer c =
     (let (pgr, s) = answer; c = c\<lparr>m_conn := s\<rparr>
      in case make_result lq query pgr s of
           Inl e \<Rightarrow> (Inl e, c)
         | Inr r \<Rightarrow>
             (case get_notifs lq c of
                (Inl e, c) \<Rightarrow> (Inl e, c)
              | (Inr _, c) \<Rightarrow> (Inr r, c)))"

definition connection_exec :: "'s libpq \<Rightarrow> string \<Rightarrow> 's connection \<Rightarrow> (pq_exn + pg_result) \<times> 's connection" where
  "connection_exec lq query c = finish_exec lq query (PQexec lq query (m_conn c)) c"

definition connection_exec_params ::
  "'s libpq \<Rightarrow> string \<Rightarrow> string option list \<Rightarrow> 's connection \<Rightarrow> (pq_exn + pg_result) \<times> 's connection" where
  "connection_exec_params lq query args c = finish_exec lq query (PQexecParams lq query args (m_conn c)) c"

definition is_open :: "'s libpq \<Rightarrow> 's connection \<Rightarrow> bool" where
  "is_open lq c = PQstatus_ok lq (m_conn c)"

definition set_up_state :: "'s libpq \<Rightarrow> 's \<Rightarrow> pq_exn option" where
  "set_up_state lq s =
     (if PQprotocolVersion lq s < 3
      then if PQprotocolVersion lq s = 0 then Some (broken_connection ''No connection.'')
           else Some (feature_not_supported
             ''Unsupported frontend/backend protocol version; 3.0 is the minimum.'')
      else if PQserverVersion lq s \<le> 90000
      then Some (feature_not_supported ''Unsupported server version; 9.0 is the minimum.'')
      else None)"

definition new_connection :: "'s libpq \<Rightarrow> string \<Rightarrow> pq_exn + 's connection" where
  "new_connection lq options =
     (let s = PQconnectdb lq options
      in if \<not> PQstatus_ok lq s then Inl (broken_connection (PQerrorMessage lq s))
         else case set_up_state lq s of
                Some e \<Rightarrow> Inl e
              | None \<Rightarrow> Inr \<lparr>m_conn = s, m_trans = None\<rparr>)"

definition describe_object :: "string \<Rightarrow> string \<Rightarrow> string" where
  "describe_object class_name obj_name =
     (if obj_name = [] then class_name
      else class_name @ '' '' @ [CHR 0x27] @ obj_name @ [CHR 0x27])"

text \<open>
  The guest that is there with its name, and the one that comes. The message about a second guest
  names the new one twice, as the source does. No null pointer is ever registered.
\<close>

definition check_unique_register :: "(nat \<times> string) option \<Rightarrow> nat \<times> string \<Rightarrow> string \<Rightarrow> pq_exn option" where
  "check_unique_register old_guest new_guest class_name =
     (case old_guest of
        None \<Rightarrow> None
      | Some g \<Rightarrow>
          Some (usage_error
            (if fst g = fst new_guest
             then ''Started twice: '' @ describe_object class_name (snd g) @ ''.''
             else ''Started new '' @ describe_object class_name (snd new_guest) @ '' while '' @
                  describe_object class_name (snd new_guest) @ '' was still active.'')))"

text \<open>The two statements of \<open>register_transaction\<close>: the check and the assignment.\<close>

definition register_check :: "nat \<Rightarrow> 's connection \<Rightarrow> pq_exn option" where
  "register_check t c =
     check_unique_register (map_option (\<lambda>g. (g, [])) (m_trans c)) (t, []) ''transaction''"

definition register_assign :: "nat \<Rightarrow> 's connection \<Rightarrow> 's connection" where
  "register_assign t c = c\<lparr>m_trans := Some t\<rparr>"

declare register_check_def [simp] register_assign_def [simp]

definition register_transaction :: "nat \<Rightarrow> 's connection \<Rightarrow> (pq_exn + unit) \<times> 's connection" where
  "register_transaction t c =
     (case register_check t c of
        Some e \<Rightarrow> (Inl e, c)
      | None \<Rightarrow> (Inr (), register_assign t c))"

text \<open>Whoever unregisters, the pointer is null afterwards; a mismatch is only a notice.\<close>

definition unregister_transaction :: "'s connection \<Rightarrow> 's connection" where
  "unregister_transaction c = c\<lparr>m_trans := None\<rparr>"

section \<open>Transactions\<close>

datatype status = st_active | st_aborted | st_committed | st_in_doubt

text \<open>
  An object of class \<open>work\<close>, together with the connection it refers to. \<open>m_focus\<close> is the address of
  the focus (a running command) and its name.
\<close>

record 's work =
  w_conn :: "'s connection"
  w_this :: nat
  m_status :: status
  m_registered :: bool
  m_pending_error :: string
  m_focus :: "(nat \<times> string) option"

type_synonym ('s, 'a) wres = "(pq_exn + 'a) \<times> 's work"

definition wbind :: "('s, 'a) wres \<Rightarrow> ('a \<Rightarrow> 's work \<Rightarrow> ('s, 'b) wres) \<Rightarrow> ('s, 'b) wres" where
  "wbind r f = (case fst r of Inl e \<Rightarrow> (Inl e, snd r) | Inr x \<Rightarrow> f x (snd r))"

definition work_description :: string where
  "work_description = describe_object ''transaction'' []"

definition check_pending_error :: "'s work \<Rightarrow> ('s, unit) wres" where
  "check_pending_error w =
     (if m_pending_error w = [] then (Inr (), w)
      else (Inl (failure (m_pending_error w)), w\<lparr>m_pending_error := []\<rparr>))"

definition direct_exec :: "'s libpq \<Rightarrow> string \<Rightarrow> 's work \<Rightarrow> ('s, pg_result) wres" where
  "direct_exec lq cmd w =
     wbind (check_pending_error w) (\<lambda>_ w.
       let (r, c) = connection_exec lq cmd (w_conn w) in (r, w\<lparr>w_conn := c\<rparr>))"

definition register_focus :: "nat \<times> string \<Rightarrow> 's work \<Rightarrow> ('s, unit) wres" where
  "register_focus f w =
     (case check_unique_register (m_focus w) f ''command'' of
        Some e \<Rightarrow> (Inl e, w)
      | None \<Rightarrow> (Inr (), w\<lparr>m_focus := Some f\<rparr>))"

text \<open>The focus is cleared when it is the one that is registered; otherwise a notice is all.\<close>

definition unregister_focus :: "nat \<times> string \<Rightarrow> 's work \<Rightarrow> 's work" where
  "unregister_focus f w = (if map_option fst (m_focus w) = Some (fst f) then w\<lparr>m_focus := None\<rparr> else w)"

text \<open>
  \<open>exec\<close> and \<open>internal_exec_params\<close>: the command object lives for the duration of the call. Its
  address is the number \<open>0\<close>, as no two commands exist at the same time; the name is the description
  of the command, which the program never gives, or the query with parameters.
\<close>

definition work_exec :: "'s libpq \<Rightarrow> string \<Rightarrow> 's work \<Rightarrow> ('s, pg_result) wres" where
  "work_exec lq query w =
     wbind (check_pending_error w) (\<lambda>_ w.
       wbind (register_focus (0, []) w) (\<lambda>_ w.
         let (r, w) =
           (if m_status w = st_active then direct_exec lq query w
            else (Inl (usage_error ''Could not execute command : transaction is already closed.''), w))
         in (r, unregister_focus (0, []) w)))"

definition work_exec_params :: "'s libpq \<Rightarrow> string \<Rightarrow> string option list \<Rightarrow> 's work \<Rightarrow> ('s, pg_result) wres" where
  "work_exec_params lq query args w =
     wbind (register_focus (0, query) w) (\<lambda>_ w.
       let (r, c) = connection_exec_params lq query args (w_conn w)
       in (r, unregister_focus (0, query) (w\<lparr>w_conn := c\<rparr>)))"

text \<open>The first half of \<open>close\<close>: pending errors become a notice, the transaction is unregistered.\<close>

definition close_registration :: "'s work \<Rightarrow> 's work" where
  "close_registration w =
     (let w = snd (check_pending_error w)
      in if m_registered w
         then w\<lparr>m_registered := False, w_conn := unregister_transaction (w_conn w)\<rparr> else w)"

definition do_abort :: "'s libpq \<Rightarrow> 's work \<Rightarrow> 's work" where
  "do_abort lq w = snd (direct_exec lq ''ROLLBACK'' w)"

text \<open>
  \<open>abort\<close> closes the transaction after the rollback; its status is no longer active then, so that
  \<open>close\<close> does not come back to \<open>abort\<close>.
\<close>

definition work_abort :: "'s libpq \<Rightarrow> 's work \<Rightarrow> ('s, unit) wres" where
  "work_abort lq w =
     (case m_status w of
        st_active \<Rightarrow> (Inr (), close_registration ((do_abort lq w)\<lparr>m_status := st_aborted\<rparr>))
      | st_aborted \<Rightarrow> (Inr (), w)
      | st_committed \<Rightarrow> (Inl (usage_error (''Attempt to abort previously committed '' @ work_description)), w)
      | st_in_doubt \<Rightarrow> (Inr (), w))"

definition work_close :: "'s libpq \<Rightarrow> 's work \<Rightarrow> 's work" where
  "work_close lq w =
     (let w = close_registration w
      in if m_status w \<noteq> st_active then w else snd (work_abort lq w))"

definition commit_in_doubt :: "string \<Rightarrow> string" where
  "commit_in_doubt reason =
     ''WARNING: '' @ reason @ [CHR 0x27, CHR 0x27] @
     (if reason = ''Commit of transaction '' then '' is unknown. '' else ''. '') @
     ''There is no way to tell whether the transaction succeeded or was aborted except to check manually.''"

definition do_commit :: "'s libpq \<Rightarrow> 's work \<Rightarrow> ('s, unit) wres" where
  "do_commit lq w =
     (let (r, w) = direct_exec lq ''COMMIT'' w
      in case r of
           Inr _ \<Rightarrow> (Inr (), w)
         | Inl e \<Rightarrow>
             (case e of
                statement_completion_unknown _ _ _ \<Rightarrow>
                  (Inl (in_doubt_error (commit_in_doubt ''Commit of transaction '')), w)
              | _ \<Rightarrow>
                  if \<not> is_open lq (w_conn w)
                  then (Inl (in_doubt_error (commit_in_doubt ''Connection lost while committing transaction '')), w)
                  else (Inl e, w)))"

definition finish_commit :: "'s libpq \<Rightarrow> ('s, unit) wres \<Rightarrow> ('s, unit) wres" where
  "finish_commit lq r =
     (case fst r of
        Inr _ \<Rightarrow> (Inr (), work_close lq ((snd r)\<lparr>m_status := st_committed\<rparr>))
      | Inl e \<Rightarrow>
          (case e of
             in_doubt_error _ \<Rightarrow> (Inl e, (snd r)\<lparr>m_status := st_in_doubt\<rparr>)
           | _ \<Rightarrow> (Inl e, (snd r)\<lparr>m_status := st_aborted\<rparr>)))"

definition work_commit :: "'s libpq \<Rightarrow> 's work \<Rightarrow> ('s, unit) wres" where
  "work_commit lq w =
     wbind (check_pending_error w) (\<lambda>_ w.
       case m_status w of
         st_aborted \<Rightarrow> (Inl (usage_error (''Attempt to commit previously aborted '' @ work_description)), w)
       | st_committed \<Rightarrow> (Inr (), w)
       | st_in_doubt \<Rightarrow>
           (Inl (in_doubt_error (work_description @ '' committed again while in an indeterminate state.'')), w)
       | st_active \<Rightarrow>
           if m_focus w \<noteq> None
           then (Inl (failure (''Attempt to commit '' @ work_description @ '' with '' @
                   describe_object ''command'' (snd (the (m_focus w))) @ '' still open.'')), w)
           else if \<not> is_open lq (w_conn w)
           then (Inl (broken_connection ''Broken connection to backend; cannot complete transaction.''), w)
           else finish_commit lq (do_commit lq w))"

text \<open>
  The constructor of \<open>work\<close> at address \<open>t\<close>. When it throws, the base class destructor takes the
  registration back, if there is one.
\<close>

definition new_work :: "'s libpq \<Rightarrow> nat \<Rightarrow> 's connection \<Rightarrow> (pq_exn + 's work) \<times> 's connection" where
  "new_work lq t c =
     (case register_transaction t c of
        (Inl e, c) \<Rightarrow> (Inl e, c)
      | (Inr _, c) \<Rightarrow>
          (let w = \<lparr>w_conn = c, w_this = t, m_status = st_active, m_registered = True,
                    m_pending_error = [], m_focus = None\<rparr>;
               (r, w) = direct_exec lq ''BEGIN'' w
           in case r of
                Inl e \<Rightarrow> (Inl e, unregister_transaction (w_conn w))
              | Inr _ \<Rightarrow> (Inr w, w_conn w)))"

text \<open>A block with a local \<open>work\<close>: construct, run the block, destroy on every way out.\<close>

definition with_work :: "'s libpq \<Rightarrow> nat \<Rightarrow> ('s work \<Rightarrow> ('s, 'a) wres) \<Rightarrow> 's connection
    \<Rightarrow> (pq_exn + 'a) \<times> 's connection" where
  "with_work lq t body c =
     (case new_work lq t c of
        (Inl e, c) \<Rightarrow> (Inl e, c)
      | (Inr w, _) \<Rightarrow> (let (r, w) = body w in (r, w_conn (work_close lq w))))"

end
