(* ===== verification/Pqxx_Strconv.thy ===== *)
theory Pqxx_Strconv
  imports Pqxx
begin

text \<open>
  Conversions of \<open>libpqxx-7.7.5\<close> between C++ values and SQL text (\<open>strconv.cxx\<close>, \<open>field.hxx\<close>,
  \<open>params.hxx\<close>), in the configuration with \<open><charconv>\<close> that a C++17 compiler selects. The functions
  \<open>std::from_chars\<close> and \<open>std::to_chars\<close> of the standard library are modelled as documented: the
  longest prefix of the right shape, and the shortest decimal notation that reads back as the
  same value.
\<close>

section \<open>Reading\<close>

datatype errc = result_out_of_range | errc_invalid_argument

text \<open>Value and rest of the text, or an error code.\<close>

definition from_chars_int :: "string \<Rightarrow> errc + (int \<times> string)" where
  "from_chars_int s =
     (let (neg, t) = (case s of [] \<Rightarrow> (False, []) | c # t \<Rightarrow> if c = CHR ''-'' then (True, t) else (False, s));
          ds = takeWhile is_digit t;
          v = (if neg then - int (digits_val ds) else int (digits_val ds))
      in if ds = [] then Inl errc_invalid_argument
         else if v < - (2 ^ 31) \<or> 2 ^ 31 \<le> v then Inl result_out_of_range
         else Inr (v, dropWhile is_digit t))"

definition lower_char :: "char \<Rightarrow> char" where
  "lower_char c = (if CHR ''A'' \<le> c \<and> c \<le> CHR ''Z'' then char_of (byte c + (32 :: nat)) else c)"

definition has_prefix_ci :: "string \<Rightarrow> string \<Rightarrow> bool" where
  "has_prefix_ci p s \<longleftrightarrow> map lower_char (take (length p) s) = p"

text \<open>The exponent part of a number, empty when it is not well-formed.\<close>

definition exponent_part :: "string \<Rightarrow> string" where
  "exponent_part s =
     (case s of
        [] \<Rightarrow> []
      | c # t \<Rightarrow>
          if c = CHR ''e'' \<or> c = CHR ''E''
          then (let (sg, u) = (case t of [] \<Rightarrow> ([], []) | d # u \<Rightarrow> if d = CHR ''+'' \<or> d = CHR ''-'' then ([d], u) else ([], t));
                    ds = takeWhile is_digit u
                in if ds = [] then [] else c # sg @ ds)
          else [])"

definition decimal_part :: "string \<Rightarrow> string" where
  "decimal_part s =
     (let ip = takeWhile is_digit s; r = dropWhile is_digit s;
          fp = (case r of [] \<Rightarrow> [] | c # t \<Rightarrow> if c = CHR ''.'' then takeWhile is_digit t else []);
          m = (case r of [] \<Rightarrow> ip | c # t \<Rightarrow> if c = CHR ''.'' then ip @ [c] @ fp else ip)
      in if ip = [] \<and> fp = [] then [] else m @ exponent_part (drop (length m) s))"

text \<open>A result that overflows, or that is subnormal and inexact, is out of range.\<close>

definition from_chars_double :: "string \<Rightarrow> errc + (double \<times> string)" where
  "from_chars_double s =
     (let (neg, t) = (case s of [] \<Rightarrow> (False, []) | c # t \<Rightarrow> if c = CHR ''-'' then (True, t) else (False, s));
          m = decimal_part t
      in if has_prefix_ci ''infinity'' t then Inr (Inf neg, drop 8 t)
         else if has_prefix_ci ''inf'' t then Inr (Inf neg, drop 3 t)
         else if has_prefix_ci ''nan'' t then Inr (NaN, drop 3 t)
         else if m = [] then Inl errc_invalid_argument
         else let x = (if neg then - decimal_val m else decimal_val m)
              in case round64 x of
                   Fin y \<Rightarrow> if y \<noteq> x \<and> \<bar>y\<bar> < 2 powi (- 1022) then Inl result_out_of_range
                            else Inr (Fin y, drop (length m) t)
                 | _ \<Rightarrow> Inl result_out_of_range)"

definition conversion_message :: "string \<Rightarrow> string \<Rightarrow> string \<Rightarrow> string" where
  "conversion_message text ty msg =
     ''Could not convert '' @ [CHR 0x27] @ text @ [CHR 0x27] @ '' to '' @ ty @ '': '' @ msg"

definition from_string_arithmetic :: "(string \<Rightarrow> errc + ('a \<times> string)) \<Rightarrow> string \<Rightarrow> string \<Rightarrow> pq_exn + 'a" where
  "from_string_arithmetic from_chars ty text =
     (case from_chars (dropWhile (\<lambda>c. c = CHR '' '' \<or> c = CHR 0x09) text) of
        Inr (out, rest) \<Rightarrow>
          if rest = [] then Inr out
          else Inl (conversion_error (conversion_message text ty ''Could not parse full string.''))
      | Inl result_out_of_range \<Rightarrow>
          Inl (conversion_error (conversion_message text ty ''Value out of range.''))
      | Inl errc_invalid_argument \<Rightarrow>
          Inl (conversion_error (conversion_message text ty ''Invalid argument.'')))"

definition from_string_int :: "string \<Rightarrow> pq_exn + int" where
  "from_string_int = from_string_arithmetic from_chars_int ''int''"

definition from_string_double :: "string \<Rightarrow> pq_exn + double" where
  "from_string_double = from_string_arithmetic from_chars_double ''double''"

section \<open>Fields\<close>

text \<open>A column past the end of the row reads as null.\<close>

definition field_at :: "string option list \<Rightarrow> nat \<Rightarrow> string option" where
  "field_at row i = (if i < length row then row ! i else None)"

definition null_conversion :: "string \<Rightarrow> pq_exn" where
  "null_conversion ty = conversion_error (''Attempt to convert null to '' @ ty @ ''.'')"

definition as_int :: "string option \<Rightarrow> pq_exn + int" where
  "as_int f = (case f of None \<Rightarrow> Inl (null_conversion ''int'') | Some t \<Rightarrow> from_string_int t)"

definition as_int_or :: "int \<Rightarrow> string option \<Rightarrow> pq_exn + int" where
  "as_int_or d f = (case f of None \<Rightarrow> Inr d | Some t \<Rightarrow> from_string_int t)"

definition as_double_or :: "double \<Rightarrow> string option \<Rightarrow> pq_exn + double" where
  "as_double_or d f = (case f of None \<Rightarrow> Inr d | Some t \<Rightarrow> from_string_double t)"

definition string_type_name :: string where
  "string_type_name = ''std::__cxx11::basic_string<char, std::char_traits<char>, std::allocator<char> >''"

definition as_string :: "string option \<Rightarrow> pq_exn + string" where
  "as_string f = (case f of None \<Rightarrow> Inl (null_conversion string_type_name) | Some t \<Rightarrow> Inr t)"

definition as_string_or :: "string \<Rightarrow> string option \<Rightarrow> pq_exn + string" where
  "as_string_or d f = (case f of None \<Rightarrow> Inr d | Some t \<Rightarrow> Inr t)"

section \<open>Writing\<close>

text \<open>
  \<open>nonneg_to_buf\<close> writes digits backwards from the end of the buffer; the list is what has been
  written so far.
\<close>

fun nonneg_to_buf :: "nat \<Rightarrow> string \<Rightarrow> string" where
  "nonneg_to_buf value pos =
     (if 0 < value div 10 then nonneg_to_buf (value div 10) (digit_char (value mod 10) # pos)
      else digit_char (value mod 10) # pos)"

declare nonneg_to_buf.simps [simp del]

definition neg_to_buf :: "nat \<Rightarrow> string" where
  "neg_to_buf value = CHR ''-'' # nonneg_to_buf value []"

text \<open>\<open>bottom_to_buf\<close>: the conversion of the lowest value to unsigned gives \<open>2 ^ 31\<close>.\<close>

definition to_string_int :: "int \<Rightarrow> string" where
  "to_string_int value =
     (if 0 \<le> value then nonneg_to_buf (nat value) []
      else if - (2 ^ 31) < value then neg_to_buf (nat (- value))
      else neg_to_buf (nat ((- (2 ^ 31)) mod 2 ^ 32)))"

text \<open>The exponent \<open>e\<close> with \<open>10 ^ e \<le> x < 10 ^ (e + 1)\<close>.\<close>

definition ilog10 :: "rat \<Rightarrow> int" where
  "ilog10 x =
     (let (p, q) = quotient_of x;
          e = int (length (show_nat (nat p))) - int (length (show_nat (nat q)))
      in if 10 powi e \<le> x then e else e - 1)"

text \<open>
  A decimal number of \<open>n\<close> digits that reads back as \<open>x\<close>, the closest one if there are two. The
  search starts with one digit; only there can the upper candidate be \<open>10\<close>, which is \<open>1\<close> with the
  next exponent.
\<close>

definition digits_candidate :: "rat \<Rightarrow> nat \<Rightarrow> (int \<times> int) option" where
  "digits_candidate x n =
     (let e = ilog10 x - int n + 1; m = \<lfloor>x / 10 powi e\<rfloor>;
          reads = (\<lambda>m. round64 (of_int m * 10 powi e) = Fin x)
      in if reads m \<and> reads (m + 1)
         then Some (if x - of_int m * 10 powi e \<le> of_int (m + 1) * 10 powi e - x then m else m + 1, e)
         else if reads m then Some (m, e)
         else if reads (m + 1) then Some (m + 1, e)
         else None)"

definition shortest_digits :: "rat \<Rightarrow> int \<times> int" where
  "shortest_digits x =
     (case List.map_filter (digits_candidate x) [1..<18] of
        (m, e) # _ \<Rightarrow> if m = 10 then (1, e + 1) else (m, e)
      | [] \<Rightarrow> (\<lfloor>x\<rfloor>, 0))"

text \<open>\<open>std::to_chars\<close>: fixed notation unless scientific notation is shorter.\<close>

definition std_to_chars :: "double \<Rightarrow> string" where
  "std_to_chars d =
     (case d of
        NaN \<Rightarrow> ''nan''
      | Inf s \<Rightarrow> if s then ''-inf'' else ''inf''
      | Fin x \<Rightarrow>
          if x = 0 then ''0''
          else (let (m, e) = shortest_digits \<bar>x\<bar>; ds = show_int m; n = int (length ds);
                    ex = e + n - 1;
                    sci = take 1 ds @ (if n = 1 then [] else ''.'' @ drop 1 ds) @ ''e'' @
                          (if ex < 0 then ''-'' else ''+'') @ pad_zero 2 (show_nat (nat \<bar>ex\<bar>));
                    fixed = (if 0 \<le> e then show_int \<lfloor>\<bar>x\<bar>\<rfloor>
                             else if - e < n then take (nat (n + e)) ds @ ''.'' @ drop (nat (n + e)) ds
                             else ''0.'' @ replicate (nat (- e - n)) CHR ''0'' @ ds)
                in (if x < 0 then ''-'' else []) @ (if length fixed \<le> length sci then fixed else sci)))"

definition to_string_float :: "double \<Rightarrow> string" where
  "to_string_float x = std_to_chars x"

text \<open>
  Parameters of a statement: \<open>None\<close> is a null pointer. They are passed to libpq in text format, where a
  parameter is a C string and its length is not used, so every text ends at its first NUL byte:
  that of a \<open>std::string\<close> as well as that of a \<open>char const *\<close>.
\<close>

definition param_int :: "int \<Rightarrow> string option" where
  "param_int i = Some (to_string_int i)"

definition param_double :: "double \<Rightarrow> string option" where
  "param_double x = Some (to_string_float x)"

definition param_string :: "string \<Rightarrow> string option" where
  "param_string s = Some (takeWhile (\<lambda>c. c \<noteq> CHR 0x00) s)"

definition param_c_str :: "string option \<Rightarrow> string option" where
  "param_c_str s = map_option (takeWhile (\<lambda>c. c \<noteq> CHR 0x00)) s"

section \<open>Correctness of the integer conversions\<close>

lemma nonneg_to_buf_eq: "nonneg_to_buf n pos = show_nat n @ pos"
proof (induction n pos rule: nonneg_to_buf.induct)
  case (1 n pos)
  show ?case
  proof (cases "n < 10")
    case True
    then show ?thesis by (simp add: nonneg_to_buf.simps [of n] show_nat.simps [of n])
  next
    case False
    then have "0 < n div 10" by (simp add: div_greater_zero_iff)
    with False 1 show ?thesis by (simp add: nonneg_to_buf.simps [of n] show_nat.simps [of n])
  qed
qed

lemma to_string_int_eq: "- (2 ^ 31) \<le> i \<Longrightarrow> to_string_int i = show_int i"
proof -
  assume "- (2 ^ 31) \<le> i"
  then consider "0 \<le> i" | "- (2 ^ 31) < i" "i < 0" | "i = - (2 ^ 31)" by linarith
  then show ?thesis
    by cases (simp_all add: to_string_int_def show_int_def neg_to_buf_def nonneg_to_buf_eq)
qed

lemma show_nat_scan: "takeWhile is_digit (show_nat n) = show_nat n" "dropWhile is_digit (show_nat n) = []"
  using show_nat_digits by (simp_all add: takeWhile_eq_all_conv dropWhile_eq_Nil_conv)

lemma from_chars_show_int:
  assumes "- (2 ^ 31) \<le> i" "i < 2 ^ 31"
  shows "from_chars_int (show_int i) = Inr (i, [])"
proof (cases "i < 0")
  case True
  with assms show ?thesis by (simp add: from_chars_int_def show_int_def show_nat_scan)
next
  case False
  obtain c t where ct: "show_nat (nat i) = c # t" by (cases "show_nat (nat i)") auto
  then have "c \<noteq> CHR ''-''" using show_nat_not_minus by metis
  with False assms show ?thesis
    using show_nat_scan [of "nat i"] digits_val_show_nat [of "nat i"]
    by (simp add: from_chars_int_def show_int_def ct)
qed

lemma show_int_no_blank: "dropWhile (\<lambda>c. c = CHR '' '' \<or> c = CHR 0x09) (show_int i) = show_int i"
proof -
  obtain c t where ct: "show_int i = c # t" by (cases "show_int i") auto
  have "c = CHR ''-'' \<or> is_digit c"
    using ct show_nat_digits [of c "nat i"] by (auto simp: show_int_def split: if_splits)
  then have "\<not> (c = CHR '' '' \<or> c = CHR 0x09)" by (auto simp: is_digit_def)
  then show ?thesis by (simp add: ct)
qed

lemma from_string_to_string_int:
  "- (2 ^ 31) \<le> i \<Longrightarrow> i < 2 ^ 31 \<Longrightarrow> from_string_int (to_string_int i) = Inr i"
  by (simp add: from_string_int_def from_string_arithmetic_def to_string_int_eq show_int_no_blank
      from_chars_show_int)

end
