(* ===== verification/Database.thy ===== *)
theory Database
  imports Pqxx_Strconv Json_Serializer
begin

text \<open>
  \<open>src/database.h\<close> and \<open>src/database.cpp\<close>: the repository of devices, service types and service
  records on one \<open>pqxx::connection\<close>. The state of a \<open>Database\<close> object is its connection (\<open>None\<close> is the
  null \<open>unique_ptr\<close>) and the lines written to the console. Every operation is a block with a local
  transaction inside a \<open>try\<close>; dereferencing the null connection is undefined behaviour, the value
  \<open>None\<close> of the operation.
\<close>

section \<open>Data\<close>

record Device =
  dv_id :: int
  dv_name :: string
  dv_model :: string
  dv_purchase_date :: string
  dv_status :: string

record ServiceType =
  ty_id :: int
  ty_name :: string
  ty_recommended_interval_months :: int
  ty_standard_cost :: double

record ServiceRecord =
  sr_id :: int
  sr_device_id :: int
  sr_service_id :: int
  sr_service_date :: string
  sr_cost :: double
  sr_notes :: string
  sr_next_due_date :: string

record 's database =
  conn :: "'s connection option"
  console :: "string list"

abbreviation print_line :: "string \<Rightarrow> 's database \<Rightarrow> 's database" where
  "print_line l db \<equiv> db\<lparr>console := console db @ [l]\<rparr>"

section \<open>Construction\<close>

definition new_database :: "'s libpq \<Rightarrow> string \<Rightarrow> 's database" where
  "new_database lq conn_str =
     (case new_connection lq conn_str of
        Inl e \<Rightarrow> \<lparr>conn = None, console = [''Database connection error: '' @ pq_what e]\<rparr>
      | Inr c \<Rightarrow> \<lparr>conn = Some c,
                  console = [if is_open lq c then ''Connected to database successfully''
                             else ''Failed to connect to database'']\<rparr>)"

definition db_connect :: "'s libpq \<Rightarrow> 's database \<Rightarrow> bool" where
  "db_connect lq db = (case conn db of None \<Rightarrow> False | Some c \<Rightarrow> is_open lq c)"

section \<open>Transactions\<close>

text \<open>
  \<open>pqxx::work txn(*conn)\<close> and the rest of the \<open>try\<close> block. The address of the local variable is \<open>0\<close>.
\<close>

definition db_block :: "'s libpq \<Rightarrow> ('s work \<Rightarrow> ('s, 'a) wres) \<Rightarrow> 's database
    \<Rightarrow> ((pq_exn + 'a) \<times> 's database) option" where
  "db_block lq body db =
     (case conn db of
        None \<Rightarrow> None
      | Some c \<Rightarrow> (let (r, c) = with_work lq 0 body c in Some (r, db\<lparr>conn := Some c\<rparr>)))"

text \<open>The \<open>catch\<close> clause of the operations that return a \<open>bool\<close>.\<close>

definition catch_bool :: "string \<Rightarrow> ((pq_exn + unit) \<times> 's database) option \<Rightarrow> (bool \<times> 's database) option" where
  "catch_bool msg r =
     map_option (\<lambda>(r, db). case r of
         Inr _ \<Rightarrow> (True, db)
       | Inl e \<Rightarrow> (False, print_line (msg @ pq_what e) db)) r"

definition test_body :: "'s libpq \<Rightarrow> 's work \<Rightarrow> ('s, unit) wres" where
  "test_body lq w = wbind (work_exec lq ''SELECT 1'' w) (\<lambda>_ w. (Inr (), w))"

definition testConnection :: "'s libpq \<Rightarrow> 's database \<Rightarrow> (bool \<times> 's database) option" where
  "testConnection lq db = catch_bool ''Test connection failed: '' (db_block lq (test_body lq) db)"

text \<open>A statement with parameters, then the commit.\<close>

definition update_body :: "'s libpq \<Rightarrow> string \<Rightarrow> string option list \<Rightarrow> 's work \<Rightarrow> ('s, unit) wres" where
  "update_body lq query args w =
     wbind (work_exec_params lq query args w) (\<lambda>_ w. work_commit lq w)"

definition update_op :: "'s libpq \<Rightarrow> string \<Rightarrow> string \<Rightarrow> string option list \<Rightarrow> 's database
    \<Rightarrow> (bool \<times> 's database) option" where
  "update_op lq msg query args db = catch_bool msg (db_block lq (update_body lq query args) db)"

text \<open>
  The loop over the rows of a result: it stops at the first row whose conversion throws. The
  vector outside of the \<open>try\<close> keeps what was pushed before.
\<close>

fun read_rows :: "(string option list \<Rightarrow> pq_exn + 'a) \<Rightarrow> string option list list \<Rightarrow> pq_exn option \<times> 'a list" where
  "read_rows read [] = (None, [])"
| "read_rows read (row # rows) =
     (case read row of
        Inl e \<Rightarrow> (Some e, [])
      | Inr x \<Rightarrow> (let (e, xs) = read_rows read rows in (e, x # xs)))"

definition fetch_body :: "'s libpq \<Rightarrow> string \<Rightarrow> (string option list \<Rightarrow> pq_exn + 'a) \<Rightarrow> 's work
    \<Rightarrow> ('s, pq_exn option \<times> 'a list) wres" where
  "fetch_body lq query read w =
     (let (r, w) = work_exec lq query w
      in case r of
           Inl e \<Rightarrow> (Inr (Some e, []), w)
         | Inr result \<Rightarrow>
             (case read_rows read (pg_rows result) of
                (Some e, xs) \<Rightarrow> (Inr (Some e, xs), w)
              | (None, xs) \<Rightarrow>
                  (let (r, w) = work_commit lq w
                   in (Inr (case r of Inl e \<Rightarrow> Some e | Inr _ \<Rightarrow> None, xs), w))))"

definition fetch_op :: "'s libpq \<Rightarrow> string \<Rightarrow> string \<Rightarrow> (string option list \<Rightarrow> pq_exn + 'a) \<Rightarrow> 's database
    \<Rightarrow> ('a list \<times> 's database) option" where
  "fetch_op lq msg query read db =
     map_option (\<lambda>(r, db).
         let (e, xs) = (case r of Inl e \<Rightarrow> (Some e, []) | Inr x \<Rightarrow> x)
         in (xs, case e of Some e \<Rightarrow> print_line (msg @ pq_what e) db | None \<Rightarrow> db))
       (db_block lq (fetch_body lq query read) db)"

section \<open>Devices\<close>

definition read_device :: "string option list \<Rightarrow> pq_exn + Device" where
  "read_device row =
     sum_bind (as_int (field_at row 0)) (\<lambda>i.
     sum_bind (as_string (field_at row 1)) (\<lambda>n.
     sum_bind (as_string_or [] (field_at row 2)) (\<lambda>m.
     sum_bind (as_string_or [] (field_at row 3)) (\<lambda>p.
     sum_bind (as_string_or ''active'' (field_at row 4)) (\<lambda>s.
       Inr \<lparr>dv_id = i, dv_name = n, dv_model = m, dv_purchase_date = p, dv_status = s\<rparr>)))))"

definition devices_query :: string where
  "devices_query = ''SELECT device_id, name, model, purchase_date, status FROM Devices ORDER BY device_id''"

definition getAllDevices :: "'s libpq \<Rightarrow> 's database \<Rightarrow> (Device list \<times> 's database) option" where
  "getAllDevices lq = fetch_op lq ''Error getting devices: '' devices_query read_device"

text \<open>\<open>s.empty() ? nullptr : s.c_str()\<close>\<close>

definition null_if_empty :: "string \<Rightarrow> string option" where
  "null_if_empty s = param_c_str (if s = [] then None else Some s)"

definition addDevice :: "'s libpq \<Rightarrow> Device \<Rightarrow> 's database \<Rightarrow> (bool \<times> 's database) option" where
  "addDevice lq device = update_op lq ''Error adding device: ''
     ''INSERT INTO Devices (name, model, purchase_date, status) VALUES ($1, $2, $3, $4)''
     [param_string (dv_name device), param_string (dv_model device),
      null_if_empty (dv_purchase_date device), param_string (dv_status device)]"

definition updateDevice :: "'s libpq \<Rightarrow> int \<Rightarrow> Device \<Rightarrow> 's database \<Rightarrow> (bool \<times> 's database) option" where
  "updateDevice lq i device = update_op lq ''Error updating device: ''
     ''UPDATE Devices SET name=$1, model=$2, purchase_date=$3, status=$4 WHERE device_id=$5''
     [param_string (dv_name device), param_string (dv_model device),
      null_if_empty (dv_purchase_date device), param_string (dv_status device), param_int i]"

definition deleteDevice :: "'s libpq \<Rightarrow> int \<Rightarrow> 's database \<Rightarrow> (bool \<times> 's database) option" where
  "deleteDevice lq i = update_op lq ''Error deleting device: ''
     ''DELETE FROM Devices WHERE device_id=$1'' [param_int i]"

section \<open>Service types\<close>

definition read_service_type :: "string option list \<Rightarrow> pq_exn + ServiceType" where
  "read_service_type row =
     sum_bind (as_int (field_at row 0)) (\<lambda>i.
     sum_bind (as_string (field_at row 1)) (\<lambda>n.
     sum_bind (as_int_or 0 (field_at row 2)) (\<lambda>m.
     sum_bind (as_double_or (Fin 0) (field_at row 3)) (\<lambda>c.
       Inr \<lparr>ty_id = i, ty_name = n, ty_recommended_interval_months = m, ty_standard_cost = c\<rparr>))))"

definition getAllServiceTypes :: "'s libpq \<Rightarrow> 's database \<Rightarrow> (ServiceType list \<times> 's database) option" where
  "getAllServiceTypes lq = fetch_op lq ''Error getting service types: ''
     ''SELECT service_id, name, recommended_interval_months, standard_cost FROM Service_Types ORDER BY service_id''
     read_service_type"

definition addServiceType :: "'s libpq \<Rightarrow> ServiceType \<Rightarrow> 's database \<Rightarrow> (bool \<times> 's database) option" where
  "addServiceType lq ty = update_op lq ''Error adding service type: ''
     ''INSERT INTO Service_Types (name, recommended_interval_months, standard_cost) VALUES ($1, $2, $3)''
     [param_string (ty_name ty), param_int (ty_recommended_interval_months ty),
      param_double (ty_standard_cost ty)]"

definition updateServiceType :: "'s libpq \<Rightarrow> int \<Rightarrow> ServiceType \<Rightarrow> 's database \<Rightarrow> (bool \<times> 's database) option" where
  "updateServiceType lq i ty = update_op lq ''Error updating service type: ''
     ''UPDATE Service_Types SET name=$1, recommended_interval_months=$2, standard_cost=$3 WHERE service_id=$4''
     [param_string (ty_name ty), param_int (ty_recommended_interval_months ty),
      param_double (ty_standard_cost ty), param_int i]"

definition deleteServiceType :: "'s libpq \<Rightarrow> int \<Rightarrow> 's database \<Rightarrow> (bool \<times> 's database) option" where
  "deleteServiceType lq i = update_op lq ''Error deleting service type: ''
     ''DELETE FROM Service_Types WHERE service_id=$1'' [param_int i]"

section \<open>Service history\<close>

definition read_service_record :: "string option list \<Rightarrow> pq_exn + ServiceRecord" where
  "read_service_record row =
     sum_bind (as_int (field_at row 0)) (\<lambda>i.
     sum_bind (as_int (field_at row 1)) (\<lambda>d.
     sum_bind (as_int (field_at row 2)) (\<lambda>s.
     sum_bind (as_string (field_at row 3)) (\<lambda>t.
     sum_bind (as_double_or (Fin 0) (field_at row 4)) (\<lambda>c.
     sum_bind (as_string_or [] (field_at row 5)) (\<lambda>n.
     sum_bind (as_string_or [] (field_at row 6)) (\<lambda>x.
       Inr \<lparr>sr_id = i, sr_device_id = d, sr_service_id = s, sr_service_date = t, sr_cost = c,
            sr_notes = n, sr_next_due_date = x\<rparr>)))))))"

definition getAllServiceRecords :: "'s libpq \<Rightarrow> 's database \<Rightarrow> (ServiceRecord list \<times> 's database) option" where
  "getAllServiceRecords lq = fetch_op lq ''Error getting service records: ''
     (''SELECT record_id, device_id, service_id, service_date, cost, notes, next_due_date '' @
      ''FROM Service_History ORDER BY service_date DESC'') read_service_record"

definition record_params :: "ServiceRecord \<Rightarrow> string option list" where
  "record_params r =
     [param_int (sr_device_id r), param_int (sr_service_id r), param_string (sr_service_date r),
      param_double (sr_cost r), param_string (sr_notes r), null_if_empty (sr_next_due_date r)]"

definition add_record_query :: string where
  "add_record_query =
     ''INSERT INTO Service_History (device_id, service_id, service_date, cost, notes, next_due_date) '' @
     ''VALUES ($1, $2, $3, $4, $5, $6)''"

definition addServiceRecord :: "'s libpq \<Rightarrow> ServiceRecord \<Rightarrow> 's database \<Rightarrow> (bool \<times> 's database) option" where
  "addServiceRecord lq r =
     update_op lq ''Error adding service record: '' add_record_query (record_params r)"

definition updateServiceRecord :: "'s libpq \<Rightarrow> int \<Rightarrow> ServiceRecord \<Rightarrow> 's database \<Rightarrow> (bool \<times> 's database) option" where
  "updateServiceRecord lq i r = update_op lq ''Error updating service record: ''
     ''UPDATE Service_History SET device_id=$1, service_id=$2, service_date=$3, cost=$4, notes=$5, next_due_date=$6 WHERE record_id=$7''
     (record_params r @ [param_int i])"

definition deleteServiceRecord :: "'s libpq \<Rightarrow> int \<Rightarrow> 's database \<Rightarrow> (bool \<times> 's database) option" where
  "deleteServiceRecord lq i = update_op lq ''Error deleting service record: ''
     ''DELETE FROM Service_History WHERE record_id=$1'' [param_int i]"

text \<open>Assignments \<open>j[k] = v\<close> one after the other, starting with a null value.\<close>

definition json_fields :: "(string \<times> json) list \<Rightarrow> json" where
  "json_fields kvs = foldl (\<lambda>j (k, v). case json_assign k v j of Inr j' \<Rightarrow> j' | Inl _ \<Rightarrow> j) JNull kvs"

definition read_history_row :: "string option list \<Rightarrow> pq_exn + json" where
  "read_history_row row =
     sum_bind (as_int (field_at row 0)) (\<lambda>i.
     sum_bind (as_string (field_at row 1)) (\<lambda>d.
     sum_bind (as_string_or [] (field_at row 2)) (\<lambda>m.
     sum_bind (as_string (field_at row 3)) (\<lambda>s.
     sum_bind (as_string (field_at row 4)) (\<lambda>t.
     sum_bind (as_double_or (Fin 0) (field_at row 5)) (\<lambda>c.
     sum_bind (as_string_or [] (field_at row 6)) (\<lambda>n.
     sum_bind (as_string_or [] (field_at row 7)) (\<lambda>x.
       Inr (json_fields [(''record_id'', JInt i), (''device_name'', JString d), (''model'', JString m),
              (''service_name'', JString s), (''service_date'', JString t), (''cost'', JFloat c),
              (''notes'', JString n), (''next_due_date'', JString x)])))))))))"

definition history_query :: string where
  "history_query =
     (''SELECT '' @ ''sh.record_id, '' @ ''d.name as device_name, '' @ ''d.model, '' @
      ''st.name as service_name, '' @ ''sh.service_date, '' @ ''sh.cost, '' @ ''sh.notes, '' @
      ''sh.next_due_date '' @ ''FROM Service_History sh '' @
      ''JOIN Devices d ON sh.device_id = d.device_id '' @
      ''JOIN Service_Types st ON sh.service_id = st.service_id '' @
      ''ORDER BY sh.service_date DESC'')"

definition getDetailedServiceHistory :: "'s libpq \<Rightarrow> 's database \<Rightarrow> (json \<times> 's database) option" where
  "getDetailedServiceHistory lq db =
     map_option (apfst JArray)
       (fetch_op lq ''Error getting detailed history: '' history_query read_history_row db)"

end
