(* ===== verification/Pqxx_Double.thy ===== *)
theory Pqxx_Double
  imports Pqxx_Strconv Json_Float
begin

text \<open>
  Doubles in SQL text. The shortest decimal that \<open>std::to_chars\<close> looks for exists with at most 17
  digits, both notations it chooses from are read by \<open>std::from_chars\<close> to their end, and the number read
  rounds to the double that was written.
\<close>

section \<open>Seventeen digits are enough\<close>

lemma ilog10_bounds:
  assumes "0 < x"
  shows "10 powi ilog10 x \<le> x" and "x < 10 powi (ilog10 x + 1)"
proof -
  obtain p q where pq: "quotient_of x = (p, q)" by fastforce
  then have x: "x = of_int p / of_int q" and q: "0 < q"
    by (auto simp: quotient_of_div quotient_of_denom_pos)
  with assms have p: "0 < p" by (simp add: zero_less_divide_iff)
  have len: "10 powi (int (length (show_nat (nat n))) - 1) \<le> (of_int n :: rat)"
      "(of_int n :: rat) < 10 powi int (length (show_nat (nat n)))" if "0 < n" for n :: int
  proof -
    have of_n: "(of_nat (nat n) :: rat) = of_int n" using that by simp
    have dg: "list_all is_digit (show_nat (nat n))" using show_nat_digits by (auto simp: list_all_iff)
    have "lead_digits (show_nat (nat n))" using dg that show_nat_hd_nonzero [of "nat n"] by (simp add: lead_digits_def)
    from digits_val_lead [OF this] have "10 ^ (length (show_nat (nat n)) - 1) \<le> nat n" by simp
    then have "(of_nat (10 ^ (length (show_nat (nat n)) - 1)) :: rat) \<le> of_nat (nat n)" by (simp only: of_nat_le_iff)
    moreover have "(of_nat (10 ^ (length (show_nat (nat n)) - 1)) :: rat) = 10 powi (int (length (show_nat (nat n))) - 1)"
      by (cases "show_nat (nat n)") simp_all
    ultimately show "10 powi (int (length (show_nat (nat n))) - 1) \<le> (of_int n :: rat)" unfolding of_n by (simp only:)
    have "nat n < 10 ^ length (show_nat (nat n))" using digits_val_less [OF dg] by simp
    then have "(of_nat (nat n) :: rat) < of_nat (10 ^ length (show_nat (nat n)))" by (simp only: of_nat_less_iff)
    moreover have "(of_nat (10 ^ length (show_nat (nat n))) :: rat) = 10 powi int (length (show_nat (nat n)))" by simp
    ultimately show "(of_int n :: rat) < 10 powi int (length (show_nat (nat n)))" unfolding of_n by (simp only:)
  qed
  define a b where "a = int (length (show_nat (nat p)))" and "b = int (length (show_nat (nat q)))"
  note pb = len [OF p, folded a_def] and qb = len [OF q, folded b_def]
  have up: "x < 10 powi (a - b + 1)"
  proof -
    have "x < 10 powi a / 10 powi (b - 1)" unfolding x using pb qb q p by (intro frac_less) auto
    also have "\<dots> = 10 powi (a - b + 1)" by (simp add: power_int_diff power_int_add)
    finally show ?thesis .
  qed
  have lo: "10 powi (a - b - 1) \<le> x"
  proof -
    have "10 powi (a - b - 1) = 10 powi (a - 1) / (10 powi b :: rat)" by (simp add: power_int_diff power_int_add)
    also have "\<dots> \<le> x" unfolding x using pb qb q p by (intro frac_le) auto
    finally show ?thesis .
  qed
  have e: "ilog10 x = (if 10 powi (a - b) \<le> x then a - b else a - b - 1)"
    by (simp add: ilog10_def pq a_def b_def)
  show "10 powi ilog10 x \<le> x" using lo by (simp add: e)
  show "x < 10 powi (ilog10 x + 1)" using up by (simp add: e)
qed

text \<open>A number that differs from a double by less than a \<open>2 ^ 54\<close>-th of it rounds to it.\<close>

lemma round64_close:
  assumes x: "0 < x" "round64 x = Fin x" and d: "\<bar>d - x\<bar> < x / 2 ^ 54"
  shows "round64 d = Fin x"
proof -
  obtain sig where p: "double_parts x sig (ulp_exp x)" using double_parts_exist [OF x] by blast
  define U :: rat where "U = 2 powi ulp_exp x"
  have sig: "0 < sig" "sig < 2 ^ 53" "x = of_nat sig * U" "0 < U" using p by (simp_all add: double_parts_def U_def)
  have half: "(2 powi (ulp_exp x - 1) :: rat) = U / 2" "(2 powi (ulp_exp x - 2) :: rat) = U / 4"
    by (simp_all add: U_def power_int_diff)
  have "(of_nat sig :: rat) < of_nat (2 ^ 53)" using sig(2) by (simp only: of_nat_less_iff)
  then have "of_nat sig * U < of_nat (2 ^ 53) * U" using sig(4) by (intro mult_strict_right_mono)
  then have h: "x / 2 ^ 54 < U / 2" unfolding sig(3) by (simp add: mult.commute)
  have "lower_mid sig (ulp_exp x) < d"
  proof (cases "sig = 2 ^ 52 \<and> - 1074 < ulp_exp x")
    case True
    then have "x / 2 ^ 54 = U / 4" by (simp add: sig(3))
    moreover have "lower_mid sig (ulp_exp x) = of_nat (4 * sig - 1) * (U / 4)"
      unfolding lower_mid_def if_P [OF True] half ..
    moreover have "of_nat (4 * sig - 1) * (U / 4) = x - U / 4"
      unfolding sig(3) using sig(1) by (simp add: of_nat_diff field_simps)
    ultimately show ?thesis using d by linarith
  next
    case False
    have "lower_mid sig (ulp_exp x) = of_nat (2 * sig - 1) * (U / 2)"
      unfolding lower_mid_def if_not_P [OF False] half ..
    moreover have "of_nat (2 * sig - 1) * (U / 2) = x - U / 2"
      unfolding sig(3) using sig(1) by (simp add: of_nat_diff field_simps)
    ultimately show ?thesis using d h by linarith
  qed
  moreover have "of_nat (2 * sig + 1) * (U / 2) = x + U / 2" unfolding sig(3) by (simp add: field_simps)
  then have "d < upper_mid sig (ulp_exp x)" unfolding upper_mid_def half using d h by linarith
  ultimately show ?thesis by (rule round64_between [OF x p])
qed

lemma seventeen_digits:
  assumes x: "0 < x" "round64 x = Fin x"
  shows "digits_candidate x 17 \<noteq> None"
proof -
  define e where "e = ilog10 x - int 17 + 1"
  define sp :: rat where "sp = 10 powi e"
  define m where "m = \<lfloor>x / sp\<rfloor>"
  have sp: "0 < sp" by (simp add: sp_def)
  have "10 ^ 16 * sp = 10 powi ilog10 x" by (simp add: sp_def e_def power_int_diff power_int_add)
  then have "10 ^ 16 * sp \<le> x" using ilog10_bounds(1) [OF x(1)] by simp
  then have small: "sp / 2 < x / 2 ^ 54" using sp x(1) by (simp add: field_simps)
  have "of_int m \<le> x / sp" "x / sp < of_int m + 1" unfolding m_def by linarith+
  then have b: "of_int m * sp \<le> x" "x < of_int (m + 1) * sp" using sp by (simp_all add: field_simps)
  have "round64 (of_int m * sp) = Fin x \<or> round64 (of_int (m + 1) * sp) = Fin x"
  proof (cases "x - of_int m * sp \<le> sp / 2")
    case True
    with b small have "\<bar>of_int m * sp - x\<bar> < x / 2 ^ 54" by linarith
    then show ?thesis using round64_close [OF x] by blast
  next
    case False
    have "of_int (m + 1) * sp = of_int m * sp + sp" by (simp add: algebra_simps)
    with False b small have "\<bar>of_int (m + 1) * sp - x\<bar> < x / 2 ^ 54" by linarith
    then show ?thesis using round64_close [OF x] by blast
  qed
  then show ?thesis unfolding digits_candidate_def Let_def e_def [symmetric] sp_def [symmetric] m_def [symmetric] by auto
qed

text \<open>The digits found read as the number, and they stand for a positive integer.\<close>

lemma digits_candidate_reads:
  "digits_candidate x n = Some (m, e) \<Longrightarrow> round64 (of_int m * 10 powi e) = Fin x"
  by (auto simp: digits_candidate_def Let_def split: if_splits)

lemma shortest_digits_reads:
  assumes x: "0 < x" "round64 x = Fin x" and r: "shortest_digits x = (m, e)"
  shows "round64 (of_int m * 10 powi e) = Fin x"
proof -
  obtain y ys where l: "List.map_filter (digits_candidate x) [1..<18] = y # ys"
  proof (cases "List.map_filter (digits_candidate x) [1..<18]")
    case Nil
    moreover have "17 \<in> set [1..<18]" by simp
    ultimately show ?thesis using seventeen_digits [OF x] by (auto simp: map_filter_def filter_empty_conv)
  qed
  obtain m0 e0 where y: "y = (m0, e0)" by fastforce
  have "y \<in> set (List.map_filter (digits_candidate x) [1..<18])" unfolding l by simp
  then have "round64 (of_int m0 * 10 powi e0) = Fin x"
    using digits_candidate_reads by (auto simp: map_filter_def y)
  moreover have "(if m0 = 10 then (1, e0 + 1) else (m0, e0)) = (m, e)" using r unfolding shortest_digits_def l y by simp
  ultimately show ?thesis by (auto simp: power_int_add mult.commute split: if_splits)
qed

section \<open>The text of a double\<close>

lemma round64_nonneg: "0 \<le> z \<Longrightarrow> round64 z = Fin y \<Longrightarrow> 0 \<le> y"
proof -
  assume z: "0 \<le> z" and y: "round64 z = Fin y"
  have "0 \<le> \<lfloor>z / 2 powi ulp_exp z\<rfloor>" using z by (simp add: divide_nonneg_nonneg)
  then have "0 \<le> round_half_even (z / 2 powi ulp_exp z)" by (simp add: round_half_even_def Let_def)
  then have "0 \<le> (of_int (round_half_even (z / 2 powi ulp_exp z)) * 2 powi ulp_exp z :: rat)" by simp
  then show ?thesis using y by (auto simp: round64_def Let_def split: if_splits)
qed

lemma round64_integral:
  assumes "round64 (of_int k) = Fin x"
  shows "x = of_int \<lfloor>x\<rfloor>"
proof (cases "\<bar>k\<bar> \<le> 2 ^ 53")
  case True
  then show ?thesis using round64_int [of k] assms by simp
next
  case False
  define z where "z = (of_int k :: rat)"
  have "(2 powi 53 :: rat) \<le> \<bar>z\<bar>" using False by (simp add: z_def)
  moreover have "0 < \<bar>z\<bar>" using False by (simp add: z_def)
  then have "\<bar>z\<bar> < 2 powi (ilog2 \<bar>z\<bar> + 1)" by (rule ilog2_bounds)
  ultimately have "(2 powi 53 :: rat) < 2 powi (ilog2 \<bar>z\<bar> + 1)" by linarith
  then have "53 < ilog2 \<bar>z\<bar> + 1" by (simp only: powi_less_iff)
  then have u: "0 \<le> ulp_exp z" by (simp add: ulp_exp_def)
  obtain n where "x = of_int n * 2 powi ulp_exp z"
    using assms False unfolding z_def [symmetric] by (auto simp: round64_def Let_def split: if_splits)
  with u have "x = of_int (n * 2 ^ nat (ulp_exp z))" by (simp add: power_int_def)
  then show ?thesis by simp
qed

text \<open>An exponent with a sign, as it is written and read.\<close>

definition signed_digits :: "string \<Rightarrow> bool" where
  "signed_digits s \<longleftrightarrow> (\<exists>sg es. s = sg # es \<and> sg \<in> set ''+-'' \<and> es \<noteq> [] \<and> list_all is_digit es)"

text \<open>A text that \<open>from_chars\<close> reads to its end, and the number it reads.\<close>

definition reads_as :: "string \<Rightarrow> rat \<Rightarrow> bool" where
  "reads_as t v \<longleftrightarrow> decimal_part t = t \<and> decimal_val t = v \<and> t \<noteq> [] \<and> is_digit (hd t)"

lemma decimal_part_text:
  assumes ip: "list_all is_digit ip" "ip \<noteq> []"
    and fp: "case fp of None \<Rightarrow> True | Some f \<Rightarrow> list_all is_digit f"
    and ep: "case ep of None \<Rightarrow> True | Some e \<Rightarrow> signed_digits e"
  shows "decimal_part (decimal_text ip fp ep) = decimal_text ip fp ep"
proof -
  have nd: "\<not> is_digit CHR ''.''" "\<not> is_digit CHR ''e''" by (simp_all add: is_digit_def)
  note tw = takeWhile_digits [OF ip(1) nd(1)] takeWhile_digits [OF ip(1) nd(2)]
  have ex: "exponent_part (case ep of None \<Rightarrow> [] | Some e \<Rightarrow> CHR ''e'' # e) = (case ep of None \<Rightarrow> [] | Some e \<Rightarrow> CHR ''e'' # e)"
  proof (cases ep)
    case (Some e)
    with ep obtain sg es where e: "e = sg # es" "sg \<in> set ''+-''" "es \<noteq> []" "list_all is_digit es"
      by (auto simp: signed_digits_def)
    have tw_es: "takeWhile is_digit es = es" using e(4) by (simp add: list_all_iff)
    from e(1-3) Some show ?thesis by (auto simp: exponent_part_def Let_def tw_es)
  qed (simp add: exponent_part_def)
  show ?thesis
  proof (cases fp)
    case None
    then show ?thesis using ex ip(2) by (cases ep) (simp_all add: decimal_text_def decimal_part_def Let_def tw)
  next
    case (Some f)
    with fp have f: "list_all is_digit f" by simp
    note tf = takeWhile_digits [OF f nd(2)]
    from Some show ?thesis using ex ip(2) by (cases ep) (simp_all add: decimal_text_def decimal_part_def Let_def tw tf)
  qed
qed

lemma reads_as_text:
  assumes "list_all is_digit ip" "ip \<noteq> []" "case fp of None \<Rightarrow> True | Some f \<Rightarrow> list_all is_digit f"
    "case ep of None \<Rightarrow> True | Some e \<Rightarrow> signed_digits e"
    "of_nat (digits_val (ip @ (case fp of None \<Rightarrow> [] | Some f \<Rightarrow> f)))
      * 10 powi ((case ep of None \<Rightarrow> 0 | Some e \<Rightarrow> exponent_val e) - int (case fp of None \<Rightarrow> 0 | Some f \<Rightarrow> length f)) = v"
    "t = decimal_text ip fp ep"
  shows "reads_as t v"
proof -
  have "t \<noteq> []" "is_digit (hd t)" using assms(1,2,6) by (cases ip; simp add: decimal_text_def)+
  then show ?thesis
    using decimal_part_text [OF assms(1-4)] decimal_val_text [OF assms(1,3), of ep] assms(5,6) by (simp add: reads_as_def)
qed

lemma exponent_text:
  "signed_digits ((if ex < 0 then CHR ''-'' else CHR ''+'') # pad_zero 2 (show_nat (nat \<bar>ex\<bar>)))"
  "exponent_val ((if ex < 0 then CHR ''-'' else CHR ''+'') # pad_zero 2 (show_nat (nat \<bar>ex\<bar>))) = ex"
proof -
  have "list_all is_digit (pad_zero 2 (show_nat (nat \<bar>ex\<bar>)))"
    using show_nat_digits by (auto simp: pad_zero_def list_all_iff is_digit_def)
  then show "signed_digits ((if ex < 0 then CHR ''-'' else CHR ''+'') # pad_zero 2 (show_nat (nat \<bar>ex\<bar>)))"
    by (auto simp: signed_digits_def pad_zero_def)
  have "digits_val (pad_zero 2 (show_nat (nat \<bar>ex\<bar>))) = nat \<bar>ex\<bar>"
    by (simp add: pad_zero_def digits_val_append)
  then show "exponent_val ((if ex < 0 then CHR ''-'' else CHR ''+'') # pad_zero 2 (show_nat (nat \<bar>ex\<bar>))) = ex"
    by (simp add: exponent_val_def)
qed

text \<open>The two notations that \<open>std_to_chars\<close> chooses from.\<close>

definition fixed_text :: "rat \<Rightarrow> string \<Rightarrow> int \<Rightarrow> string" where
  "fixed_text x ds e =
     (if 0 \<le> e then show_int \<lfloor>x\<rfloor>
      else if - e < int (length ds) then take (nat (int (length ds) + e)) ds @ ''.'' @ drop (nat (int (length ds) + e)) ds
      else ''0.'' @ replicate (nat (- e - int (length ds))) CHR ''0'' @ ds)"

definition scientific_text :: "string \<Rightarrow> int \<Rightarrow> string" where
  "scientific_text ds e =
     (let ex = e + int (length ds) - 1
      in take 1 ds @ (if length ds = 1 then [] else ''.'' @ drop 1 ds) @ ''e'' @
           (if ex < 0 then ''-'' else ''+'') @ pad_zero 2 (show_nat (nat \<bar>ex\<bar>)))"

lemma std_to_chars_texts:
  assumes "x \<noteq> 0" "shortest_digits \<bar>x\<bar> = (m, e)"
  obtains t where "std_to_chars (Fin x) = (if x < 0 then ''-'' else []) @ t"
    "t = fixed_text \<bar>x\<bar> (show_int m) e \<or> t = scientific_text (show_int m) e"
  using assms by (auto simp: std_to_chars_def fixed_text_def scientific_text_def Let_def intro: that)

lemma fixed_text_reads:
  assumes x: "0 < x" "round64 x = Fin x" and ds: "lead_digits ds" and r: "round64 (of_nat (digits_val ds) * 10 powi e) = Fin x"
  shows "\<exists>v. reads_as (fixed_text x ds e) v \<and> round64 v = Fin x"
proof -
  define n where "n = length ds"
  have dg: "list_all is_digit ds" "0 < n" using ds by (simp_all add: lead_digits_def n_def)
  consider "0 \<le> e" | (mid) "e < 0" "- e < int n" | (small) "e < 0" "int n \<le> - e" by linarith
  then show ?thesis
  proof cases
    case 1
    then have "of_nat (digits_val ds) * 10 powi e = (of_int (int (digits_val ds) * 10 ^ nat e) :: rat)" by (simp add: power_int_def)
    with r have xi: "x = of_int \<lfloor>x\<rfloor>" using round64_integral [of "int (digits_val ds) * 10 ^ nat e" x] by simp
    have f: "0 \<le> \<lfloor>x\<rfloor>" using x(1) by simp
    have "reads_as (show_nat (nat \<lfloor>x\<rfloor>)) x"
    proof (rule reads_as_text [of "show_nat (nat \<lfloor>x\<rfloor>)" None None])
      show "list_all is_digit (show_nat (nat \<lfloor>x\<rfloor>))" using show_nat_digits by (auto simp: list_all_iff)
      show "of_nat (digits_val (show_nat (nat \<lfloor>x\<rfloor>) @ (case None of None \<Rightarrow> [] | Some f \<Rightarrow> f))) *
        10 powi ((case None of None \<Rightarrow> 0 | Some e \<Rightarrow> exponent_val e) - int (case None of None \<Rightarrow> 0 | Some f \<Rightarrow> length f)) = x"
        using f xi by simp
    qed (simp_all add: decimal_text_def)
    then show ?thesis using 1 f x(2) by (auto simp: fixed_text_def show_int_def)
  next
    case mid
    define k where "k = nat (int n + e)"
    have k: "0 < k" "k < n" "int k - int n = e" using mid by (simp_all add: k_def)
    have "reads_as (fixed_text x ds e) (of_nat (digits_val ds) * 10 powi e)"
    proof (rule reads_as_text [of "take k ds" "Some (drop k ds)" None])
      show "fixed_text x ds e = decimal_text (take k ds) (Some (drop k ds)) None"
        using mid by (simp add: fixed_text_def decimal_text_def k_def n_def)
      show "of_nat (digits_val (take k ds @ (case Some (drop k ds) of None \<Rightarrow> [] | Some f \<Rightarrow> f))) *
        10 powi ((case None of None \<Rightarrow> 0 | Some e \<Rightarrow> exponent_val e) - int (case Some (drop k ds) of None \<Rightarrow> 0 | Some f \<Rightarrow> length f))
        = (of_nat (digits_val ds) * 10 powi e :: rat)"
        using k by (simp add: n_def [symmetric] of_nat_diff)
      show "take k ds \<noteq> []" using k(1) dg(2) by (auto simp: n_def)
    qed (use dg(1) in \<open>auto simp: list_all_iff dest: in_set_takeD in_set_dropD\<close>)
    with r show ?thesis by blast
  next
    case small
    define k where "k = nat (- e - int n)"
    have k: "- int k - int n = e" using small by (simp add: k_def)
    have "reads_as (fixed_text x ds e) (of_nat (digits_val ds) * 10 powi e)"
    proof (rule reads_as_text [of "''0''" "Some (replicate k CHR ''0'' @ ds)" None])
      show "fixed_text x ds e = decimal_text ''0'' (Some (replicate k CHR ''0'' @ ds)) None"
        using small by (simp add: fixed_text_def decimal_text_def k_def n_def)
      have "digits_val (''0'' @ replicate k CHR ''0'' @ ds) = digits_val ds"
        by (simp only: digits_val_append digits_val_zeros mult_0 add_0)
      then show "of_nat (digits_val (''0'' @ (case Some (replicate k CHR ''0'' @ ds) of None \<Rightarrow> [] | Some f \<Rightarrow> f))) *
        10 powi ((case None of None \<Rightarrow> 0 | Some e \<Rightarrow> exponent_val e) - int (case Some (replicate k CHR ''0'' @ ds) of None \<Rightarrow> 0 | Some f \<Rightarrow> length f))
        = (of_nat (digits_val ds) * 10 powi e :: rat)"
        using k by (simp add: n_def [symmetric])
    qed (use dg(1) in \<open>simp_all add: all_digits_zeros, simp add: is_digit_def\<close>)
    with r show ?thesis by blast
  qed
qed

lemma scientific_text_reads:
  assumes "lead_digits ds"
  shows "reads_as (scientific_text ds e) (of_nat (digits_val ds) * 10 powi e)"
proof -
  define n ex where "n = length ds" and "ex = e + int n - 1"
  define ep where "ep = (if ex < 0 then CHR ''-'' else CHR ''+'') # pad_zero 2 (show_nat (nat \<bar>ex\<bar>))"
  define fp where "fp = (if n = 1 then None else Some (drop 1 ds))"
  have dg: "list_all is_digit ds" "0 < n" using assms by (simp_all add: lead_digits_def n_def)
  note ep = exponent_text [of ex, folded ep_def]
  show ?thesis
  proof (rule reads_as_text [of "take 1 ds" fp "Some ep"])
    show "scientific_text ds e = decimal_text (take 1 ds) fp (Some ep)"
      by (simp add: scientific_text_def decimal_text_def fp_def ep_def Let_def ex_def n_def)
    show "of_nat (digits_val (take 1 ds @ (case fp of None \<Rightarrow> [] | Some f \<Rightarrow> f))) *
        10 powi ((case Some ep of None \<Rightarrow> 0 | Some e \<Rightarrow> exponent_val e) - int (case fp of None \<Rightarrow> 0 | Some f \<Rightarrow> length f))
        = (of_nat (digits_val ds) * 10 powi e :: rat)"
    proof (cases "n = 1")
      case True
      then have "take 1 ds = ds" "ex = e" by (simp_all add: n_def ex_def)
      then show ?thesis using True by (simp add: fp_def ep(2))
    next
      case False
      have "ex - int (length (drop 1 ds)) = e" using dg(2) by (cases ds) (simp_all add: ex_def n_def)
      then show ?thesis using False by (simp add: fp_def ep(2) del: drop_Suc length_drop One_nat_def)
    qed
    show "take 1 ds \<noteq> []" using dg(2) by (auto simp: n_def)
    show "case fp of None \<Rightarrow> True | Some f \<Rightarrow> list_all is_digit f"
      using dg(1) by (auto simp: fp_def list_all_iff dest: in_set_dropD)
  qed (use dg(1) ep(1) in \<open>auto simp: list_all_iff dest: in_set_takeD\<close>)
qed

section \<open>Round trip\<close>

lemma shortest_digits_pos:
  assumes x: "0 < x" "round64 x = Fin x" and r: "shortest_digits x = (m, e)"
  shows "0 < m"
proof (rule ccontr)
  assume "\<not> 0 < m"
  then have "0 \<le> (- of_int m * 10 powi e :: rat)" by (intro mult_nonneg_nonneg) simp_all
  moreover have "round64 (- of_int m * 10 powi e) = Fin (- x)"
    using round64_minus [OF shortest_digits_reads [OF assms]] by simp
  ultimately have "0 \<le> - x" by (rule round64_nonneg)
  with x(1) show False by simp
qed

lemma std_to_chars_reads:
  assumes "x \<noteq> 0" "round64 x = Fin x"
  obtains t v where "std_to_chars (Fin x) = (if x < 0 then ''-'' else []) @ t" "reads_as t v" "round64 v = Fin \<bar>x\<bar>"
proof -
  define y where "y = \<bar>x\<bar>"
  have y: "0 < y" "round64 y = Fin y" using assms round64_minus [OF assms(2)] by (auto simp: y_def abs_if)
  obtain m e where me: "shortest_digits y = (m, e)" by fastforce
  have m: "0 < m" by (rule shortest_digits_pos [OF y me])
  define ds where "ds = show_int m"
  have ds: "lead_digits ds" "digits_val ds = nat m"
    using m show_nat_digits show_nat_hd_nonzero [of "nat m"]
    by (auto simp: ds_def show_int_def lead_digits_def list_all_iff)
  have r: "round64 (of_nat (digits_val ds) * 10 powi e) = Fin y"
    using shortest_digits_reads [OF y me] m by (simp add: ds(2))
  obtain t where t: "std_to_chars (Fin x) = (if x < 0 then ''-'' else []) @ t"
      "t = fixed_text y ds e \<or> t = scientific_text ds e"
    using std_to_chars_texts [OF assms(1) me [unfolded y_def]] by (metis ds_def y_def)
  then have "\<exists>v. reads_as t v \<and> round64 v = Fin y"
    using fixed_text_reads [OF y ds(1) r] scientific_text_reads [OF ds(1), of e] r by blast
  then show ?thesis using t(1) that by (auto simp: y_def)
qed

lemma digit_no_prefix: "is_digit d \<Longrightarrow> \<not> has_prefix_ci ''infinity'' (d # t) \<and> \<not> has_prefix_ci ''inf'' (d # t) \<and> \<not> has_prefix_ci ''nan'' (d # t)"
  by (auto simp: has_prefix_ci_def lower_char_def is_digit_def less_eq_char_def split: if_splits)

lemma from_chars_reads:
  assumes "reads_as t v" "round64 v = Fin y" "y = v \<or> 2 powi (- 1022) \<le> \<bar>y\<bar>"
  shows "from_chars_double t = Inr (Fin y, [])" "from_chars_double (CHR ''-'' # t) = Inr (Fin (- y), [])"
proof -
  obtain d ds where d: "t = d # ds" "is_digit d" using assms(1) by (cases t) (auto simp: reads_as_def)
  then have nm: "d \<noteq> CHR ''-''" by (auto simp: is_digit_def)
  have dp: "decimal_part (d # ds) = d # ds" "decimal_val (d # ds) = v" using assms(1) d(1) by (simp_all add: reads_as_def)
  note np = digit_no_prefix [OF d(2), of ds]
  show "from_chars_double t = Inr (Fin y, [])"
    using assms(2,3) np nm unfolding d(1) by (auto simp: from_chars_double_def dp Let_def)
  show "from_chars_double (CHR ''-'' # t) = Inr (Fin (- y), [])"
    using assms(3) np round64_minus [OF assms(2)] unfolding d(1) by (auto simp: from_chars_double_def dp Let_def)
qed

definition normal_double :: "rat \<Rightarrow> bool" where
  "normal_double x \<longleftrightarrow> round64 x = Fin x \<and> (x = 0 \<or> 2 powi (- 1022) \<le> \<bar>x\<bar>)"

text \<open>What is written is read back, unless the double is subnormal.\<close>

lemma infinity_survives_sql: "as_double_or d (param_double (Inf s)) = Inr (Inf s)"
  by (cases s) (simp_all, code_simp+)

lemma double_survives_sql:
  assumes "normal_double x"
  shows "as_double_or d (param_double (Fin x)) = Inr (Fin x)"
proof (cases "x = 0")
  case True
  have "from_string_double ''0'' = Inr (Fin 0)" by code_simp
  then show ?thesis by (simp add: True as_double_or_def param_double_def to_string_float_def std_to_chars_def)
next
  case False
  have x: "round64 x = Fin x" "2 powi (- 1022) \<le> \<bar>\<bar>x\<bar>\<bar>" using assms False by (simp_all add: normal_double_def)
  obtain t v where t: "std_to_chars (Fin x) = (if x < 0 then ''-'' else []) @ t" "reads_as t v" "round64 v = Fin \<bar>x\<bar>"
    using std_to_chars_reads [OF False x(1)] .
  note rd = from_chars_reads [OF t(2,3) disjI2 [OF x(2)]]
  have "from_chars_double (std_to_chars (Fin x)) = Inr (Fin x, [])"
    using rd unfolding t(1) by (cases "x < 0") simp_all
  moreover have "dropWhile (\<lambda>c. c = CHR '' '' \<or> c = CHR 0x09) (std_to_chars (Fin x)) = std_to_chars (Fin x)"
    using t(2) unfolding t(1) by (cases t) (auto simp: reads_as_def is_digit_def)
  ultimately show ?thesis
    by (simp add: as_double_or_def param_double_def to_string_float_def from_string_double_def from_string_arithmetic_def)
qed

end
