(* ===== verification/Database_Rows.thy ===== *)
theory Database_Rows
  imports Database Pqxx_Double
begin

text \<open>
  The columns that a write sends and the columns that a read converts: what \<open>addServiceRecord\<close> writes is
  what \<open>getAllServiceRecords\<close> reads, column by column.
\<close>

definition record_fits :: "ServiceRecord \<Rightarrow> bool" where
  "record_fits r \<longleftrightarrow>
     - (2 ^ 31) \<le> sr_device_id r \<and> sr_device_id r < 2 ^ 31 \<and> - (2 ^ 31) \<le> sr_service_id r \<and> sr_service_id r < 2 ^ 31 \<and>
     (case sr_cost r of Fin x \<Rightarrow> normal_double x | Inf _ \<Rightarrow> True | NaN \<Rightarrow> False) \<and>
     CHR 0x00 \<notin> set (sr_service_date r) \<and> CHR 0x00 \<notin> set (sr_notes r) \<and> CHR 0x00 \<notin> set (sr_next_due_date r)"

lemma int_survives_sql: "- (2 ^ 31) \<le> i \<Longrightarrow> i < 2 ^ 31 \<Longrightarrow> as_int (param_int i) = Inr i"
  by (simp add: as_int_def param_int_def from_string_to_string_int)

lemma no_nul: "CHR 0x00 \<notin> set s \<Longrightarrow> takeWhile (\<lambda>c. c \<noteq> CHR 0x00) s = s"
  by (auto simp: takeWhile_eq_all_conv)

lemma string_survives_sql:
  assumes "CHR 0x00 \<notin> set s"
  shows "as_string (param_string s) = Inr s" "as_string_or d (param_string s) = Inr s"
    "as_string_or [] (null_if_empty s) = Inr s"
  by (simp_all add: as_string_def as_string_or_def param_string_def null_if_empty_def param_c_str_def
      no_nul [OF assms])

text \<open>
  C5. Writing and reading a service record agree: the parameters of the INSERT, in the order of the
  columns, are converted back to the same record by the row reader of the SELECT. The record has
  32-bit ids (the lowest one included), a cost that is zero, infinite or not subnormal, and date,
  notes and due date without NUL bytes; the due date travels as null when it is empty.
\<close>

theorem record_sql_roundtrip:
  assumes "record_fits r" "- (2 ^ 31) \<le> i" "i < 2 ^ 31"
  shows "read_service_record (param_int i # record_params r) = Inr (r\<lparr>sr_id := i\<rparr>)"
proof -
  have cost: "as_double_or (Fin 0) (param_double (sr_cost r)) = Inr (sr_cost r)"
    using assms(1) double_survives_sql infinity_survives_sql
    by (cases "sr_cost r") (simp_all only: record_fits_def double.case simp_thms)
  have ints: "as_int (param_int (sr_device_id r)) = Inr (sr_device_id r)" "as_int (param_int (sr_service_id r)) = Inr (sr_service_id r)"
    using assms(1) by (simp_all add: int_survives_sql record_fits_def)
  have texts: "CHR 0x00 \<notin> set (sr_service_date r)" "CHR 0x00 \<notin> set (sr_notes r)" "CHR 0x00 \<notin> set (sr_next_due_date r)"
    using assms(1) by (simp_all add: record_fits_def)
  show ?thesis
    by (simp add: read_service_record_def record_params_def field_at_def int_survives_sql [OF assms(2,3)] cost ints
        texts [THEN string_survives_sql(1)] texts [THEN string_survives_sql(2)] texts [THEN string_survives_sql(3)])
qed

definition costly_record :: ServiceRecord where
  "costly_record = \<lparr>sr_id = 0, sr_device_id = - 2147483648, sr_service_id = 2, sr_service_date = ''2024-05-01'',
     sr_cost = Fin (199 / 2), sr_notes = [], sr_next_due_date = []\<rparr>"

theorem record_sql_roundtrip_witness:
  "read_service_record (param_int 7 # record_params costly_record) = Inr (costly_record\<lparr>sr_id := 7\<rparr>)"
proof -
  have "round64 (199 / 2) = Fin (199 / 2)" by code_simp
  then have "normal_double (199 / 2)" by (simp add: normal_double_def power_int_minus field_simps)
  then have "record_fits costly_record" by (simp add: record_fits_def costly_record_def)
  from record_sql_roundtrip [OF this, of 7] show ?thesis by simp
qed

end
