(* ===== verification/Database_Props.thy ===== *)
theory Database_Props
  imports Database
begin

text \<open>
  Properties of the database layer for an arbitrary libpq and server: every operation gives its
  transaction back, a connection that is in use refuses a second transaction without a word to the
  server, a write reports success exactly when its commit was acknowledged, and a read returns the
  rows before the first one that cannot be converted.
\<close>

section \<open>Registration\<close>

lemma connection_exec_trans [simp]:
  "m_trans (snd (connection_exec lq q c)) = m_trans c"
  "m_trans (snd (connection_exec_params lq q args c)) = m_trans c"
  by (simp_all add: connection_exec_def connection_exec_params_def finish_exec_def get_notifs_def
      case_prod_unfold Let_def split: sum.split)

text \<open>
  The invariant of a transaction object: no error is pending, and a transaction that has been
  closed is not registered with the connection.
\<close>

definition work_inv :: "'s work \<Rightarrow> bool" where
  "work_inv w \<longleftrightarrow> m_pending_error w = [] \<and> (m_registered w \<or> m_trans (w_conn w) = None)"

lemma wbind_simps [simp]:
  "wbind (Inl e, w) f = (Inl e, w)" "wbind (Inr x, w) f = f x w"
  by (simp_all add: wbind_def)

lemma pending_ok [simp]: "m_pending_error w = [] \<Longrightarrow> check_pending_error w = (Inr (), w)"
  by (simp add: check_pending_error_def)

lemma direct_exec_eq:
  "m_pending_error w = [] \<Longrightarrow>
   direct_exec lq q w = (fst (connection_exec lq q (w_conn w)), w\<lparr>w_conn := snd (connection_exec lq q (w_conn w))\<rparr>)"
  by (simp add: direct_exec_def case_prod_unfold Let_def)

lemma work_exec_eq:
  "m_pending_error w = [] \<Longrightarrow> m_focus w = None \<Longrightarrow> m_status w = st_active \<Longrightarrow>
   work_exec lq q w = (fst (connection_exec lq q (w_conn w)), w\<lparr>w_conn := snd (connection_exec lq q (w_conn w))\<rparr>)"
  by (simp add: work_exec_def register_focus_def check_unique_register_def direct_exec_eq unregister_focus_def)

lemma work_exec_params_eq:
  "m_focus w = None \<Longrightarrow>
   work_exec_params lq q args w =
     (fst (connection_exec_params lq q args (w_conn w)), w\<lparr>w_conn := snd (connection_exec_params lq q args (w_conn w))\<rparr>)"
  by (simp add: work_exec_params_def register_focus_def check_unique_register_def unregister_focus_def
      case_prod_unfold Let_def)

lemma close_registration_fields [simp]:
  "m_status (close_registration w) = m_status w"
  "m_pending_error (close_registration w) = []"
  "m_conn (w_conn (close_registration w)) = m_conn (w_conn w)"
  by (simp_all add: close_registration_def check_pending_error_def unregister_transaction_def Let_def)

lemma close_registration_trans: "work_inv w \<Longrightarrow> m_trans (w_conn (close_registration w)) = None"
  by (auto simp: close_registration_def work_inv_def unregister_transaction_def Let_def)

lemma work_close_eq:
  "work_close lq w =
     (if m_status w = st_active
      then close_registration ((snd (direct_exec lq ''ROLLBACK'' (close_registration w)))\<lparr>m_status := st_aborted\<rparr>)
      else close_registration w)"
  by (simp add: work_close_def work_abort_def do_abort_def Let_def)

lemma work_close_trans:
  assumes "work_inv w"
  shows "m_trans (w_conn (work_close lq w)) = None"
  using close_registration_trans [OF assms]
  by (simp add: work_close_eq direct_exec_eq close_registration_trans work_inv_def)

lemma work_commit_eq:
  assumes "m_pending_error w = []" "m_focus w = None" "m_status w = st_active" "is_open lq (w_conn w)"
  shows "work_commit lq w = finish_commit lq (do_commit lq w)"
  using assms by (simp add: work_commit_def)

lemma do_commit_conn:
  "m_pending_error w = [] \<Longrightarrow> snd (do_commit lq w) = w\<lparr>w_conn := snd (connection_exec lq ''COMMIT'' (w_conn w))\<rparr>"
  by (simp add: do_commit_def direct_exec_eq split: sum.split pq_exn.split)

lemma do_commit_Inr:
  "m_pending_error w = [] \<Longrightarrow>
   fst (do_commit lq w) = Inr u \<longleftrightarrow> (\<exists>r. fst (connection_exec lq ''COMMIT'' (w_conn w)) = Inr r)"
  by (auto simp: do_commit_def direct_exec_eq split: sum.split pq_exn.split)

lemma work_inv_conn_update:
  "work_inv w \<Longrightarrow> m_trans c = m_trans (w_conn w) \<Longrightarrow> work_inv (w\<lparr>w_conn := c\<rparr>)"
  "work_inv (w\<lparr>m_status := s\<rparr>) = work_inv w"
  by (simp_all add: work_inv_def)

lemma work_inv_close [simp]: "work_inv w \<Longrightarrow> work_inv (work_close lq w)"
  using work_close_trans [of w lq] by (simp add: work_inv_def work_close_eq)

lemma work_inv_commit:
  assumes "work_inv w"
  shows "work_inv (snd (work_commit lq w))"
proof -
  have pend: "m_pending_error w = []" using assms by (simp add: work_inv_def)
  have inv: "work_inv (snd (do_commit lq w))"
    using assms by (simp add: do_commit_conn pend work_inv_conn_update(1))
  then have "work_inv (snd (finish_commit lq (do_commit lq w)))"
    by (auto simp: finish_commit_def work_inv_conn_update(2) split: sum.split pq_exn.split)
  with assms pend show ?thesis by (simp add: work_commit_def split: status.split)
qed

lemma work_inv_exec: "work_inv w \<Longrightarrow> work_inv (snd (work_exec lq q w))"
  by (auto simp: work_exec_def register_focus_def unregister_focus_def work_inv_def direct_exec_eq wbind_def
      split: option.splits)

lemma work_inv_exec_params: "work_inv w \<Longrightarrow> work_inv (snd (work_exec_params lq q args w))"
  by (auto simp: work_exec_params_def register_focus_def unregister_focus_def work_inv_def wbind_def
      case_prod_unfold Let_def split: option.splits)

lemma new_work_free:
  assumes "m_trans c = None"
  shows "new_work lq t c =
    (let (r, c') = connection_exec lq ''BEGIN'' (c\<lparr>m_trans := Some t\<rparr>)
     in case r of
          Inl e \<Rightarrow> (Inl e, c'\<lparr>m_trans := None\<rparr>)
        | Inr _ \<Rightarrow> (Inr \<lparr>w_conn = c', w_this = t, m_status = st_active, m_registered = True,
                       m_pending_error = [], m_focus = None\<rparr>, c'))"
  using assms
  by (simp add: new_work_def register_transaction_def check_unique_register_def direct_exec_eq
      unregister_transaction_def case_prod_unfold Let_def split: sum.split)

lemma new_work_busy:
  assumes "m_trans c = Some g"
  shows "\<exists>m. new_work lq t c = (Inl (usage_error m), c)"
  using assms by (simp add: new_work_def register_transaction_def check_unique_register_def)

section \<open>Blocks with a transaction\<close>

text \<open>
  What a block has to promise, so that the transaction around it is always given back: it keeps
  the invariant of the transaction object on every path.
\<close>

locale work_block =
  fixes lq :: "'s libpq" and body :: "'s work \<Rightarrow> ('s, 'a) wres"
  assumes keeps_inv: "work_inv w \<Longrightarrow> work_inv (snd (body w))"
begin

lemma with_work_releases:
  assumes "m_trans c = None"
  shows "m_trans (snd (with_work lq t body c)) = None"
proof -
  obtain r c' where b: "connection_exec lq ''BEGIN'' (c\<lparr>m_trans := Some t\<rparr>) = (r, c')" by fastforce
  show ?thesis
  proof (cases r)
    case (Inl e)
    then show ?thesis by (simp add: with_work_def new_work_free assms b)
  next
    case (Inr x)
    let ?w = "\<lparr>w_conn = c', w_this = t, m_status = st_active, m_registered = True, m_pending_error = [], m_focus = None\<rparr>"
    have "work_inv (snd (body ?w))" by (rule keeps_inv) (simp add: work_inv_def)
    then show ?thesis
      using Inr by (simp add: with_work_def new_work_free assms b case_prod_unfold Let_def work_close_trans)
  qed
qed

lemma block_releases:
  assumes "conn db = Some c" "m_trans c = None"
  shows "\<exists>r c' db'. db_block lq body db = Some (r, db') \<and> conn db' = Some c' \<and> m_trans c' = None"
  using with_work_releases [OF assms(2), of 0] assms(1) by (simp add: db_block_def case_prod_unfold Let_def)

lemma block_busy:
  assumes "conn db = Some c" "m_trans c = Some g"
  shows "\<exists>m. db_block lq body db = Some (Inl (usage_error m), db)"
  using assms new_work_busy [OF assms(2), of lq 0] by (auto simp: db_block_def with_work_def)

end

interpretation test_block: work_block lq "test_body lq" for lq :: "'s libpq"
proof
  show "work_inv w \<Longrightarrow> work_inv (snd (test_body lq w))" for w :: "'s work"
    using work_inv_exec [of w lq "''SELECT 1''"] by (simp add: test_body_def wbind_def split: sum.split)
qed

interpretation update_block: work_block lq "update_body lq query args" for lq :: "'s libpq" and query args
proof
  show "work_inv w \<Longrightarrow> work_inv (snd (update_body lq query args w))" for w :: "'s work"
    using work_inv_exec_params [of w lq query args]
    by (simp add: update_body_def wbind_def work_inv_commit split: sum.split)
qed

interpretation fetch_block: work_block lq "fetch_body lq query read" for lq :: "'s libpq" and query read
proof
  show "work_inv w \<Longrightarrow> work_inv (snd (fetch_body lq query read w))" for w :: "'s work"
    using work_inv_exec [of w lq query]
    by (simp add: fetch_body_def case_prod_unfold Let_def work_inv_commit split: sum.split option.split)
qed

section \<open>Operations in sequence\<close>

datatype db_op = TestConnection | GetAllDevices | AddDevice Device | UpdateDevice int Device
  | DeleteDevice int | GetAllServiceTypes | AddServiceType ServiceType
  | UpdateServiceType int ServiceType | DeleteServiceType int | GetAllServiceRecords
  | AddServiceRecord ServiceRecord | UpdateServiceRecord int ServiceRecord | DeleteServiceRecord int
  | GetDetailedServiceHistory

text \<open>The state after an operation; \<open>None\<close> is undefined behaviour.\<close>

fun run_op :: "'s libpq \<Rightarrow> db_op \<Rightarrow> 's database \<Rightarrow> 's database option" where
  "run_op lq TestConnection db = map_option snd (testConnection lq db)"
| "run_op lq GetAllDevices db = map_option snd (getAllDevices lq db)"
| "run_op lq (AddDevice d) db = map_option snd (addDevice lq d db)"
| "run_op lq (UpdateDevice i d) db = map_option snd (updateDevice lq i d db)"
| "run_op lq (DeleteDevice i) db = map_option snd (deleteDevice lq i db)"
| "run_op lq GetAllServiceTypes db = map_option snd (getAllServiceTypes lq db)"
| "run_op lq (AddServiceType t) db = map_option snd (addServiceType lq t db)"
| "run_op lq (UpdateServiceType i t) db = map_option snd (updateServiceType lq i t db)"
| "run_op lq (DeleteServiceType i) db = map_option snd (deleteServiceType lq i db)"
| "run_op lq GetAllServiceRecords db = map_option snd (getAllServiceRecords lq db)"
| "run_op lq (AddServiceRecord r) db = map_option snd (addServiceRecord lq r db)"
| "run_op lq (UpdateServiceRecord i r) db = map_option snd (updateServiceRecord lq i r db)"
| "run_op lq (DeleteServiceRecord i) db = map_option snd (deleteServiceRecord lq i db)"
| "run_op lq GetDetailedServiceHistory db = map_option snd (getDetailedServiceHistory lq db)"

fun run_ops :: "'s libpq \<Rightarrow> db_op list \<Rightarrow> 's database \<Rightarrow> 's database option" where
  "run_ops lq [] db = Some db"
| "run_ops lq (op # ops) db = Option.bind (run_op lq op db) (run_ops lq ops)"

text \<open>A connection that is there and has no transaction registered.\<close>

definition db_free :: "'s database \<Rightarrow> bool" where
  "db_free db \<longleftrightarrow> (case conn db of None \<Rightarrow> False | Some c \<Rightarrow> m_trans c = None)"

lemma catch_bool_conn:
  "r = Some (x, db) \<Longrightarrow> \<exists>b db'. catch_bool m r = Some (b, db') \<and> conn db' = conn db"
  by (auto simp: catch_bool_def split: sum.split)

lemma fetch_op_conn:
  "db_block lq (fetch_body lq q read) db = Some (x, db1) \<Longrightarrow>
   \<exists>xs db'. fetch_op lq m q read db = Some (xs, db') \<and> conn db' = conn db1"
  by (auto simp: fetch_op_def case_prod_unfold Let_def split: option.split)

lemma update_op_free:
  assumes "db_free db"
  shows "\<exists>b db'. update_op lq m q args db = Some (b, db') \<and> db_free db'"
proof -
  from assms obtain c where c: "conn db = Some c" "m_trans c = None" by (auto simp: db_free_def split: option.splits)
  from update_block.block_releases [OF c, of lq q args] obtain r c' db'
    where b: "db_block lq (update_body lq q args) db = Some (r, db')" "conn db' = Some c'" "m_trans c' = None"
    by blast
  from catch_bool_conn [OF b(1), of m] b show ?thesis by (auto simp: update_op_def db_free_def)
qed

lemma fetch_op_free:
  assumes "db_free db"
  shows "\<exists>xs db'. fetch_op lq m q read db = Some (xs, db') \<and> db_free db'"
proof -
  from assms obtain c where c: "conn db = Some c" "m_trans c = None" by (auto simp: db_free_def split: option.splits)
  from fetch_block.block_releases [OF c, of lq q read] obtain r c' db'
    where b: "db_block lq (fetch_body lq q read) db = Some (r, db')" "conn db' = Some c'" "m_trans c' = None"
    by blast
  from fetch_op_conn [OF b(1), of m] b show ?thesis by (auto simp: db_free_def)
qed

lemma testConnection_free:
  assumes "db_free db"
  shows "\<exists>b db'. testConnection lq db = Some (b, db') \<and> db_free db'"
proof -
  from assms obtain c where c: "conn db = Some c" "m_trans c = None" by (auto simp: db_free_def split: option.splits)
  from test_block.block_releases [OF c, of lq] obtain r c' db'
    where b: "db_block lq (test_body lq) db = Some (r, db')" "conn db' = Some c'" "m_trans c' = None"
    by blast
  from catch_bool_conn [OF b(1)] b show ?thesis by (fastforce simp: testConnection_def db_free_def)
qed

lemmas db_op_defs = getAllDevices_def addDevice_def updateDevice_def deleteDevice_def
  getAllServiceTypes_def addServiceType_def updateServiceType_def deleteServiceType_def
  getAllServiceRecords_def addServiceRecord_def updateServiceRecord_def deleteServiceRecord_def
  getDetailedServiceHistory_def

lemma frees:
  assumes "db_free db"
  shows "\<exists>db'. map_option snd (testConnection lq db) = Some db' \<and> db_free db'"
    and "\<exists>db'. map_option snd (update_op lq m q args db) = Some db' \<and> db_free db'"
    and "\<exists>db'. map_option snd (fetch_op lq m q read db) = Some db' \<and> db_free db'"
    and "\<exists>db'. map_option snd (map_option (apfst f) (fetch_op lq m q read db)) = Some db' \<and> db_free db'"
  using testConnection_free [OF assms, of lq] update_op_free [OF assms, of lq m q args]
    fetch_op_free [OF assms, of lq m q read] by auto

lemma run_op_free: "db_free db \<Longrightarrow> \<exists>db'. run_op lq op db = Some db' \<and> db_free db'"
  by (cases op) (simp_all only: run_op.simps db_op_defs frees simp_thms)

lemma run_ops_free: "db_free db \<Longrightarrow> \<exists>db'. run_ops lq ops db = Some db' \<and> db_free db'"
proof (induction ops arbitrary: db)
  case (Cons op ops)
  from run_op_free [OF Cons.prems, of lq op] obtain db1 where "run_op lq op db = Some db1" "db_free db1" by blast
  with Cons.IH show ?case by simp
qed simp

section \<open>A connection in use\<close>

lemma busy_ops:
  assumes "conn db = Some c" "m_trans c = Some g"
  shows "\<exists>l. update_op lq m q args db = Some (False, print_line l db)"
    and "\<exists>l. fetch_op lq m q read db = Some ([], print_line l db)"
    and "\<exists>l. testConnection lq db = Some (False, print_line l db)"
  using update_block.block_busy [OF assms, of lq q args] fetch_block.block_busy [OF assms, of lq q read]
    test_block.block_busy [OF assms, of lq]
  by (auto simp: update_op_def testConnection_def catch_bool_def fetch_op_def)

lemma busy_history:
  assumes "conn db = Some c" "m_trans c = Some g"
  shows "\<exists>l. map_option (apfst JArray) (fetch_op lq m q read db) = Some (JArray [], print_line l db)"
  using busy_ops(2) [OF assms, of lq m q read] by auto

section \<open>Commands sent to the server\<close>

text \<open>
  A libpq that keeps a record of the commands it is given, for statements about what an operation
  sends. It answers like the libpq it wraps.
\<close>

datatype command = Cmd string | CmdParams string "string option list"

definition traced :: "'s libpq \<Rightarrow> ('s \<times> command list) libpq" where
  "traced lq = \<lparr>
     PQconnectdb = (\<lambda>str. (PQconnectdb lq str, [])),
     PQstatus_ok = (\<lambda>s. PQstatus_ok lq (fst s)),
     PQprotocolVersion = (\<lambda>s. PQprotocolVersion lq (fst s)),
     PQserverVersion = (\<lambda>s. PQserverVersion lq (fst s)),
     PQerrorMessage = (\<lambda>s. PQerrorMessage lq (fst s)),
     PQclientEncoding = (\<lambda>s. PQclientEncoding lq (fst s)),
     PQexec = (\<lambda>q s. let (r, s') = PQexec lq q (fst s) in (r, (s', snd s @ [Cmd q]))),
     PQexecParams = (\<lambda>q args s. let (r, s') = PQexecParams lq q args (fst s) in (r, (s', snd s @ [CmdParams q args]))),
     PQconsumeInput = (\<lambda>s. let (b, s') = PQconsumeInput lq (fst s) in (b, (s', snd s)))\<rparr>"

abbreviation trace :: "('s \<times> command list) connection \<Rightarrow> command list" where
  "trace c \<equiv> snd (m_conn c)"

lemma trace_exec [simp]:
  "trace (snd (connection_exec (traced lq) q c)) = trace c @ [Cmd q]"
  "trace (snd (connection_exec_params (traced lq) q args c)) = trace c @ [CmdParams q args]"
  by (simp_all add: connection_exec_def connection_exec_params_def finish_exec_def get_notifs_def traced_def
      case_prod_unfold Let_def split: sum.split)

definition open_work :: "'s work \<Rightarrow> bool" where
  "open_work w \<longleftrightarrow> m_pending_error w = [] \<and> m_focus w = None \<and> m_status w = st_active"

lemma trace_close:
  "trace (w_conn (work_close (traced lq) w)) =
     trace (w_conn w) @ (if m_status w = st_active then [Cmd ''ROLLBACK''] else [])"
  by (simp add: work_close_eq direct_exec_eq)

text \<open>A commit that succeeds sends \<open>COMMIT\<close>; one that throws may leave the rollback to the destructor.\<close>

lemma trace_commit:
  assumes "open_work w" "work_commit (traced lq) w = (r, w')"
  shows "if is_open (traced lq) (w_conn w)
         then trace (w_conn w') = trace (w_conn w) @ [Cmd ''COMMIT''] \<and> m_status w' \<noteq> st_active \<and>
           ((\<exists>u. r = Inr u) \<longleftrightarrow> (\<exists>x. fst (connection_exec (traced lq) ''COMMIT'' (w_conn w)) = Inr x))
         else w' = w \<and> (\<exists>e. r = Inl e)"
proof -
  have w: "m_pending_error w = []" "m_focus w = None" "m_status w = st_active"
    using assms(1) by (simp_all add: open_work_def)
  show ?thesis
  proof (cases "is_open (traced lq) (w_conn w)")
    case False
    with assms(2) w show ?thesis by (auto simp: work_commit_def)
  next
    case True
    obtain d w1 where d: "do_commit (traced lq) w = (d, w1)" by fastforce
    have w1: "w1 = w\<lparr>w_conn := snd (connection_exec (traced lq) ''COMMIT'' (w_conn w))\<rparr>"
      using do_commit_conn [OF w(1), of "traced lq"] d by simp
    have fin: "(r, w') = finish_commit (traced lq) (d, w1)"
      using assms(2) work_commit_eq [OF w True] d by simp
    have ok: "(\<exists>u. d = Inr u) \<longleftrightarrow> (\<exists>x. fst (connection_exec (traced lq) ''COMMIT'' (w_conn w)) = Inr x)"
      using do_commit_Inr [OF w(1), of "traced lq"] d by (metis fst_conv)
    have "trace (w_conn w') = trace (w_conn w1) \<and> m_status w' \<noteq> st_active \<and> ((\<exists>u. r = Inr u) \<longleftrightarrow> (\<exists>u. d = Inr u))"
      using fin by (auto simp: finish_commit_def work_close_eq split: sum.splits pq_exn.splits)
    with True ok show ?thesis by (simp add: w1)
  qed
qed

text \<open>
  The commands of a write, by the answers of the server: nothing follows a failed \<open>BEGIN\<close>; a failed
  statement, or a connection lost before the commit, is followed by \<open>ROLLBACK\<close>; otherwise \<open>COMMIT\<close>
  is sent and its answer decides the result.
\<close>

lemma update_block_trace:
  assumes free: "m_trans c = None"
    and bg: "connection_exec (traced lq) ''BEGIN'' (c\<lparr>m_trans := Some t\<rparr>) = (b, c1)"
    and ex: "connection_exec_params (traced lq) q args c1 = (s, c2)"
    and cm: "connection_exec (traced lq) ''COMMIT'' c2 = (k, c3)"
  obtains x c' cmds where "with_work (traced lq) t (update_body (traced lq) q args) c = (x, c')"
    "trace c' = trace c @ cmds"
    "if isl b then isl x \<and> cmds = [Cmd ''BEGIN'']
     else if isl s \<or> \<not> is_open (traced lq) c2
     then isl x \<and> cmds = [Cmd ''BEGIN'', CmdParams q args, Cmd ''ROLLBACK'']
     else isl x = isl k \<and> cmds = [Cmd ''BEGIN'', CmdParams q args, Cmd ''COMMIT'']"
proof -
  let ?lq = "traced lq"
  have tr1: "trace c1 = trace c @ [Cmd ''BEGIN'']"
    using trace_exec(1) [of lq "''BEGIN''" "c\<lparr>m_trans := Some t\<rparr>"] bg by simp
  show ?thesis
  proof (cases b)
    case (Inl e)
    with bg tr1 show ?thesis
      by (intro that [of "Inl e" "c1\<lparr>m_trans := None\<rparr>"]) (simp_all add: with_work_def new_work_free free)
  next
    case (Inr x)
    let ?w = "\<lparr>w_conn = c1, w_this = t, m_status = st_active, m_registered = True, m_pending_error = [], m_focus = None\<rparr>"
    have tr2: "trace c2 = trace c @ [Cmd ''BEGIN'', CmdParams q args]"
      using trace_exec(2) [of lq q args c1] ex tr1 by simp
    have ww: "with_work ?lq t (update_body ?lq q args) c =
        (let (r, w) = update_body ?lq q args ?w in (r, w_conn (work_close ?lq w)))"
      using Inr bg by (simp add: with_work_def new_work_free free)
    let ?w2 = "?w\<lparr>w_conn := c2\<rparr>"
    have exp: "work_exec_params ?lq q args ?w = (s, ?w2)"
      using ex by (simp add: work_exec_params_eq)
    show ?thesis
    proof (cases s)
      case (Inl e)
      with ww exp tr2 \<open>b = Inr x\<close> show ?thesis
        by (intro that [of "Inl e" "w_conn (work_close ?lq ?w2)"]) (simp_all add: update_body_def trace_close)
    next
      case (Inr y)
      obtain r w3 where cw: "work_commit ?lq ?w2 = (r, w3)" by fastforce
      have "open_work ?w2" by (simp add: open_work_def)
      note t = trace_commit [OF this cw]
      have isl_iff: "isl z \<longleftrightarrow> \<not> (\<exists>u. z = Inr u)" for z :: "'x + 'y"
        by (cases z) simp_all
      have wx: "with_work ?lq t (update_body ?lq q args) c = (r, w_conn (work_close ?lq w3))"
        using ww exp Inr cw by (simp add: update_body_def)
      show ?thesis
      proof (cases "is_open ?lq c2")
        case True
        with t cm have "trace (w_conn w3) = trace c2 @ [Cmd ''COMMIT'']" "m_status w3 \<noteq> st_active" "isl r = isl k"
          by (simp_all add: isl_iff)
        with wx tr2 \<open>b = Inr x\<close> Inr True show ?thesis
          by (intro that [of r "w_conn (work_close ?lq w3)"]) (simp_all add: trace_close)
      next
        case False
        with t have "w3 = ?w2" "isl r" by auto
        with wx tr2 \<open>b = Inr x\<close> Inr False show ?thesis
          by (intro that [of r "w_conn (work_close ?lq w3)"]) (simp_all add: trace_close)
      qed
    qed
  qed
qed

section \<open>Rows\<close>

lemma read_rows_all: "read_rows read rows = (None, xs) \<longleftrightarrow> map read rows = map Inr xs"
proof (induction rows arbitrary: xs)
  case (Cons row rows)
  obtain e ys where r: "read_rows read rows = (e, ys)" by fastforce
  have "(e, ys) = (None, zs) \<longleftrightarrow> map read rows = map Inr zs" for zs using Cons.IH [of zs] r by simp
  then show ?case by (cases xs) (auto simp: r split: sum.splits)
qed auto

lemma read_rows_prefix:
  "read_rows read rows = (Some e, xs) \<Longrightarrow>
   \<exists>bad rest good. rows = good @ bad # rest \<and> map read good = map Inr xs \<and> read bad = Inl e"
proof (induction rows arbitrary: xs)
  case (Cons row rows)
  show ?case
  proof (cases "read row")
    case (Inl e')
    with Cons.prems show ?thesis by (intro exI [of _ row] exI [of _ rows] exI [of _ "[]"]) simp
  next
    case (Inr x)
    with Cons.prems obtain ys where ys: "read_rows read rows = (Some e, ys)" "xs = x # ys"
      by (auto simp: case_prod_unfold Let_def prod_eq_iff)
    from Cons.IH [OF ys(1)] obtain bad rest good
      where "rows = good @ bad # rest" "map read good = map Inr ys" "read bad = Inl e" by blast
    with Inr ys(2) show ?thesis
      by (intro exI [of _ bad] exI [of _ rest] exI [of _ "row # good"]) simp
  qed
qed simp

lemma fetch_op_prefix:
  assumes c: "conn db = Some c" "m_trans c = None"
    and bg: "connection_exec lq ''BEGIN'' (c\<lparr>m_trans := Some 0\<rparr>) = (Inr b, c1)"
    and ex: "connection_exec lq q c1 = (Inr res, c2)"
    and r: "fetch_op lq m q read db = Some (xs, db')"
  shows "xs = snd (read_rows read (pg_rows res))"
proof -
  let ?w = "\<lparr>w_conn = c1, w_this = 0, m_status = st_active, m_registered = True, m_pending_error = [], m_focus = None\<rparr>"
  have exec: "work_exec lq q ?w = (Inr res, ?w\<lparr>w_conn := c2\<rparr>)" using ex by (simp add: work_exec_eq)
  have "with_work lq 0 (fetch_body lq q read) c =
      (let (r, w) = fetch_body lq q read ?w in (r, w_conn (work_close lq w)))"
    using bg by (simp add: with_work_def new_work_free c)
  moreover have "\<exists>e w. fetch_body lq q read ?w = (Inr (e, snd (read_rows read (pg_rows res))), w)"
    by (cases "read_rows read (pg_rows res)")
      (auto simp: fetch_body_def exec case_prod_unfold Let_def split: option.split)
  ultimately show ?thesis
    using r c(1) by (auto simp: fetch_op_def db_block_def)
qed

lemma read_rows_split:
  obtains good rest where "rows = good @ rest" "map read good = map Inr (snd (read_rows read rows))"
    "rest = [] \<or> (\<exists>e. read (hd rest) = Inl e)"
proof (cases "fst (read_rows read rows)")
  case None
  then have "map read rows = map Inr (snd (read_rows read rows))"
    by (metis read_rows_all prod.collapse)
  with that [of rows "[]"] show ?thesis by simp
next
  case (Some e)
  then have "read_rows read rows = (Some e, snd (read_rows read rows))" by (metis prod.collapse)
  from read_rows_prefix [OF this] obtain bad rest good
    where g: "rows = good @ bad # rest" "map read good = map Inr (snd (read_rows read rows))" "read bad = Inl e" by blast
  then show ?thesis by (intro that [of good "bad # rest"]) auto
qed

section \<open>Theorems\<close>

text \<open>A server for the examples: it answers every command, and each query with the same rows.\<close>

definition example_answer :: "string option list list \<Rightarrow> pg_result option \<times> unit" where
  "example_answer rows = (Some \<lparr>pg_status = PGRES_TUPLES_OK, pg_rows = rows, pg_error = [], pg_sqlstate = None\<rparr>, ())"

definition example_libpq :: "string option list list \<Rightarrow> unit libpq" where
  "example_libpq rows = \<lparr>
     PQconnectdb = (\<lambda>_. ()), PQstatus_ok = (\<lambda>_. True), PQprotocolVersion = (\<lambda>_. 3),
     PQserverVersion = (\<lambda>_. 140000), PQerrorMessage = (\<lambda>_. []), PQclientEncoding = (\<lambda>_. Some ''UTF8''),
     PQexec = (\<lambda>q s. example_answer rows), PQexecParams = (\<lambda>q a s. example_answer []),
     PQconsumeInput = (\<lambda>s. (True, s))\<rparr>"

definition example_record :: ServiceRecord where
  "example_record = \<lparr>sr_id = 0, sr_device_id = 1, sr_service_id = 2, sr_service_date = ''2024-05-01'',
     sr_cost = Fin 10, sr_notes = [], sr_next_due_date = []\<rparr>"

text \<open>
  C3. Once the constructor has a connection, every sequence of operations of the database class runs
  without undefined behaviour, whatever libpq and the server answer (errors and lost connections
  included), and leaves the connection with no transaction registered, ready for the next one.
\<close>

theorem operations_release_connection:
  assumes "db_connect lq (new_database lq conn_str)"
  shows "\<exists>db. run_ops lq ops (new_database lq conn_str) = Some db \<and> db_free db"
proof (rule run_ops_free)
  show "db_free (new_database lq conn_str)"
    using assms
    by (auto simp: new_database_def new_connection_def db_connect_def db_free_def Let_def
        split: sum.splits option.splits if_splits)
qed

theorem operations_release_connection_witness:
  "\<exists>db. run_ops (example_libpq []) [TestConnection, GetAllDevices] (new_database (example_libpq []) ''host=db'') = Some db \<and> db_free db"
  by (rule operations_release_connection)
    (simp add: new_database_def new_connection_def db_connect_def is_open_def set_up_state_def example_libpq_def)

text \<open>
  C6. While a transaction is registered with the connection (the connection is shared by all
  request threads), each of the fourteen operations fails: the test and the writes report
  \<open>false\<close>, the reads return no rows, one line is printed to the console, and the connection with
  its session is unchanged, so that no command was sent.
\<close>

theorem busy_connection_refuses:
  assumes "conn db = Some c" "m_trans c = Some g"
  shows "(\<exists>l. testConnection lq db = Some (False, print_line l db)) \<and>
    (\<exists>l. getAllDevices lq db = Some ([], print_line l db)) \<and>
    (\<exists>l. addDevice lq d db = Some (False, print_line l db)) \<and>
    (\<exists>l. updateDevice lq i d db = Some (False, print_line l db)) \<and>
    (\<exists>l. deleteDevice lq i db = Some (False, print_line l db)) \<and>
    (\<exists>l. getAllServiceTypes lq db = Some ([], print_line l db)) \<and>
    (\<exists>l. addServiceType lq ty db = Some (False, print_line l db)) \<and>
    (\<exists>l. updateServiceType lq i ty db = Some (False, print_line l db)) \<and>
    (\<exists>l. deleteServiceType lq i db = Some (False, print_line l db)) \<and>
    (\<exists>l. getAllServiceRecords lq db = Some ([], print_line l db)) \<and>
    (\<exists>l. addServiceRecord lq r db = Some (False, print_line l db)) \<and>
    (\<exists>l. updateServiceRecord lq i r db = Some (False, print_line l db)) \<and>
    (\<exists>l. deleteServiceRecord lq i db = Some (False, print_line l db)) \<and>
    (\<exists>l. getDetailedServiceHistory lq db = Some (JArray [], print_line l db))"
  by (simp only: db_op_defs busy_ops [OF assms] busy_history [OF assms] simp_thms)

theorem busy_connection_refuses_witness:
  "\<exists>l. testConnection (example_libpq []) \<lparr>conn = Some \<lparr>m_conn = (), m_trans = Some 7\<rparr>, console = []\<rparr> =
     Some (False, \<lparr>conn = Some \<lparr>m_conn = (), m_trans = Some 7\<rparr>, console = [l]\<rparr>)"
  using busy_connection_refuses [of "\<lparr>conn = Some \<lparr>m_conn = (), m_trans = Some 7\<rparr>, console = []\<rparr>"
      "\<lparr>m_conn = (), m_trans = Some 7\<rparr>" 7 "example_libpq []"] by simp

text \<open>
  C4. A service record is written in one transaction, and the result tells what the server
  acknowledged. The operation sends BEGIN; if that fails it sends nothing more and returns
  \<open>false\<close>. Otherwise it sends the INSERT with the six parameters of the record; if that fails, or
  the connection is lost by then, it sends ROLLBACK and returns \<open>false\<close>. Otherwise it sends COMMIT and
  nothing more, and returns \<open>true\<close> exactly if the COMMIT was acknowledged.
\<close>

theorem add_record_commands:
  assumes "conn db = Some c" "m_trans c = None"
    and "connection_exec (traced lq) ''BEGIN'' (c\<lparr>m_trans := Some 0\<rparr>) = (b, c1)"
    and "connection_exec_params (traced lq) add_record_query (record_params r) c1 = (s, c2)"
    and "connection_exec (traced lq) ''COMMIT'' c2 = (k, c3)"
  shows "\<exists>ok db' c' cmds. addServiceRecord (traced lq) r db = Some (ok, db') \<and>
    conn db' = Some c' \<and> trace c' = trace c @ cmds \<and>
    (if isl b then \<not> ok \<and> cmds = [Cmd ''BEGIN'']
     else if isl s \<or> \<not> is_open (traced lq) c2
     then \<not> ok \<and> cmds = [Cmd ''BEGIN'', CmdParams add_record_query (record_params r), Cmd ''ROLLBACK'']
     else ok = (\<not> isl k) \<and>
       cmds = [Cmd ''BEGIN'', CmdParams add_record_query (record_params r), Cmd ''COMMIT''])"
proof -
  obtain x c' cmds where x: "with_work (traced lq) 0 (update_body (traced lq) add_record_query (record_params r)) c = (x, c')"
    and tr: "trace c' = trace c @ cmds"
    "if isl b then isl x \<and> cmds = [Cmd ''BEGIN'']
     else if isl s \<or> \<not> is_open (traced lq) c2
     then isl x \<and> cmds = [Cmd ''BEGIN'', CmdParams add_record_query (record_params r), Cmd ''ROLLBACK'']
     else isl x = isl k \<and> cmds = [Cmd ''BEGIN'', CmdParams add_record_query (record_params r), Cmd ''COMMIT'']"
    by (rule update_block_trace [OF assms(2-5)])
  have "\<exists>db'. addServiceRecord (traced lq) r db = Some (\<not> isl x, db') \<and> conn db' = Some c'"
    using assms(1) x
    by (cases x) (simp_all add: addServiceRecord_def update_op_def db_block_def catch_bool_def)
  then obtain db' where "addServiceRecord (traced lq) r db = Some (\<not> isl x, db')" "conn db' = Some c'" by blast
  with tr show ?thesis
    by (intro exI [of _ "\<not> isl x"] exI [of _ db'] exI [of _ c'] exI [of _ cmds]) (simp split: if_splits)
qed

theorem add_record_commands_witness:
  "\<exists>db' c'. addServiceRecord (traced (example_libpq [])) example_record
       \<lparr>conn = Some \<lparr>m_conn = ((), []), m_trans = None\<rparr>, console = []\<rparr> = Some (True, db') \<and>
     conn db' = Some c' \<and>
     trace c' = [Cmd ''BEGIN'', CmdParams add_record_query (record_params example_record), Cmd ''COMMIT'']"
proof -
  let ?lq = "traced (example_libpq [])" and ?res = "\<lparr>pg_status = PGRES_TUPLES_OK, pg_rows = [], pg_error = [], pg_sqlstate = None\<rparr>"
  have ex: "connection_exec ?lq q c = (Inr ?res, c\<lparr>m_conn := (fst (m_conn c), trace c @ [Cmd q])\<rparr>)"
    "connection_exec_params ?lq q args c = (Inr ?res, c\<lparr>m_conn := (fst (m_conn c), trace c @ [CmdParams q args])\<rparr>)"
    "is_open ?lq c" for q args c
    by (simp_all add: connection_exec_def connection_exec_params_def finish_exec_def make_result_def
        check_encoding_def enc_group_known_def check_status_def status_error_def get_notifs_def traced_def
        example_libpq_def example_answer_def is_open_def Let_def)
  show ?thesis
    using add_record_commands [where db = "\<lparr>conn = Some \<lparr>m_conn = ((), []), m_trans = None\<rparr>, console = []\<rparr>"
        and c = "\<lparr>m_conn = ((), []), m_trans = None\<rparr>" and r = example_record, OF _ _ ex(1) ex(2) ex(1)]
    by (auto simp: ex(3))
qed

text \<open>
  C7. Reading devices when the server answers the query: the result is the list of converted rows
  up to the first row that cannot be converted (a null or malformed device id, a null name); rows
  after it are dropped. If all rows convert, all of them are returned.
\<close>

theorem getAllDevices_prefix:
  assumes "conn db = Some c" "m_trans c = None"
    and "connection_exec lq ''BEGIN'' (c\<lparr>m_trans := Some 0\<rparr>) = (Inr b, c1)"
    and "connection_exec lq devices_query c1 = (Inr res, c2)"
    and "getAllDevices lq db = Some (devices, db')"
  shows "\<exists>good rest. pg_rows res = good @ rest \<and> map read_device good = map Inr devices \<and>
    (rest = [] \<or> (\<exists>e. read_device (hd rest) = Inl e))"
proof -
  have "devices = snd (read_rows read_device (pg_rows res))"
    using assms(5) by (intro fetch_op_prefix [OF assms(1-4)]) (simp add: getAllDevices_def)
  then show ?thesis using read_rows_split [of "pg_rows res" read_device] by metis
qed

theorem getAllDevices_prefix_witness:
  "\<exists>good rest. [[Some ''1'', Some ''pc'', None, None, None], [None, Some ''x'']] = good @ rest \<and>
    map read_device good = map Inr [\<lparr>dv_id = 1, dv_name = ''pc'', dv_model = [], dv_purchase_date = [], dv_status = ''active''\<rparr>] \<and>
    (rest = [] \<or> (\<exists>e. read_device (hd rest) = Inl e))"
proof -
  let ?rows = "[[Some ''1'', Some ''pc'', None, None, None], [None, Some ''x'']]"
  let ?db = "\<lparr>conn = Some \<lparr>m_conn = (), m_trans = None\<rparr>, console = []\<rparr>"
  have ex: "connection_exec (example_libpq ?rows) q cc =
      (Inr \<lparr>pg_status = PGRES_TUPLES_OK, pg_rows = ?rows, pg_error = [], pg_sqlstate = None\<rparr>, cc)" for q cc
    by (simp add: connection_exec_def finish_exec_def make_result_def check_encoding_def enc_group_known_def
        check_status_def status_error_def get_notifs_def example_libpq_def example_answer_def Let_def)
  have rd: "read_rows read_device ?rows = (Some (null_conversion ''int''),
      [\<lparr>dv_id = 1, dv_name = ''pc'', dv_model = [], dv_purchase_date = [], dv_status = ''active''\<rparr>])"
    by (simp add: read_device_def as_int_def as_string_def as_string_or_def field_at_def from_string_int_def
        from_string_arithmetic_def from_chars_int_def is_digit_def digits_val_def digit_val_def Let_def)
  have "\<exists>db'. getAllDevices (example_libpq ?rows) ?db =
      Some ([\<lparr>dv_id = 1, dv_name = ''pc'', dv_model = [], dv_purchase_date = [], dv_status = ''active''\<rparr>], db')"
    by (simp add: getAllDevices_def fetch_op_def fetch_body_def db_block_def with_work_def new_work_def
        register_transaction_def check_unique_register_def direct_exec_def ex check_pending_error_def
        work_exec_def register_focus_def unregister_focus_def rd Let_def
        del: read_rows.simps)
  then obtain db' where d: "getAllDevices (example_libpq ?rows) ?db =
      Some ([\<lparr>dv_id = 1, dv_name = ''pc'', dv_model = [], dv_purchase_date = [], dv_status = ''active''\<rparr>], db')" ..
  show ?thesis using getAllDevices_prefix [where c = "\<lparr>m_conn = (), m_trans = None\<rparr>", OF _ _ ex ex d] by simp
qed

end
