(* ===== verification/Database_Atomic.thy ===== *)
theory Database_Atomic
  imports Database_Props
begin

text \<open>
  A write operation as a step of an abstract store. The database server is described by what
  PostgreSQL documents about transactions: \<open>stored s\<close> is the committed content of the database and
  \<open>pending s\<close> the content that the open transaction of the session sees.
\<close>

section \<open>Transactional servers\<close>

text \<open>An answer that reports no error.\<close>

definition accepted :: "pg_result option \<Rightarrow> bool" where
  "accepted a \<longleftrightarrow> (case a of None \<Rightarrow> False | Some r \<Rightarrow> status_error r = Inr [])"

text \<open>
  The hypotheses on the server speak of the statements that this program sends with parameters:
  \<open>INSERT\<close>, \<open>UPDATE\<close> and \<open>DELETE\<close>. They say nothing about transaction control that would be sent that
  way.
\<close>

definition data_statement :: "string \<Rightarrow> bool" where
  "data_statement q \<longleftrightarrow> take 7 q \<in> {''INSERT '', ''UPDATE '', ''DELETE ''}"

text \<open>
  \<open>BEGIN\<close> opens a transaction on the committed content. While a transaction is open, a data
  statement changes nothing that is committed; an accepted one changes what the transaction
  sees by its effect, a relation between the content before and after it (an INSERT may draw a key
  from a sequence). \<open>ROLLBACK\<close> changes nothing that is committed, and an accepted \<open>COMMIT\<close> makes
  what the transaction sees the committed content; when the answer to \<open>COMMIT\<close> is an error or is
  missing, it may have taken effect or not. The session is the only one that writes.
\<close>

definition transactional ::
  "'s libpq \<Rightarrow> ('s \<Rightarrow> 'd) \<Rightarrow> ('s \<Rightarrow> 'd option) \<Rightarrow> (string \<Rightarrow> string option list \<Rightarrow> 'd \<Rightarrow> 'd \<Rightarrow> bool) \<Rightarrow> bool" where
  "transactional lq stored pending effect \<longleftrightarrow>
     (\<forall>s. stored (snd (PQexec lq ''BEGIN'' s)) = stored s \<and>
        (pending s = None \<and> accepted (fst (PQexec lq ''BEGIN'' s)) \<longrightarrow>
           pending (snd (PQexec lq ''BEGIN'' s)) = Some (stored s))) \<and>
     (\<forall>s q args d. pending s = Some d \<and> data_statement q \<longrightarrow>
        stored (snd (PQexecParams lq q args s)) = stored s \<and>
        (accepted (fst (PQexecParams lq q args s)) \<longrightarrow>
           (\<exists>d'. effect q args d d' \<and> pending (snd (PQexecParams lq q args s)) = Some d'))) \<and>
     (\<forall>s d. pending s = Some d \<longrightarrow>
        stored (snd (PQexec lq ''COMMIT'' s)) \<in> {stored s, d} \<and>
        (accepted (fst (PQexec lq ''COMMIT'' s)) \<longrightarrow> stored (snd (PQexec lq ''COMMIT'' s)) = d)) \<and>
     (\<forall>s. stored (snd (PQexec lq ''ROLLBACK'' s)) = stored s) \<and>
     (\<forall>s. stored (snd (PQconsumeInput lq s)) = stored s \<and> pending (snd (PQconsumeInput lq s)) = pending s)"

lemma transactionalD:
  assumes "transactional lq stored pending effect"
  shows tx_begin: "stored (snd (PQexec lq ''BEGIN'' s)) = stored s"
    "pending s = None \<Longrightarrow> accepted (fst (PQexec lq ''BEGIN'' s)) \<Longrightarrow>
       pending (snd (PQexec lq ''BEGIN'' s)) = Some (stored s)"
    and tx_params: "pending s = Some d \<Longrightarrow> data_statement q \<Longrightarrow> stored (snd (PQexecParams lq q args s)) = stored s"
    "pending s = Some d \<Longrightarrow> data_statement q \<Longrightarrow> accepted (fst (PQexecParams lq q args s)) \<Longrightarrow>
       \<exists>d'. effect q args d d' \<and> pending (snd (PQexecParams lq q args s)) = Some d'"
    and tx_commit: "pending s = Some d \<Longrightarrow> accepted (fst (PQexec lq ''COMMIT'' s)) \<Longrightarrow>
       stored (snd (PQexec lq ''COMMIT'' s)) = d"
    "pending s = Some d \<Longrightarrow> stored (snd (PQexec lq ''COMMIT'' s)) \<in> {stored s, d}"
    and tx_rollback: "stored (snd (PQexec lq ''ROLLBACK'' s)) = stored s"
    and tx_consume: "stored (snd (PQconsumeInput lq s)) = stored s"
      "pending (snd (PQconsumeInput lq s)) = pending s"
  using assms unfolding transactional_def by simp_all

section \<open>Operations of the connection\<close>

lemma finish_exec_session:
  assumes "\<And>s. stored (snd (PQconsumeInput lq s)) = stored s"
  shows "stored (m_conn (snd (finish_exec lq q (a, s) c))) = stored s"
  using assms by (simp add: finish_exec_def get_notifs_def case_prod_unfold Let_def split: sum.split)

lemma finish_exec_accepted: "fst (finish_exec lq q (a, s) c) = Inr r \<Longrightarrow> accepted a"
  by (auto simp: finish_exec_def get_notifs_def make_result_def check_status_def accepted_def sum_bind_eq_Inr_iff
      case_prod_unfold Let_def split: sum.splits option.splits if_splits)

text \<open>What a command does to the stored and the pending content, through the connection.\<close>

lemma exec_session:
  assumes "transactional lq stored pending effect"
  shows "stored (m_conn (snd (connection_exec lq q c))) = stored (snd (PQexec lq q (m_conn c)))"
    "pending (m_conn (snd (connection_exec lq q c))) = pending (snd (PQexec lq q (m_conn c)))"
    "stored (m_conn (snd (connection_exec_params lq q args c))) = stored (snd (PQexecParams lq q args (m_conn c)))"
    "pending (m_conn (snd (connection_exec_params lq q args c))) = pending (snd (PQexecParams lq q args (m_conn c)))"
  using finish_exec_session [where lq = lq and stored = stored] finish_exec_session [where lq = lq and stored = pending]
    tx_consume [OF assms]
  unfolding connection_exec_def connection_exec_params_def by (metis prod.collapse)+

lemma exec_accepted:
  "fst (connection_exec lq q c) = Inr r \<Longrightarrow> accepted (fst (PQexec lq q (m_conn c)))"
  "fst (connection_exec_params lq q args c) = Inr r \<Longrightarrow> accepted (fst (PQexecParams lq q args (m_conn c)))"
  unfolding connection_exec_def connection_exec_params_def
  by (metis finish_exec_accepted prod.collapse)+

section \<open>Writes are atomic\<close>

lemma commit_session:
  assumes tx: "transactional lq stored pending effect" and w: "open_work w"
    and d: "pending (m_conn (w_conn w)) = Some d"
  shows "stored (m_conn (w_conn (snd (work_commit lq w)))) \<in> {stored (m_conn (w_conn w)), d} \<and>
    (\<forall>u. fst (work_commit lq w) = Inr u \<longrightarrow> stored (m_conn (w_conn (snd (work_commit lq w)))) = d)"
proof (cases "is_open lq (w_conn w)")
  case False
  with w show ?thesis by (simp add: work_commit_def open_work_def)
next
  case True
  have wf: "m_pending_error w = []" "m_focus w = None" "m_status w = st_active"
    using w by (simp_all add: open_work_def)
  let ?r = "do_commit lq w"
  have conn: "m_conn (w_conn (snd (work_commit lq w))) = m_conn (w_conn (snd ?r))"
    by (auto simp: work_commit_eq [OF wf True] finish_commit_def work_close_eq split: sum.split pq_exn.split)
  have s: "stored (m_conn (w_conn (snd ?r))) = stored (snd (PQexec lq ''COMMIT'' (m_conn (w_conn w))))"
    by (simp add: do_commit_conn wf exec_session(1) [OF tx])
  have ok: "accepted (fst (PQexec lq ''COMMIT'' (m_conn (w_conn w))))" if "fst (work_commit lq w) = Inr u" for u
  proof -
    have "\<exists>v. fst ?r = Inr v"
      using that by (auto simp: work_commit_eq [OF wf True] finish_commit_def split: sum.splits pq_exn.splits)
    then show ?thesis using do_commit_Inr [OF wf(1), of lq] exec_accepted(1) by metis
  qed
  show ?thesis using tx_commit [OF tx d] ok by (auto simp: conn s)
qed

lemma close_session:
  assumes "transactional lq stored pending effect"
  shows "stored (m_conn (w_conn (work_close lq w))) = stored (m_conn (w_conn w))"
  by (simp add: work_close_eq direct_exec_eq exec_session(1) [OF assms] tx_rollback [OF assms])

lemma update_block_session:
  assumes tx: "transactional lq stored pending effect" and c: "m_trans c = None" "pending (m_conn c) = None"
    and q: "data_statement q" and r: "with_work lq t (update_body lq q args) c = (r, c')"
  shows "(stored (m_conn c') = stored (m_conn c) \<or> effect q args (stored (m_conn c)) (stored (m_conn c'))) \<and>
    (\<forall>u. r = Inr u \<longrightarrow> effect q args (stored (m_conn c)) (stored (m_conn c')))"
proof -
  let ?c = "c\<lparr>m_trans := Some t\<rparr>"
  obtain b c1 where bg: "connection_exec lq ''BEGIN'' ?c = (b, c1)" by fastforce
  have s1: "stored (m_conn c1) = stored (m_conn c)"
    using exec_session(1) [OF tx, of "''BEGIN''" ?c] bg tx_begin(1) [OF tx] by simp
  show ?thesis
  proof (cases b)
    case (Inl e)
    with r bg s1 show ?thesis by (auto simp: with_work_def new_work_free c)
  next
    case (Inr x)
    then have p1: "pending (m_conn c1) = Some (stored (m_conn c))"
      using exec_session(2) [OF tx, of "''BEGIN''" ?c] bg exec_accepted(1) [of lq "''BEGIN''" ?c x]
        tx_begin(2) [OF tx, of "m_conn c"] c by simp
    let ?w = "\<lparr>w_conn = c1, w_this = t, m_status = st_active, m_registered = True, m_pending_error = [], m_focus = None\<rparr>"
    obtain p c2 where ex: "connection_exec_params lq q args c1 = (p, c2)" by fastforce
    have ww: "with_work lq t (update_body lq q args) c =
        (let (r, w) = update_body lq q args ?w in (r, w_conn (work_close lq w)))"
      using Inr bg by (simp add: with_work_def new_work_free c)
    have exp: "work_exec_params lq q args ?w = (p, ?w\<lparr>w_conn := c2\<rparr>)" using ex by (simp add: work_exec_params_eq)
    have s2: "stored (m_conn c2) = stored (m_conn c)"
      using exec_session(3) [OF tx, of q args c1] ex tx_params(1) [OF tx p1 q] s1 by simp
    show ?thesis
    proof (cases p)
      case (Inl e)
      with r ww exp s2 show ?thesis by (auto simp: update_body_def close_session [OF tx])
    next
      case (Inr y)
      then obtain d where d: "effect q args (stored (m_conn c)) d" and p2: "pending (m_conn c2) = Some d"
        using exec_session(4) [OF tx, of q args c1] ex exec_accepted(2) [of lq q args c1 y]
          tx_params(2) [OF tx p1 q, of args] by auto
      have "open_work (?w\<lparr>w_conn := c2\<rparr>)" by (simp add: open_work_def)
      from commit_session [OF tx this] d p2 s2 r ww exp Inr show ?thesis
        by (auto simp: update_body_def close_session [OF tx] case_prod_unfold Let_def)
    qed
  qed
qed

lemma update_op_session:
  assumes "transactional lq stored pending effect" "conn db = Some c" "m_trans c = None" "pending (m_conn c) = None"
    and "data_statement q" "update_op lq m q args db = Some (ok, db')" "conn db' = Some c'"
  shows "(stored (m_conn c') = stored (m_conn c) \<or> effect q args (stored (m_conn c)) (stored (m_conn c'))) \<and>
    (ok \<longrightarrow> effect q args (stored (m_conn c)) (stored (m_conn c')))"
proof -
  obtain r c2 where r: "with_work lq 0 (update_body lq q args) c = (r, c2)" by fastforce
  have "c' = c2" "ok \<longleftrightarrow> (\<exists>u. r = Inr u)"
    using assms r by (auto simp: update_op_def db_block_def catch_bool_def split: sum.splits)
  with update_block_session [OF assms(1,3,4,5) r] show ?thesis by auto
qed

section \<open>Theorem\<close>

text \<open>
  A server for the examples that behaves as PostgreSQL documents it: it stores the statements that
  took effect; \<open>BEGIN\<close> inside of a transaction and \<open>COMMIT\<close> outside of one only give a warning.
\<close>

type_synonym log = "(string \<times> string option list) list"

record store =
  st_stored :: log
  st_pending :: "log option"

definition store_ok :: "pg_result option" where
  "store_ok = Some \<lparr>pg_status = PGRES_COMMAND_OK, pg_rows = [], pg_error = [], pg_sqlstate = None\<rparr>"

definition store_exec :: "string \<Rightarrow> store \<Rightarrow> store" where
  "store_exec q s =
     (if q = ''BEGIN'' then (case st_pending s of None \<Rightarrow> s\<lparr>st_pending := Some (st_stored s)\<rparr> | Some _ \<Rightarrow> s)
      else if q = ''COMMIT'' then (case st_pending s of None \<Rightarrow> s | Some d \<Rightarrow> \<lparr>st_stored = d, st_pending = None\<rparr>)
      else if q = ''ROLLBACK'' then s\<lparr>st_pending := None\<rparr>
      else s)"

definition store_params :: "string \<Rightarrow> string option list \<Rightarrow> store \<Rightarrow> store" where
  "store_params q args s =
     (case st_pending s of
        None \<Rightarrow> s\<lparr>st_stored := st_stored s @ [(q, args)]\<rparr>
      | Some d \<Rightarrow> s\<lparr>st_pending := Some (d @ [(q, args)])\<rparr>)"

definition store_libpq :: "store libpq" where
  "store_libpq = \<lparr>
     PQconnectdb = (\<lambda>_. \<lparr>st_stored = [], st_pending = None\<rparr>), PQstatus_ok = (\<lambda>_. True),
     PQprotocolVersion = (\<lambda>_. 3), PQserverVersion = (\<lambda>_. 140000), PQerrorMessage = (\<lambda>_. []),
     PQclientEncoding = (\<lambda>_. Some ''UTF8''),
     PQexec = (\<lambda>q s. (store_ok, store_exec q s)),
     PQexecParams = (\<lambda>q args s. (store_ok, store_params q args s)),
     PQconsumeInput = (\<lambda>s. (True, s))\<rparr>"

lemma store_transactional: "transactional store_libpq st_stored st_pending (\<lambda>q args d d'. d' = d @ [(q, args)])"
  by (simp add: transactional_def store_libpq_def store_exec_def store_params_def split: option.split)

lemma store_exec_simps [simp]:
  "connection_exec store_libpq q c = (Inr (the store_ok), c\<lparr>m_conn := store_exec q (m_conn c)\<rparr>)"
  "connection_exec_params store_libpq q args c = (Inr (the store_ok), c\<lparr>m_conn := store_params q args (m_conn c)\<rparr>)"
  "is_open store_libpq c"
  by (simp_all add: connection_exec_def connection_exec_params_def finish_exec_def make_result_def check_encoding_def
      enc_group_known_def check_status_def status_error_def get_notifs_def store_libpq_def store_ok_def is_open_def Let_def)

text \<open>
  C35. Writing a service record is one step of the abstract store. On a server that keeps the
  documented promises about BEGIN, COMMIT, ROLLBACK and the data statements between them, whatever
  fails in between (the connection included), the committed content afterwards is the old content
  or one that the INSERT of the record makes of it; and when the operation returns \<open>true\<close> it is the
  latter.
\<close>

theorem add_record_atomic:
  assumes "transactional lq stored pending effect" "conn db = Some c" "m_trans c = None" "pending (m_conn c) = None"
    and "addServiceRecord lq r db = Some (ok, db')" "conn db' = Some c'"
  shows "(stored (m_conn c') = stored (m_conn c) \<or>
      effect add_record_query (record_params r) (stored (m_conn c)) (stored (m_conn c'))) \<and>
    (ok \<longrightarrow> effect add_record_query (record_params r) (stored (m_conn c)) (stored (m_conn c')))"
  using assms(5)
  by (intro update_op_session [OF assms(1-4) _ _ assms(6)])
    (simp_all add: addServiceRecord_def data_statement_def add_record_query_def)

theorem add_record_atomic_witness:
  "\<exists>db' c'. addServiceRecord store_libpq example_record
      \<lparr>conn = Some \<lparr>m_conn = \<lparr>st_stored = [], st_pending = None\<rparr>, m_trans = None\<rparr>, console = []\<rparr> = Some (True, db') \<and>
    conn db' = Some c' \<and> st_stored (m_conn c') = [(add_record_query, record_params example_record)]"
proof -
  let ?c = "\<lparr>m_conn = \<lparr>st_stored = [], st_pending = None\<rparr>, m_trans = None\<rparr>"
  have "\<exists>db' c'. addServiceRecord store_libpq example_record \<lparr>conn = Some ?c, console = []\<rparr> = Some (True, db') \<and> conn db' = Some c'"
    by (simp add: addServiceRecord_def update_op_def update_body_def db_block_def catch_bool_def with_work_def
        new_work_free work_exec_params_eq work_commit_def do_commit_def direct_exec_eq finish_commit_def Let_def)
  then obtain db' c' where op: "addServiceRecord store_libpq example_record \<lparr>conn = Some ?c, console = []\<rparr> = Some (True, db')"
    and c': "conn db' = Some c'" by blast
  from add_record_atomic [OF store_transactional _ _ _ op c', where c = ?c] op c' show ?thesis by simp
qed

end
