(* ===== verification/Database_Threads.thy ===== *)
theory Database_Threads
  imports Database_Atomic
begin

text \<open>
  Crow runs the handlers in several threads, and all of them share one \<open>Database\<close> object with one
  connection, without a lock of their own. This theory cuts an operation of the database at the
  points where another thread can come between: the check of \<open>register_transaction\<close>, its
  assignment (\<open>connection.cxx\<close> does the two one after the other and does not synchronise them), BEGIN,
  the statement, COMMIT, the unregistration, and ROLLBACK. The parts are the operations of
  \<open>Pqxx\<close>; only the cuts between them are new, and \<open>thread_sequential\<close> shows that a thread that runs
  without interruption does what the whole operation does. A step is atomic here; neither the
  standard library nor libpq gives such a guarantee, so the interleavings of this theory are some of
  those that can happen, and the theorems state what can go wrong, not what cannot.
\<close>

section \<open>Steps of an operation\<close>

text \<open>
  What an operation does inside of its transaction: \<open>testConnection\<close> runs a query and does not
  commit; a read fetches rows, and converts them before it commits; a write has parameters.
\<close>

datatype stmt = Select string | Fetch string "string option list list \<Rightarrow> bool"
  | Update string "string option list"

text \<open>
  Where a thread is, with its local transaction object. \<open>Checked\<close> is between the two statements of
  \<open>register_transaction\<close>: the check that no transaction is registered has passed, and \<open>m_trans\<close> is
  not yet assigned.
\<close>

datatype 's phase = Ready | Checked | Starting "'s work" | Active "'s work" | Committing "'s work"
  | Closing "'s work" bool | Aborting "'s work" bool | Finished bool

definition fresh_work :: "nat \<Rightarrow> 's connection \<Rightarrow> 's work" where
  "fresh_work t c = \<lparr>w_conn = c, w_this = t, m_status = st_active, m_registered = True, m_pending_error = [], m_focus = None\<rparr>"

text \<open>\<open>commit\<close> up to the point where it closes the transaction.\<close>

definition commit_step :: "'s libpq \<Rightarrow> 's work \<Rightarrow> ('s, unit) wres" where
  "commit_step lq w =
     (if \<not> is_open lq (w_conn w)
      then (Inl (broken_connection ''Broken connection to backend; cannot complete transaction.''), w)
      else let (r, w) = do_commit lq w
           in (r, w\<lparr>m_status := (case r of Inr _ \<Rightarrow> st_committed
                                   | Inl e \<Rightarrow> (case e of in_doubt_error _ \<Rightarrow> st_in_doubt | _ \<Rightarrow> st_aborted))\<rparr>))"

definition is_ok :: "'e + 'a \<Rightarrow> bool" where
  "is_ok r \<longleftrightarrow> \<not> isl r"

text \<open>The next step of thread \<open>t\<close>; the transaction object works on the shared connection \<open>c\<close>.\<close>

fun thread_step :: "'s libpq \<Rightarrow> nat \<Rightarrow> stmt \<Rightarrow> 's phase \<Rightarrow> 's connection \<Rightarrow> 's phase \<times> 's connection" where
  "thread_step lq t st Ready c =
     (case register_check t c of
        Some e \<Rightarrow> (Finished False, c)
      | None \<Rightarrow> (Checked, c))"
| "thread_step lq t st Checked c =
     (let c = register_assign t c in (Starting (fresh_work t c), c))"
| "thread_step lq t st (Starting w) c =
     (let (r, w) = direct_exec lq ''BEGIN'' (w\<lparr>w_conn := c\<rparr>)
      in if is_ok r then (Active w, w_conn w) else (Finished False, unregister_transaction (w_conn w)))"
| "thread_step lq t st (Active w) c =
     (let (r, w) = (case st of
          Update q args \<Rightarrow> work_exec_params lq q args (w\<lparr>w_conn := c\<rparr>)
        | Fetch q good \<Rightarrow> work_exec lq q (w\<lparr>w_conn := c\<rparr>)
        | Select q \<Rightarrow> work_exec lq q (w\<lparr>w_conn := c\<rparr>))
      in (case r of
            Inl e \<Rightarrow> Closing w False
          | Inr res \<Rightarrow>
              (case st of
                 Select _ \<Rightarrow> Closing w True
               | Fetch _ good \<Rightarrow> if good (pg_rows res) then Committing w else Closing w False
               | Update _ _ \<Rightarrow> Committing w), w_conn w))"
| "thread_step lq t st (Committing w) c =
     (let (r, w) = commit_step lq (w\<lparr>w_conn := c\<rparr>) in (Closing w (is_ok r), w_conn w))"
| "thread_step lq t st (Closing w ok) c =
     (let w = close_registration (w\<lparr>w_conn := c\<rparr>)
      in (if m_status w = st_active then Aborting w ok else Finished ok, w_conn w))"
| "thread_step lq t st (Aborting w ok) c =
     (let w = do_abort lq (w\<lparr>w_conn := c\<rparr>) in (Finished ok, w_conn w))"
| "thread_step lq t st (Finished ok) c = (Finished ok, c)"

section \<open>One thread alone\<close>

fun run_thread :: "nat \<Rightarrow> 's libpq \<Rightarrow> nat \<Rightarrow> stmt \<Rightarrow> 's phase \<times> 's connection \<Rightarrow> 's phase \<times> 's connection" where
  "run_thread 0 lq t st pc = pc"
| "run_thread (Suc n) lq t st pc = run_thread n lq t st (thread_step lq t st (fst pc) (snd pc))"

text \<open>The block of the operation, with the result that decides between success and failure.\<close>

definition stmt_body :: "'s libpq \<Rightarrow> stmt \<Rightarrow> 's work \<Rightarrow> ('s, bool) wres" where
  "stmt_body lq st w =
     (case st of
        Select q \<Rightarrow> wbind (work_exec lq q w) (\<lambda>_ w. (Inr True, w))
      | Update q args \<Rightarrow> wbind (update_body lq q args w) (\<lambda>_ w. (Inr True, w))
      | Fetch q good \<Rightarrow>
          wbind (work_exec lq q w) (\<lambda>res w.
            if good (pg_rows res) then wbind (work_commit lq w) (\<lambda>_ w. (Inr True, w)) else (Inr False, w)))"

lemma run_thread_Finished [simp]: "run_thread n lq t st (Finished ok, c) = (Finished ok, c)"
  by (induction n) simp_all

lemma conn_self [simp]: "w\<lparr>w_conn := w_conn w\<rparr> = w"
  by simp

lemma close_registration_twice [simp]:
  "m_registered (close_registration w) = False"
  "\<not> m_registered w \<Longrightarrow> w_conn (close_registration w) = w_conn w"
  by (simp_all add: close_registration_def check_pending_error_def Let_def)

lemma direct_exec_registered [simp]:
  "m_pending_error w = [] \<Longrightarrow> m_registered (snd (direct_exec lq q w)) = m_registered w"
  by (simp add: direct_exec_eq)

lemma run_closing: "run_thread (Suc (Suc n)) lq t st (Closing w ok, w_conn w) = (Finished ok, w_conn (work_close lq w))"
  by (simp add: work_close_eq do_abort_def Let_def del: close_registration_def)

lemma commit_closed:
  assumes "open_work w"
  shows "fst (work_commit lq w) = fst (commit_step lq w)"
    and "w_conn (work_close lq (snd (work_commit lq w))) = w_conn (work_close lq (snd (commit_step lq w)))"
proof -
  have wf: "m_pending_error w = []" "m_focus w = None" "m_status w = st_active"
    using assms by (simp_all add: open_work_def)
  have "fst (work_commit lq w) = fst (commit_step lq w) \<and>
    w_conn (work_close lq (snd (work_commit lq w))) = w_conn (work_close lq (snd (commit_step lq w)))"
  proof (cases "is_open lq (w_conn w)")
    case False
    then show ?thesis by (simp add: work_commit_def wf commit_step_def)
  next
    case True
    obtain r w1 where r: "do_commit lq w = (r, w1)" by fastforce
    show ?thesis
      by (cases r) (auto simp: work_commit_eq [OF wf True] commit_step_def True r finish_commit_def work_close_eq split: pq_exn.split)
  qed
  then show "fst (work_commit lq w) = fst (commit_step lq w)"
    "w_conn (work_close lq (snd (work_commit lq w))) = w_conn (work_close lq (snd (commit_step lq w)))" by simp_all
qed

lemma run_committing:
  assumes "open_work w"
  shows "run_thread (Suc (Suc (Suc n))) lq t st (Committing w, w_conn w) =
    (Finished (is_ok (fst (work_commit lq w))), w_conn (work_close lq (snd (work_commit lq w))))"
proof -
  obtain r w1 where r: "commit_step lq w = (r, w1)" by fastforce
  have "run_thread (Suc (Suc (Suc n))) lq t st (Committing w, w_conn w) =
      run_thread (Suc (Suc n)) lq t st (Closing w1 (is_ok r), w_conn w1)"
    by (simp add: r)
  also have "\<dots> = (Finished (is_ok r), w_conn (work_close lq w1))" by (rule run_closing)
  finally show ?thesis using commit_closed [OF assms, of lq] r by simp
qed

lemma open_work_exec:
  assumes "open_work w"
  shows "open_work (snd (work_exec lq q w))" "open_work (snd (work_exec_params lq q args w))"
  using assms by (simp_all add: open_work_def work_exec_eq work_exec_params_eq)

lemma wbind_true:
  "fst (wbind x (\<lambda>_ w. (Inr True, w))) = Inr True \<longleftrightarrow> is_ok (fst x)"
  "snd (wbind x (\<lambda>_ w. (Inr True, w))) = snd x"
  by (simp_all add: wbind_def is_ok_def split: sum.split)

lemma run_active:
  assumes "open_work w"
  shows "run_thread (Suc (Suc (Suc (Suc n)))) lq t st (Active w, w_conn w) =
    (Finished (fst (stmt_body lq st w) = Inr True), w_conn (work_close lq (snd (stmt_body lq st w))))"
proof -
  define e where "e = (case st of Update q args \<Rightarrow> work_exec_params lq q args w
    | Fetch q good \<Rightarrow> work_exec lq q w | Select q \<Rightarrow> work_exec lq q w)"
  obtain r w1 where r: "e = (r, w1)" by fastforce
  have o1: "open_work w1"
    using r open_work_exec [OF assms] by (auto simp: e_def split: stmt.splits) (metis snd_conv)+
  have step: "thread_step lq t st (Active w) (w_conn w) =
      (case r of
         Inl e \<Rightarrow> Closing w1 False
       | Inr res \<Rightarrow>
           (case st of
              Select _ \<Rightarrow> Closing w1 True
            | Fetch _ good \<Rightarrow> if good (pg_rows res) then Committing w1 else Closing w1 False
            | Update _ _ \<Rightarrow> Committing w1), w_conn w1)"
    using r by (cases st; cases r) (simp_all add: e_def)
  show ?thesis
  proof (cases r)
    case (Inl x)
    then have "stmt_body lq st w = (Inl x, w1)"
      using r by (auto simp: stmt_body_def e_def update_body_def split: stmt.splits)
    with Inl step show ?thesis using run_closing [of "Suc n" lq t st w1 False] by simp
  next
    case (Inr res)
    show ?thesis
    proof (cases "(\<exists>q. st = Select q) \<or> (\<exists>q good. st = Fetch q good \<and> \<not> good (pg_rows res))")
      case True
      then obtain ok where "stmt_body lq st w = (Inr ok, w1)" "thread_step lq t st (Active w) (w_conn w) = (Closing w1 ok, w_conn w1)"
        using r Inr step by (auto simp: stmt_body_def e_def)
      then show ?thesis using run_closing [of "Suc n" lq t st w1 ok] by simp
    next
      case False
      then have "stmt_body lq st w = wbind (work_commit lq w1) (\<lambda>_ w. (Inr True, w))"
        "thread_step lq t st (Active w) (w_conn w) = (Committing w1, w_conn w1)"
        using r Inr step by (auto simp: stmt_body_def e_def update_body_def split: stmt.splits)
      then show ?thesis
        using run_committing [OF o1, of n lq t st] by (simp only: run_thread.simps(2) fst_conv snd_conv wbind_true)
    qed
  qed
qed

lemma thread_alone:
  assumes "m_trans c = None"
  shows "run_thread 7 lq t st (Ready, c) =
    (Finished (fst (with_work lq t (stmt_body lq st) c) = Inr True), snd (with_work lq t (stmt_body lq st) c))"
proof -
  let ?c = "c\<lparr>m_trans := Some t\<rparr>"
  obtain b c1 where bg: "connection_exec lq ''BEGIN'' ?c = (b, c1)" by fastforce
  have seven: "run_thread 7 lq t st pc = run_thread (Suc (Suc (Suc (Suc (Suc (Suc (Suc 0))))))) lq t st pc" for pc
    by (simp add: eval_nat_numeral)
  have check: "thread_step lq t st Ready c = (Checked, c)"
    using assms by (simp add: check_unique_register_def)
  have reg: "thread_step lq t st Checked c = (Starting (fresh_work t ?c), ?c)"
    by (simp add: Let_def)
  have step2: "thread_step lq t st (Starting (fresh_work t ?c)) ?c =
      (if is_ok b then (Active (fresh_work t c1), c1) else (Finished False, c1\<lparr>m_trans := None\<rparr>))"
    using bg by (simp add: direct_exec_eq fresh_work_def unregister_transaction_def)
  have start: "run_thread 7 lq t st (Ready, c) = run_thread (Suc (Suc (Suc (Suc 0)))) lq t st
      (if is_ok b then (Active (fresh_work t c1), c1) else (Finished False, c1\<lparr>m_trans := None\<rparr>))"
    by (simp only: seven run_thread.simps(2) fst_conv snd_conv check reg step2)
  show ?thesis
  proof (cases b)
    case (Inl e)
    have "run_thread 7 lq t st (Ready, c) = (Finished False, c1\<lparr>m_trans := None\<rparr>)"
      unfolding start Inl by (simp add: is_ok_def del: run_thread.simps)
    then show ?thesis using bg Inl by (simp add: with_work_def new_work_free assms)
  next
    case (Inr x)
    let ?w = "fresh_work t c1"
    have "run_thread 7 lq t st (Ready, c) = run_thread (Suc (Suc (Suc (Suc 0)))) lq t st (Active ?w, w_conn ?w)"
      unfolding start Inr by (simp add: is_ok_def fresh_work_def del: run_thread.simps)
    also have "\<dots> = (Finished (fst (stmt_body lq st ?w) = Inr True), w_conn (work_close lq (snd (stmt_body lq st ?w))))"
      by (rule run_active) (simp add: open_work_def fresh_work_def)
    finally show ?thesis
      using bg Inr by (simp add: with_work_def new_work_free assms fresh_work_def case_prod_unfold Let_def)
  qed
qed

section \<open>Several threads\<close>

record 's system =
  sh_conn :: "'s connection"
  phases :: "nat \<Rightarrow> 's phase"

definition sys_next :: "'s libpq \<Rightarrow> (nat \<Rightarrow> stmt) \<Rightarrow> nat \<Rightarrow> 's system \<Rightarrow> 's system" where
  "sys_next lq prog t g =
     (let (ph, c) = thread_step lq t (prog t) (phases g t) (sh_conn g)
      in \<lparr>sh_conn = c, phases = (phases g)(t := ph)\<rparr>)"

definition sys_start :: "'s connection \<Rightarrow> 's system" where
  "sys_start c = \<lparr>sh_conn = c, phases = (\<lambda>_. Ready)\<rparr>"

text \<open>The states that the threads reach, whoever comes next: thread \<open>t\<close> runs the operation \<open>prog t\<close>.\<close>

inductive sys_reach :: "'s libpq \<Rightarrow> (nat \<Rightarrow> stmt) \<Rightarrow> 's connection \<Rightarrow> 's system \<Rightarrow> bool"
  for lq prog c where
  start: "sys_reach lq prog c (sys_start c)"
| step: "sys_reach lq prog c g \<Longrightarrow> sys_reach lq prog c (sys_next lq prog t g)"

lemma sys_reach_schedule: "sys_reach lq prog c g \<Longrightarrow> sys_reach lq prog c (fold (sys_next lq prog) ts g)"
  by (induction ts arbitrary: g) (simp_all add: sys_reach.step)

section \<open>The steps are those of the operations\<close>

lemma block_alone:
  assumes "conn db = Some c" "m_trans c = None"
    and "\<And>w. snd (body w) = snd (stmt_body lq st w)" "\<And>w. is_ok (fst (body w)) \<longleftrightarrow> fst (stmt_body lq st w) = Inr True"
  shows "\<exists>db'. catch_bool m (db_block lq body db) =
      Some (fst (run_thread 7 lq 0 st (Ready, c)) = Finished True, db') \<and>
    conn db' = Some (snd (run_thread 7 lq 0 st (Ready, c)))"
proof -
  have "snd (with_work lq 0 body c) = snd (with_work lq 0 (stmt_body lq st) c)"
    "is_ok (fst (with_work lq 0 body c)) \<longleftrightarrow> fst (with_work lq 0 (stmt_body lq st) c) = Inr True"
    using assms(3,4) by (simp_all add: with_work_def is_ok_def case_prod_unfold Let_def split: sum.split)
  then show ?thesis
    using assms(1) by (auto simp: thread_alone [OF assms(2)] db_block_def catch_bool_def is_ok_def case_prod_unfold
        Let_def split: sum.split)
qed

text \<open>
  A thread that runs alone on a free connection ends after at most seven steps with the result and
  the connection of \<open>testConnection\<close> and of \<open>addServiceRecord\<close>.
\<close>

lemma thread_sequential:
  assumes "conn db = Some c" "m_trans c = None"
  shows "(\<exists>db'. testConnection lq db =
        Some (fst (run_thread 7 lq 0 (Select ''SELECT 1'') (Ready, c)) = Finished True, db') \<and>
      conn db' = Some (snd (run_thread 7 lq 0 (Select ''SELECT 1'') (Ready, c)))) \<and>
    (\<exists>db'. addServiceRecord lq r db =
        Some (fst (run_thread 7 lq 0 (Update add_record_query (record_params r)) (Ready, c)) = Finished True, db') \<and>
      conn db' = Some (snd (run_thread 7 lq 0 (Update add_record_query (record_params r)) (Ready, c))))"
proof
  have b: "snd (test_body lq w) = snd (stmt_body lq (Select ''SELECT 1'') w)"
    "is_ok (fst (test_body lq w)) \<longleftrightarrow> fst (stmt_body lq (Select ''SELECT 1'') w) = Inr True" for w
    by (simp_all add: test_body_def stmt_body_def wbind_def is_ok_def split: sum.split)
  show "\<exists>db'. testConnection lq db =
        Some (fst (run_thread 7 lq 0 (Select ''SELECT 1'') (Ready, c)) = Finished True, db') \<and>
      conn db' = Some (snd (run_thread 7 lq 0 (Select ''SELECT 1'') (Ready, c)))"
    unfolding testConnection_def by (rule block_alone [OF assms b])
  have b: "snd (update_body lq q args w) = snd (stmt_body lq (Update q args) w)"
    "is_ok (fst (update_body lq q args w)) \<longleftrightarrow> fst (stmt_body lq (Update q args) w) = Inr True" for q args w
    by (simp_all add: stmt_body_def wbind_def is_ok_def split: sum.split)
  show "\<exists>db'. addServiceRecord lq r db =
        Some (fst (run_thread 7 lq 0 (Update add_record_query (record_params r)) (Ready, c)) = Finished True, db') \<and>
      conn db' = Some (snd (run_thread 7 lq 0 (Update add_record_query (record_params r)) (Ready, c)))"
    unfolding addServiceRecord_def update_op_def by (rule block_alone [OF assms b])
qed

definition empty_store :: "store connection" where
  "empty_store = \<lparr>m_conn = \<lparr>st_stored = [], st_pending = None\<rparr>, m_trans = None\<rparr>"

section \<open>Theorems\<close>

lemmas step_defs = sys_next_def sys_start_def empty_store_def check_unique_register_def fresh_work_def
  direct_exec_eq work_exec_eq work_exec_params_eq is_ok_def close_registration_def do_abort_def
  unregister_transaction_def commit_step_def do_commit_def store_exec_def store_params_def

text \<open>
  C37. Registration is no mutual exclusion: the check and the assignment of
  \<open>register_transaction\<close> are two unsynchronised statements, so any two threads, whatever they
  run, can both pass the check and be inside of a transaction on the shared connection at the same
  time. Both hold an active transaction object that counts as
  registered, while the connection knows only the one that was assigned last.
\<close>

theorem registration_race:
  assumes "t \<noteq> u"
  shows "\<exists>g w v. sys_reach store_libpq prog empty_store g \<and>
    phases g t = Active w \<and> m_registered w \<and> m_status w = st_active \<and>
    phases g u = Active v \<and> m_registered v \<and> m_status v = st_active \<and>
    m_trans (sh_conn g) = Some u"
proof -
  let ?g = "fold (sys_next store_libpq prog) [t, u, t, u, t, u] (sys_start empty_store)"
  have "sys_reach store_libpq prog empty_store ?g" by (intro sys_reach_schedule sys_reach.start)
  moreover have "\<exists>w v. phases ?g t = Active w \<and> m_registered w \<and> m_status w = st_active \<and>
      phases ?g u = Active v \<and> m_registered v \<and> m_status v = st_active \<and> m_trans (sh_conn ?g) = Some u"
    using assms by (simp add: step_defs Let_def)
  ultimately show ?thesis by blast
qed

theorem registration_race_witness:
  "\<exists>g w v. sys_reach store_libpq (\<lambda>_. Update add_record_query (record_params example_record)) empty_store g \<and>
    phases g 0 = Active w \<and> m_registered w \<and> m_status w = st_active \<and>
    phases g 1 = Active v \<and> m_registered v \<and> m_status v = st_active \<and>
    m_trans (sh_conn g) = Some 1"
  by (rule registration_race) simp

text \<open>
  C39. The registration ends too early: a transaction is unregistered before its ROLLBACK is sent. On a
  server with PostgreSQL's documented behaviour, a connection test that runs beside a write can roll
  the write back, and both report success: the record is not stored, although its thread got a
  commit without an error.
\<close>

theorem rollback_after_unregister:
  "\<exists>g. sys_reach store_libpq
       (\<lambda>t. if t = 0 then Select ''SELECT 1'' else Update add_record_query (record_params r)) empty_store g \<and>
     phases g 0 = Finished True \<and> phases g 1 = Finished True \<and> st_stored (m_conn (sh_conn g)) = []"
proof -
  let ?prog = "\<lambda>t. if t = 0 then Select ''SELECT 1'' else Update add_record_query (record_params r)"
  let ?g = "fold (sys_next store_libpq ?prog) [0, 0, 0, 0, 0, 1, 1, 1, 1, 0, 1, 1] (sys_start empty_store)"
  have "sys_reach store_libpq ?prog empty_store ?g" by (intro sys_reach_schedule sys_reach.start)
  moreover have "phases ?g 0 = Finished True \<and> phases ?g 1 = Finished True \<and> st_stored (m_conn (sh_conn ?g)) = []"
    by (simp add: step_defs Let_def)
  ultimately show ?thesis by blast
qed

end
