(* ===== verification/WebServer.thy ===== *)
theory WebServer
  imports Metrics Logger Database
begin

text \<open>
  \<open>src/webserver.cpp\<close>, \<open>src/webserver.h\<close> and \<open>src/main.cpp\<close>: construction from the configuration file,
  the request handlers and the start of the server. The state of the process is one record (the
  logger and the metrics registry are singletons). The HTTP framework Crow is not part of the
  repository: it calls a handler with a request and sends the response that the handler returns; an
  exception that leaves a handler is the value \<open>Inl\<close> of its result. The clock, the file system
  and the iteration order of hash tables are arguments.
\<close>

section \<open>State\<close>

record request =
  req_body :: string
  remote_ip_address :: string

record response =
  res_code :: int
  res_headers :: "(string \<times> string) list"
  res_body :: string

record 's server =
  sv_logger :: Logger
  sv_metrics :: MetricsRegistry
  sv_db :: "'s database option"
  sv_port :: int
  sv_routes :: bool
  sv_console :: "string list"

text \<open>What a handler reads from the clock: the duration it measures and the time of day.\<close>

record timing =
  duration_ms :: int
  unix_time :: int

type_synonym 's outcome = "(exn + response) \<times> 's server"

type_synonym file_system = "string \<Rightarrow> string option"

abbreviation on_log :: "(Logger \<Rightarrow> Logger) \<Rightarrow> 's server \<Rightarrow> 's server" where
  "on_log f s \<equiv> s\<lparr>sv_logger := f (sv_logger s)\<rparr>"

abbreviation on_metrics :: "(MetricsRegistry \<Rightarrow> MetricsRegistry) \<Rightarrow> 's server \<Rightarrow> 's server" where
  "on_metrics f s \<equiv> s\<lparr>sv_metrics := f (sv_metrics s)\<rparr>"

definition new_response :: "int \<Rightarrow> response" where
  "new_response code = \<lparr>res_code = code, res_headers = [], res_body = []\<rparr>"

definition set_header :: "string \<Rightarrow> string \<Rightarrow> response \<Rightarrow> response" where
  "set_header key val r = r\<lparr>res_headers := umap_put key val (res_headers r)\<rparr>"

text \<open>\<open>duration_ms / 1000.0\<close>\<close>

definition seconds :: "int \<Rightarrow> double" where
  "seconds ms = (case round64 (of_int ms) of Fin x \<Rightarrow> round64 (x / 1000) | d \<Rightarrow> d)"

text \<open>\<open>e.what()\<close> as a C string.\<close>

definition c_what :: "exn \<Rightarrow> string" where
  "c_what e = takeWhile (\<lambda>c. c \<noteq> CHR 0x00) (what e)"

text \<open>The response of the API handlers: two headers and a JSON body, whose \<open>dump\<close> may throw.\<close>

definition api_response :: "int \<Rightarrow> json \<Rightarrow> exn + response" where
  "api_response code body =
     sum_bind (json_dump body) (\<lambda>text.
       Inr ((set_header ''Access-Control-Allow-Origin'' ''*''
              (set_header ''Content-Type'' ''application/json; charset=utf-8'' (new_response code)))
              \<lparr>res_body := text\<rparr>))"

text \<open>A call through the pointer \<open>db\<close>: dereferencing a null pointer is undefined.\<close>

definition call_db :: "('s database \<Rightarrow> ('a \<times> 's database) option) \<Rightarrow> 's server \<Rightarrow> ('a \<times> 's server) option" where
  "call_db f s =
     (case sv_db s of
        None \<Rightarrow> None
      | Some db \<Rightarrow> map_option (\<lambda>(x, db'). (x, s\<lparr>sv_db := Some db'\<rparr>)) (f db))"

definition client_ip :: "request \<Rightarrow> string" where
  "client_ip req = (if remote_ip_address req = [] then ''unknown'' else remote_ip_address req)"

section \<open>Metrics and static files\<close>

definition handle_metrics :: "(string list \<Rightarrow> string list) \<Rightarrow> 's server \<Rightarrow> 's outcome" where
  "handle_metrics ho s =
     (Inr ((set_header ''Content-Type'' ''text/plain; version=0.0.4; charset=utf-8'' (new_response 200))
        \<lparr>res_body := format ho (sv_metrics s)\<rparr>), s)"

definition text_response :: "int \<Rightarrow> string \<Rightarrow> response" where
  "text_response code body = (new_response code)\<lparr>res_body := body\<rparr>"

definition open_either :: "file_system \<Rightarrow> string \<Rightarrow> string option" where
  "open_either fs name =
     (case fs (''www/'' @ name) of Some c \<Rightarrow> Some c | None \<Rightarrow> fs (''../www/'' @ name))"

definition handle_index :: "file_system \<Rightarrow> 's server \<Rightarrow> 's outcome" where
  "handle_index fs s =
     (case open_either fs ''index.html'' of
        None \<Rightarrow> (Inr (text_response 404 ''Index file not found''), s)
      | Some content \<Rightarrow>
          (Inr ((set_header ''Content-Type'' ''text/html; charset=utf-8'' (new_response 200))
             \<lparr>res_body := content\<rparr>), s))"

definition content_type :: "string \<Rightarrow> string" where
  "content_type filename =
     (if contains_sub ''.css'' filename then ''text/css''
      else if contains_sub ''.js'' filename then ''application/javascript''
      else if contains_sub ''.png'' filename then ''image/png''
      else if contains_sub ''.jpg'' filename \<or> contains_sub ''.jpeg'' filename then ''image/jpeg''
      else ''text/html'')"

definition handle_static :: "file_system \<Rightarrow> string \<Rightarrow> 's server \<Rightarrow> 's outcome" where
  "handle_static fs filename s =
     (case open_either fs filename of
        None \<Rightarrow> (Inr (text_response 404 (''File not found: '' @ filename)), s)
      | Some content \<Rightarrow>
          (Inr ((set_header ''Content-Type'' (content_type filename) (new_response 200))
             \<lparr>res_body := content\<rparr>), s))"

section \<open>Connection test, login and logout\<close>

definition handle_test_db :: "'s libpq \<Rightarrow> timing \<Rightarrow> 's server \<Rightarrow> 's outcome" where
  "handle_test_db lq t s =
     (case call_db (testConnection lq) s of
        None \<Rightarrow> (Inl Undefined, s)
      | Some (ok, s) \<Rightarrow>
          (let s = on_metrics (recordHttpRequest ''GET'' ''/api/test-db'' 200 (seconds (duration_ms t))) s;
               s = on_metrics (recordDbOperation ''test_connection'' ok) s
           in (api_response 200 (json_fields [(''database_connected'', JBool ok),
                 (''timestamp'', JInt (unix_time t))]), s)))"

text \<open>A member of the body and its conversion.\<close>

definition member :: "string \<Rightarrow> (json \<Rightarrow> exn + 'a) \<Rightarrow> json \<Rightarrow> exn + ('a \<times> json)" where
  "member key get body =
     sum_bind (json_index key body) (\<lambda>(v, body). sum_bind (get v) (\<lambda>x. Inr (x, body)))"

text \<open>The reading of the two members of the body, the part of the handler that may throw.\<close>

definition login_credentials :: "string \<Rightarrow> exn + (string \<times> string)" where
  "login_credentials body_text =
     sum_bind (json_parse body_text) (\<lambda>body.
     sum_bind (member ''username'' get_string body) (\<lambda>(username, body).
     sum_bind (member ''password'' get_string body) (\<lambda>(password, body).
       Inr (username, password))))"

definition check_credentials :: "string \<Rightarrow> string \<Rightarrow> bool \<times> string" where
  "check_credentials username password =
     (if username = ''admin'' \<and> password = ''admin123'' then (True, ''Administrator login successful'')
      else if username = ''user'' \<and> password = ''user123'' then (True, ''User login successful'')
      else (False, ''Invalid credentials''))"

definition log_login :: "env \<Rightarrow> string \<Rightarrow> string \<Rightarrow> string \<Rightarrow> Logger \<Rightarrow> Logger" where
  "log_login e username password ip lg =
     (if username = ''admin'' \<and> password = ''admin123''
      then info_ctx e ''Admin user authenticated successfully'' ''webserver.cpp'' lg
      else if username = ''user'' \<and> password = ''user123''
      then info_ctx e ''Regular user authenticated successfully'' ''webserver.cpp'' lg
      else logAuth e username False ip ''Invalid username or password'' lg)"

definition login_body :: "string \<Rightarrow> string \<Rightarrow> json" where
  "login_body username password =
     (let (auth_success, auth_message) = check_credentials username password
      in json_fields [(''success'', JBool auth_success), (''message'', JString auth_message),
           (''username'', JString username),
           (''token'', JString (if auth_success then ''mock-jwt-token-'' @ username else []))])"

text \<open>The rest of the \<open>try\<close> block; its last step, \<open>dump\<close>, may throw.\<close>

definition login_try :: "env \<Rightarrow> timing \<Rightarrow> request \<Rightarrow> string \<Rightarrow> string \<Rightarrow> 's server \<Rightarrow> 's outcome" where
  "login_try e t req username password s =
     (let ip = client_ip req;
          auth_success = fst (check_credentials username password);
          code = (if auth_success then 200 else 401);
          s = on_log (logAuth e username True ip ''Login attempt started'') s;
          s = on_log (log_login e username password ip) s;
          s = on_log (logRequest e ip ''POST'' ''/api/login'' code (duration_ms t)) s;
          s = on_metrics (recordAuthAttempt username auth_success) s;
          s = on_metrics (recordHttpRequest ''POST'' ''/api/login'' code (seconds (duration_ms t))) s
      in (api_response code (login_body username password), s))"

definition error_body :: "exn \<Rightarrow> json" where
  "error_body ex = json_fields [(''success'', JBool False), (''error'', JString (c_what ex))]"

definition login_catch :: "env \<Rightarrow> timing \<Rightarrow> request \<Rightarrow> exn \<Rightarrow> 's server \<Rightarrow> 's outcome" where
  "login_catch e t req ex s =
     (let s = on_log (logRequest e (client_ip req) ''POST'' ''/api/login'' 400 (duration_ms t)) s;
          s = on_log (error_ctx e (''Login error: '' @ c_what ex) ''webserver.cpp'') s;
          s = on_metrics (recordAuthAttempt ''unknown'' False) s;
          s = on_metrics (recordHttpRequest ''POST'' ''/api/login'' 400 (seconds (duration_ms t))) s
      in (api_response 400 (error_body ex), s))"

text \<open>\<open>catch (const std::exception&)\<close>: undefined behaviour is not an exception.\<close>

definition try_catch :: "(exn \<Rightarrow> 's server \<Rightarrow> 's outcome) \<Rightarrow> 's outcome \<Rightarrow> 's outcome" where
  "try_catch handler r =
     (case fst r of
        Inr x \<Rightarrow> r
      | Inl Undefined \<Rightarrow> r
      | Inl (Exn m) \<Rightarrow> handler (Exn m) (snd r))"

definition handle_login :: "env \<Rightarrow> timing \<Rightarrow> request \<Rightarrow> 's server \<Rightarrow> 's outcome" where
  "handle_login e t req s =
     try_catch (login_catch e t req)
       (case login_credentials (req_body req) of
          Inl ex \<Rightarrow> (Inl ex, s)
        | Inr (username, password) \<Rightarrow> login_try e t req username password s)"

definition handle_logout :: "env \<Rightarrow> request \<Rightarrow> 's server \<Rightarrow> 's outcome" where
  "handle_logout e req s =
     (let s = on_log (info_ctx e ''User logout successful'' ''webserver.cpp'') s;
          s = on_metrics (recordHttpRequest ''POST'' ''/api/logout'' 200 (dlit 1 1000)) s;
          s = on_metrics (recordDbOperation ''logout'' True) s;
          s = on_log (logRequest e (client_ip req) ''POST'' ''/api/logout'' 200 1) s
      in (api_response 200 (json_fields [(''success'', JBool True),
            (''message'', JString ''Logged out successfully'')]), s))"

section \<open>Devices, service types and service records\<close>

definition device_json :: "Device \<Rightarrow> json" where
  "device_json d = json_fields [(''id'', JInt (dv_id d)), (''name'', JString (dv_name d)),
     (''model'', JString (dv_model d)), (''purchase_date'', JString (dv_purchase_date d)),
     (''status'', JString (dv_status d))]"

definition service_type_json :: "ServiceType \<Rightarrow> json" where
  "service_type_json ty = json_fields [(''id'', JInt (ty_id ty)), (''name'', JString (ty_name ty)),
     (''recommended_interval_months'', JInt (ty_recommended_interval_months ty)),
     (''standard_cost'', JFloat (ty_standard_cost ty))]"

definition service_record_json :: "ServiceRecord \<Rightarrow> json" where
  "service_record_json r = json_fields [(''id'', JInt (sr_id r)), (''device_id'', JInt (sr_device_id r)),
     (''service_id'', JInt (sr_service_id r)), (''service_date'', JString (sr_service_date r)),
     (''cost'', JFloat (sr_cost r)), (''notes'', JString (sr_notes r)),
     (''next_due_date'', JString (sr_next_due_date r))]"

text \<open>The common shape of the handlers that read: fetch, record the metrics, dump.\<close>

definition handle_list :: "string \<Rightarrow> string \<Rightarrow> ('s database \<Rightarrow> ('a list \<times> 's database) option) \<Rightarrow> ('a \<Rightarrow> json)
    \<Rightarrow> timing \<Rightarrow> 's server \<Rightarrow> 's outcome" where
  "handle_list path operation fetch to_json t s =
     (case call_db fetch s of
        None \<Rightarrow> (Inl Undefined, s)
      | Some (xs, s) \<Rightarrow>
          (let s = on_metrics (recordHttpRequest ''GET'' path 200 (seconds (duration_ms t))) s;
               s = on_metrics (recordDbOperation operation True) s
           in (api_response 200 (JArray (map to_json xs)), s)))"

definition handle_get_devices :: "'s libpq \<Rightarrow> timing \<Rightarrow> 's server \<Rightarrow> 's outcome" where
  "handle_get_devices lq = handle_list ''/api/devices'' ''get_devices'' (getAllDevices lq) device_json"

definition handle_post_devices :: "env \<Rightarrow> request \<Rightarrow> 's server \<Rightarrow> 's outcome" where
  "handle_post_devices e req s =
     (let s = on_log (warning_ctx e (''Blocked device creation attempt from IP: '' @ client_ip req) ''webserver.cpp'') s;
          s = on_log (logDevice e (- 1) ''create_blocked'' False) s;
          s = on_metrics (recordDeviceOperation ''create_blocked'' (- 1) False) s;
          s = on_metrics (recordHttpRequest ''POST'' ''/api/devices'' 403 (dlit 1 1000)) s
      in (api_response 403 (json_fields [(''success'', JBool False),
            (''error'', JString ''Adding new devices is disabled'')]), s))"

definition handle_get_service_types :: "'s libpq \<Rightarrow> timing \<Rightarrow> 's server \<Rightarrow> 's outcome" where
  "handle_get_service_types lq =
     handle_list ''/api/service-types'' ''get_service_types'' (getAllServiceTypes lq) service_type_json"

definition handle_get_history :: "'s libpq \<Rightarrow> timing \<Rightarrow> 's server \<Rightarrow> 's outcome" where
  "handle_get_history lq t s =
     (case call_db (getDetailedServiceHistory lq) s of
        None \<Rightarrow> (Inl Undefined, s)
      | Some (history, s) \<Rightarrow>
          (let s = on_metrics (recordHttpRequest ''GET'' ''/api/service-history'' 200 (seconds (duration_ms t))) s;
               s = on_metrics (recordDbOperation ''get_service_history'' True) s
           in (api_response 200 history, s)))"

text \<open>The record of the request; its \<open>id\<close> stays uninitialised and is not used.\<close>

definition parse_record :: "string \<Rightarrow> exn + ServiceRecord" where
  "parse_record body_text =
     sum_bind (json_parse body_text) (\<lambda>b.
     sum_bind (member ''device_id'' get_int b) (\<lambda>(d, b).
     sum_bind (member ''service_id'' get_int b) (\<lambda>(sv, b).
     sum_bind (member ''service_date'' get_string b) (\<lambda>(dt, b).
     sum_bind (member ''cost'' get_double b) (\<lambda>(c, b).
     sum_bind (member ''notes'' get_string b) (\<lambda>(n, b).
     sum_bind (member ''next_due_date'' get_string b) (\<lambda>(x, b).
       Inr \<lparr>sr_id = 0, sr_device_id = d, sr_service_id = sv, sr_service_date = dt, sr_cost = c,
            sr_notes = n, sr_next_due_date = x\<rparr>)))))))"

definition record_try :: "'s libpq \<Rightarrow> timing \<Rightarrow> ServiceRecord \<Rightarrow> 's server \<Rightarrow> 's outcome" where
  "record_try lq t r s =
     (case call_db (addServiceRecord lq r) s of
        None \<Rightarrow> (Inl Undefined, s)
      | Some (success, s) \<Rightarrow>
          (let record_id = (if success then 1 else - 1);
               s = on_metrics (recordServiceOperation ''create'' record_id success) s;
               s = on_metrics (recordDbOperation ''add_service_record'' success) s;
               s = on_metrics (recordHttpRequest ''POST'' ''/api/service-history''
                     (if success then 200 else 400) (seconds (duration_ms t))) s
           in (api_response 200 (json_fields [(''success'', JBool success)]), s)))"

definition record_catch :: "timing \<Rightarrow> exn \<Rightarrow> 's server \<Rightarrow> 's outcome" where
  "record_catch t ex s =
     (let s = on_metrics (recordServiceOperation ''create'' (- 1) False) s;
          s = on_metrics (recordDbOperation ''add_service_record'' False) s;
          s = on_metrics (recordHttpRequest ''POST'' ''/api/service-history'' 400 (seconds (duration_ms t))) s
      in (api_response 400 (error_body ex), s))"

definition handle_post_history :: "'s libpq \<Rightarrow> timing \<Rightarrow> request \<Rightarrow> 's server \<Rightarrow> 's outcome" where
  "handle_post_history lq t req s =
     try_catch (record_catch t)
       (case parse_record (req_body req) of
          Inl ex \<Rightarrow> (Inl ex, s)
        | Inr r \<Rightarrow> record_try lq t r s)"

definition handle_get_records :: "'s libpq \<Rightarrow> timing \<Rightarrow> 's server \<Rightarrow> 's outcome" where
  "handle_get_records lq =
     handle_list ''/api/service-records'' ''get_service_records'' (getAllServiceRecords lq) service_record_json"

section \<open>Routes\<close>

datatype route = R_metrics | R_index | R_static | R_test_db | R_login | R_logout | R_get_devices
  | R_post_devices | R_get_service_types | R_get_history | R_post_history | R_get_records

text \<open>Method and pattern of every route, in the order of registration.\<close>

definition routes :: "(string \<times> string \<times> route) list" where
  "routes = [
     (''GET'', ''/metrics'', R_metrics),
     (''GET'', ''/'', R_index),
     (''GET'', ''/<string>'', R_static),
     (''GET'', ''/api/test-db'', R_test_db),
     (''POST'', ''/api/login'', R_login),
     (''POST'', ''/api/logout'', R_logout),
     (''GET'', ''/api/devices'', R_get_devices),
     (''POST'', ''/api/devices'', R_post_devices),
     (''GET'', ''/api/service-types'', R_get_service_types),
     (''GET'', ''/api/service-history'', R_get_history),
     (''POST'', ''/api/service-history'', R_post_history),
     (''GET'', ''/api/service-records'', R_get_records)]"

definition setupRoutes :: "'s server \<Rightarrow> 's server" where
  "setupRoutes s = s\<lparr>sv_routes := True\<rparr>"

text \<open>The handler of a route; \<open>filename\<close> is the argument of the pattern \<open>/<string>\<close>.\<close>

fun serve :: "env \<Rightarrow> 's libpq \<Rightarrow> file_system \<Rightarrow> route \<Rightarrow> string \<Rightarrow> timing \<Rightarrow> request \<Rightarrow> 's server \<Rightarrow> 's outcome" where
  "serve e lq fs R_metrics filename t req s = handle_metrics (hash_order e) s"
| "serve e lq fs R_index filename t req s = handle_index fs s"
| "serve e lq fs R_static filename t req s = handle_static fs filename s"
| "serve e lq fs R_test_db filename t req s = handle_test_db lq t s"
| "serve e lq fs R_login filename t req s = handle_login e t req s"
| "serve e lq fs R_logout filename t req s = handle_logout e req s"
| "serve e lq fs R_get_devices filename t req s = handle_get_devices lq t s"
| "serve e lq fs R_post_devices filename t req s = handle_post_devices e req s"
| "serve e lq fs R_get_service_types filename t req s = handle_get_service_types lq t s"
| "serve e lq fs R_get_history filename t req s = handle_get_history lq t s"
| "serve e lq fs R_post_history filename t req s = handle_post_history lq t req s"
| "serve e lq fs R_get_records filename t req s = handle_get_records lq t s"

section \<open>Start-up\<close>

text \<open>\<open>config[k1][k2]\<close>, a reference into the configuration.\<close>

definition config_at :: "string \<Rightarrow> string \<Rightarrow> (json \<Rightarrow> exn + 'a) \<Rightarrow> json \<Rightarrow> exn + ('a \<times> json)" where
  "config_at k1 k2 get config =
     sum_bind (json_index k1 config) (\<lambda>(section, config).
     sum_bind (json_index k2 section) (\<lambda>(v, section).
     sum_bind (json_assign k1 section config) (\<lambda>config.
     sum_bind (get v) (\<lambda>x. Inr (x, config)))))"

text \<open>
  The operands of the concatenation, read from left to right. The language leaves their order open;
  it only decides which of several unreadable members is reported.
\<close>

definition connection_string :: "json \<Rightarrow> exn + (string \<times> json)" where
  "connection_string config =
     sum_bind (config_at ''database'' ''host'' get_string config) (\<lambda>(host, config).
     sum_bind (config_at ''database'' ''port'' get_int config) (\<lambda>(port, config).
     sum_bind (config_at ''database'' ''dbname'' get_string config) (\<lambda>(dbname, config).
     sum_bind (config_at ''database'' ''user'' get_string config) (\<lambda>(user, config).
     sum_bind (config_at ''database'' ''password'' get_string config) (\<lambda>(password, config).
       Inr (''host='' @ host @ '' port='' @ show_int port @ '' dbname='' @ dbname @ '' user='' @ user @
            '' password='' @ password, config))))))"

definition log_msg :: "env \<Rightarrow> string \<Rightarrow> 's server \<Rightarrow> 's server" where
  "log_msg e m s = on_log (info_ctx e m ''webserver.cpp'') s"

definition log_err :: "env \<Rightarrow> string \<Rightarrow> 's server \<Rightarrow> 's server" where
  "log_err e m s = on_log (error_ctx e m ''webserver.cpp'') s"

text \<open>The end of the \<open>try\<close> block, with the connection established.\<close>

definition configure :: "env \<Rightarrow> json \<Rightarrow> 's server \<Rightarrow> (exn + unit) \<times> 's server" where
  "configure e config s =
     (let s = log_msg e ''Connected to database successfully'' s;
          s = on_log (logDatabase e ''connect'' True ''Database connection established'') s
      in case config_at ''server'' ''port'' get_int config of
           Inl ex \<Rightarrow> (Inl ex, s)
         | Inr (port, _) \<Rightarrow>
             (let s = s\<lparr>sv_port := port\<rparr>;
                  s = log_msg e (''Server configured for port: '' @ show_int port) s;
                  (m, out) = initialize (sv_metrics s);
                  s = s\<lparr>sv_metrics := m, sv_console := sv_console s @ out\<rparr>;
                  s = log_msg e ''Prometheus metrics initialized'' s;
                  s = setupRoutes s
              in (Inr (), log_msg e ''Routes configured successfully'' s)))"

definition construct_try :: "env \<Rightarrow> 's libpq \<Rightarrow> string \<Rightarrow> 's server \<Rightarrow> (exn + unit) \<times> 's server" where
  "construct_try e lq text s =
     (case sum_bind (json_extract text) connection_string of
        Inl ex \<Rightarrow> (Inl ex, s)
      | Inr (conn_str, config) \<Rightarrow>
          (let s = log_msg e ''Connecting to database...'' s;
               db = new_database lq conn_str;
               s = s\<lparr>sv_db := Some db\<rparr>
           in if \<not> db_connect lq db
              then (Inr (), on_log (logDatabase e ''connect'' False ''Connection failed'')
                      (log_err e ''Failed to connect to database'' s))
              else configure e config s))"

definition start_server :: "Logger \<Rightarrow> MetricsRegistry \<Rightarrow> 's server" where
  "start_server lg m = \<lparr>sv_logger = lg, sv_metrics = m, sv_db = None, sv_port = 8080,
     sv_routes = False, sv_console = []\<rparr>"

text \<open>The constructor; \<open>Inl Undefined\<close> when it runs into undefined behaviour.\<close>

definition new_WebServer :: "env \<Rightarrow> 's libpq \<Rightarrow> file_system \<Rightarrow> string \<Rightarrow> 's server \<Rightarrow> (exn + unit) \<times> 's server" where
  "new_WebServer e lq fs config_file s =
     (let s = on_log (initWithLoki e ''logs/webserver.log'' DEBUG ''localhost'' 3100) s;
          s = on_log (setServiceName ''service_system'') s;
          s = on_log (logLifecycle e ''startup'' ''WebServer constructor started'') s;
          s = log_msg e ''WebServer constructor started with Loki integration'' s
      in case fs config_file of
           None \<Rightarrow> (Inr (), log_err e (''Cannot open config file: '' @ config_file) s)
         | Some text \<Rightarrow>
             (case construct_try e lq text (log_msg e (''Config file opened: '' @ config_file) s) of
                (Inl Undefined, s) \<Rightarrow> (Inl Undefined, s)
              | (Inl ex, s) \<Rightarrow> (Inr (), log_err e (''Config error: '' @ c_what ex) s)
              | (Inr _, s) \<Rightarrow> (Inr (), s)))"

text \<open>\<open>run\<close> up to the call that hands control to Crow on \<open>port\<close>.\<close>

definition run :: "'s server \<Rightarrow> 's server" where
  "run s =
     (let s = s\<lparr>sv_console := sv_console s @ [''Starting server on port '' @ show_int (sv_port s)]\<rparr>;
          (m, out) = initialize (sv_metrics s)
      in s\<lparr>sv_metrics := m, sv_console := sv_console s @ out\<rparr>)"

text \<open>
  \<open>main\<close> with the exit code: 1 when a standard exception leaves the constructor, with its message on
  the console, and 0 after \<open>run\<close>; the state is the one in which Crow takes over. What Crow does
  until it returns, or throws into the same \<open>catch\<close>, is not modelled.
\<close>

definition main :: "env \<Rightarrow> 's libpq \<Rightarrow> file_system \<Rightarrow> string list \<Rightarrow> (exn + int) \<times> 's server" where
  "main e lq fs argv =
     (let config_file = (if 1 < length argv then argv ! 1 else ''config.json'')
      in case new_WebServer e lq fs config_file (start_server new_Logger new_MetricsRegistry) of
           (Inl Undefined, s) \<Rightarrow> (Inl Undefined, s)
         | (Inl (Exn m), s) \<Rightarrow>
             (Inr 1, s\<lparr>sv_console := sv_console s @ [''Server error: '' @ c_what (Exn m)]\<rparr>)
         | (Inr _, s) \<Rightarrow> (Inr 0, run s))"

end
