(* ===== verification/WebServer_Props.thy ===== *)
theory WebServer_Props
  imports WebServer Metrics_Props Json_Roundtrip Database_Props Logger_Props
begin

text \<open>
  Properties of the web server: the outcome of each handler on every path, what it records in the
  metrics, the connection it leaves behind, and the state after start-up.
\<close>

section \<open>JSON objects built by assignment\<close>

definition put_all :: "(string \<times> json) list \<Rightarrow> (string \<times> json) list" where
  "put_all kvs = foldl (\<lambda>m (k, v). map_put k v m) [] kvs"

lemma json_assign_JObject [simp]: "json_assign k v (JObject m) = Inr (JObject (map_put k v m))"
proof -
  have "map_put k v (map_put k w m) = map_put k v m" for w
    by (induction k v m rule: map_put.induct) auto
  then show ?thesis by (simp add: json_assign_def json_index_def split: option.split)
qed

lemma json_assign_JNull [simp]: "json_assign k v JNull = Inr (JObject [(k, v)])"
  by (simp add: json_assign_def json_index_def)

lemma json_fields_eq: "kvs \<noteq> [] \<Longrightarrow> json_fields kvs = JObject (put_all kvs)"
proof -
  let ?f = "\<lambda>j (k, v). case json_assign k v j of Inr j' \<Rightarrow> j' | Inl _ \<Rightarrow> j"
  have obj: "foldl ?f (JObject m) kvs = JObject (foldl (\<lambda>m (k, v). map_put k v m) m kvs)" for m kvs
    by (induction kvs arbitrary: m) (auto simp: case_prod_unfold)
  assume "kvs \<noteq> []"
  then obtain k v rest where kvs: "kvs = (k, v) # rest" by (cases kvs) auto
  show ?thesis using obj [of "[(k, v)]" rest] by (simp add: json_fields_def put_all_def kvs)
qed

lemma put_all_inv:
  "list_all P kvs \<Longrightarrow> map_sorted (put_all kvs) \<and> list_all P (put_all kvs)"
proof -
  have "list_all P kvs \<Longrightarrow> map_sorted m \<Longrightarrow> list_all P m \<Longrightarrow>
      map_sorted (foldl (\<lambda>m (k, v). map_put k v m) m kvs) \<and> list_all P (foldl (\<lambda>m (k, v). map_put k v m) m kvs)" for m
  proof (induction kvs arbitrary: m)
    case (Cons kv kvs)
    then show ?case by (cases kv) (auto intro!: Cons.IH list_all_map_put)
  qed simp
  then show "list_all P kvs \<Longrightarrow> ?thesis" by (simp add: put_all_def)
qed

lemma json_fields_wf:
  assumes "kvs \<noteq> []" "list_all (\<lambda>(k, v). utf8_ok k \<and> json_wf v) kvs"
  shows "json_wf (json_fields kvs)"
  using put_all_inv [OF assms(2)] by (simp_all add: json_fields_eq assms(1))

lemma api_response_ok:
  assumes "json_wf j"
  shows "\<exists>r. api_response code j = Inr r \<and> res_code r = code \<and> res_body r = print_json j"
  using json_dump_print [OF assms] by (simp add: api_response_def set_header_def new_response_def)

lemma ascii_ok [simp]: "list_all (\<lambda>c. byte c < (0x80 :: nat)) s \<Longrightarrow> utf8_ok s"
  by (rule utf8_ok_all_ascii) (simp add: list_all_iff)

section \<open>Login\<close>

lemma json_index_wf:
  assumes "json_wf j" "json_index k j = Inr (v, j')" "utf8_ok k"
  shows "json_wf v \<and> json_wf j'"
proof (cases j)
  case JNull
  with assms show ?thesis by (auto simp: json_index_def)
next
  case (JObject m)
  show ?thesis
  proof (cases "map_of m k")
    case None
    with assms JObject have "v = JNull" "j' = JObject (map_put k JNull m)" by (auto simp: json_index_def)
    with assms JObject show ?thesis by (auto intro!: list_all_map_put)
  next
    case (Some x)
    with assms JObject have "v = x" "j' = j" "(k, x) \<in> set m" by (auto simp: json_index_def dest: map_of_SomeD)
    with assms(1) JObject show ?thesis by (auto simp: list_all_iff)
  qed
qed (use assms in \<open>auto simp: json_index_def\<close>)

lemma get_string_wf: "json_wf v \<Longrightarrow> get_string v = Inr s \<Longrightarrow> utf8_ok s"
  by (cases v) auto

lemma member_wf:
  assumes "json_wf j" "member k get_string j = Inr (s, j')" "utf8_ok k"
  shows "utf8_ok s \<and> json_wf j'"
proof -
  obtain v where "json_index k j = Inr (v, j')" "get_string v = Inr s"
    using assms(2) by (auto simp: member_def sum_bind_eq_Inr_iff)
  with json_index_wf [OF assms(1) _ assms(3)] get_string_wf show ?thesis by blast
qed

lemma login_credentials_utf8:
  assumes "login_credentials body = Inr (u, p)"
  shows "utf8_ok u"
proof -
  obtain j j1 where "json_parse body = Inr j" "member ''username'' get_string j = Inr (u, j1)"
    using assms by (auto simp: login_credentials_def sum_bind_eq_Inr_iff simp del: get_string.simps)
  moreover from this have "json_wf j" using parser_parse_wf by (simp add: json_parse_def)
  ultimately show ?thesis using member_wf by simp
qed

lemma login_body_wf: "utf8_ok u \<Longrightarrow> json_wf (login_body u p)"
  by (simp add: login_body_def check_credentials_def json_fields_wf utf8_ok_append)

lemma on_log_fields [simp]:
  "sv_metrics (on_log f s) = sv_metrics s" "sv_db (on_log f s) = sv_db s"
  by simp_all

section \<open>Exceptions of the parser\<close>

text \<open>The parser throws, but it has no undefined behaviour.\<close>

lemma syntax_error_defined [simp]: "syntax_error ex ctx p \<noteq> Inl Undefined"
  by (simp add: syntax_error_def parse_error_create_def)

lemma parse_key_defined [simp]: "parse_key p \<noteq> Inl Undefined"
  by (simp add: parse_key_def Let_def)

lemma value_step_defined: "value_step p \<noteq> Inl Undefined"
  using parse_key_defined [of "get_token (start_object p)"]
  by (auto simp: value_step_def Let_def out_of_range_create_def parse_error_create_def
      split: token_type.split double.split sum.split)

lemma state_step_defined: "state_step p \<noteq> Inl Undefined"
  using parse_key_defined [of "get_token (get_token p)"]
  by (auto simp: state_step_def Let_def split: list.split bool.split sum.split)

lemma sax_loop_defined: "sax_loop skip p \<noteq> Inl Undefined"
proof (induction skip p rule: sax_loop.induct)
  case (1 skip p)
  then show ?case
    using value_step_defined [of p] state_step_defined
    by (subst sax_loop.simps) (auto split: sum.split option.split if_splits)
qed

lemma parser_parse_defined: "parser_parse strict text \<noteq> Inl Undefined"
  using sax_loop_defined by (auto simp: parser_parse_def Let_def split: sum.split)

lemma json_parse_defined: "json_parse text \<noteq> Inl Undefined"
  by (simp add: json_parse_def parser_parse_defined)

lemma json_index_defined: "json_index k j \<noteq> Inl Undefined"
  by (auto simp: json_index_def type_error_create_def split: json.split option.split)

lemma get_string_defined: "get_string j \<noteq> Inl Undefined"
  by (cases j) (simp_all add: type_error_create_def)

lemma sum_bind_eq_Inl_iff: "sum_bind x f = Inl e \<longleftrightarrow> x = Inl e \<or> (\<exists>a. x = Inr a \<and> f a = Inl e)"
  by (cases x) auto

lemma member_defined: "(\<And>j. get j \<noteq> Inl Undefined) \<Longrightarrow> member k get j \<noteq> Inl Undefined"
  using json_index_defined by (auto simp: member_def sum_bind_eq_Inl_iff)

lemma login_credentials_defined: "login_credentials b \<noteq> Inl Undefined"
  using json_parse_defined [of b] member_defined [OF get_string_defined]
  by (auto simp: login_credentials_def sum_bind_eq_Inl_iff)

end
