(* ===== verification/WebServer_Login.thy ===== *)
theory WebServer_Login
  imports WebServer_Props
begin

text \<open>
  The login handler on every path: known and unknown accounts, bodies that cannot be used, and the
  error path whose own answer cannot be built.
\<close>

text \<open>The two accounts that the handler knows.\<close>

definition known_account :: "string \<Rightarrow> string \<Rightarrow> bool" where
  "known_account u p \<longleftrightarrow> (u, p) \<in> {(''admin'', ''admin123''), (''user'', ''user123'')}"

lemma check_credentials_known: "fst (check_credentials u p) = known_account u p"
  by (simp add: check_credentials_def known_account_def)

text \<open>The answer to a login, as the client parses it.\<close>

definition login_answer :: "string \<Rightarrow> string \<Rightarrow> json" where
  "login_answer u p = JObject
     [(''message'', JString
         (if (u, p) = (''admin'', ''admin123'') then ''Administrator login successful''
          else if (u, p) = (''user'', ''user123'') then ''User login successful''
          else ''Invalid credentials'')),
      (''success'', JBool (known_account u p)),
      (''token'', JString (if known_account u p then ''mock-jwt-token-'' @ u else [])),
      (''username'', JString u)]"

lemma login_body_answer: "norm_json (login_body u p) = login_answer u p"
  by (simp add: login_body_def check_credentials_def login_answer_def known_account_def json_fields_eq
      put_all_def less_list_code)

text \<open>
  C25. A login request whose body is a JSON object with two strings: the answer is 200 exactly for the
  two known accounts and 401 otherwise. A client that parses the body gets an object of four
  members: the success flag, true exactly for the known accounts; the token, which is empty unless
  the login succeeded and then ends in the user name; the user name; and one of three messages.
  The attempt and the request are recorded in the metrics with that status, the database is not
  touched, and no exception leaves the handler.
\<close>

theorem login_outcome:
  assumes "login_credentials (req_body req) = Inr (u, p)"
  shows "\<exists>r. fst (handle_login e t req s) = Inr r \<and>
      res_code r = (if known_account u p then 200 else 401) \<and>
      json_parse (res_body r) = Inr (JObject
        [(''message'', JString
            (if (u, p) = (''admin'', ''admin123'') then ''Administrator login successful''
             else if (u, p) = (''user'', ''user123'') then ''User login successful''
             else ''Invalid credentials'')),
         (''success'', JBool (known_account u p)),
         (''token'', JString (if known_account u p then ''mock-jwt-token-'' @ u else [])),
         (''username'', JString u)]) \<and>
      sv_metrics (snd (handle_login e t req s)) =
        recordHttpRequest ''POST'' ''/api/login'' (if known_account u p then 200 else 401) (seconds (duration_ms t))
          (recordAuthAttempt u (known_account u p) (sv_metrics s)) \<and>
      sv_db (snd (handle_login e t req s)) = sv_db s"
proof -
  have wf: "json_wf (login_body u p)"
    using login_body_wf [OF login_credentials_utf8 [OF assms]] by simp_all
  from api_response_ok [OF wf] obtain r where
    r: "api_response (if known_account u p then 200 else 401) (login_body u p) = Inr r"
    "res_code r = (if known_account u p then 200 else 401)" "res_body r = print_json (login_body u p)"
    by blast
  have "json_parse (res_body r) = Inr (login_answer u p)"
    using json_parse_print [OF wf] by (simp add: r(3) login_body_answer)
  with r show ?thesis
    by (simp add: handle_login_def assms login_try_def try_catch_def Let_def check_credentials_known
        login_answer_def)
qed

definition sample_login :: request where
  "sample_login = \<lparr>req_body = ''{'' @ [dq] @ ''username'' @ [dq] @ '': '' @ [dq] @ ''admin'' @ [dq] @ '', '' @
     [dq] @ ''password'' @ [dq] @ '': '' @ [dq] @ ''admin123'' @ [dq] @ ''}'', remote_ip_address = []\<rparr>"

theorem login_outcome_witness:
  "\<forall>e t (s :: unit server). \<exists>r. fst (handle_login e t sample_login s) = Inr r \<and> res_code r = 200"
proof (intro allI)
  fix e t and s :: "unit server"
  have "login_credentials (req_body sample_login) = Inr (''admin'', ''admin123'')" by code_simp
  from login_outcome [OF this, of e t s] show "\<exists>r. fst (handle_login e t sample_login s) = Inr r \<and> res_code r = 200"
    by (auto simp: known_account_def)
qed

lemma error_body_response:
  "if utf8_ok (c_what ex)
   then \<exists>r. api_response code (error_body ex) = Inr r \<and> res_code r = code \<and> res_body r = print_json (error_body ex)
   else \<exists>m. api_response code (error_body ex) = Inl (type_error_create 316 m)"
proof (cases "utf8_ok (c_what ex)")
  case True
  have "json_wf (error_body ex)"
    using True by (simp_all add: error_body_def json_fields_wf)
  with True api_response_ok show ?thesis by simp
next
  case False
  have body: "error_body ex = JObject [(''error'', JString (c_what ex)), (''success'', JBool False)]"
    by (simp add: error_body_def json_fields_eq put_all_def less_list_code)
  have "\<exists>m. quoted compact (c_what ex) = Inl (type_error_create 316 m)"
    using False dump_escaped_cases [of "c_what ex"] by (auto simp: quoted_def)
  moreover have "quoted compact ''error'' = Inr (dq # escape_string ''error'' @ [dq])"
    by (rule quoted_ok) simp
  ultimately show ?thesis using False by (auto simp: api_response_def body json_dump_compact layout_defs)
qed

text \<open>
  C26. A login request whose body cannot be used (not JSON, not an object, a member that is not a
  string): the failure is recorded as an attempt of \<open>unknown\<close> and as a request with status 400, the
  database is not touched. The answer is 400 with the message of the exception, provided that
  message is well-formed UTF-8; otherwise building the answer throws type error 316 out of the handler.
\<close>

theorem login_malformed:
  assumes "login_credentials (req_body req) = Inl ex"
  shows "sv_metrics (snd (handle_login e t req s)) =
      recordHttpRequest ''POST'' ''/api/login'' 400 (seconds (duration_ms t))
        (recordAuthAttempt ''unknown'' False (sv_metrics s)) \<and>
    sv_db (snd (handle_login e t req s)) = sv_db s \<and>
    (if utf8_ok (c_what ex)
     then \<exists>r. fst (handle_login e t req s) = Inr r \<and> res_code r = 400 \<and> res_body r = print_json (error_body ex)
     else \<exists>m. fst (handle_login e t req s) = Inl (type_error_create 316 m))"
proof -
  obtain m where ex: "ex = Exn m" using assms login_credentials_defined by (cases ex) auto
  have "handle_login e t req s = login_catch e t req ex s"
    by (simp add: handle_login_def assms try_catch_def ex)
  then show ?thesis
    using error_body_response [of ex 400] by (simp add: login_catch_def Let_def)
qed

theorem login_malformed_witness:
  "\<forall>e t (s :: unit server).
     \<exists>r. fst (handle_login e t \<lparr>req_body = ''[]'', remote_ip_address = []\<rparr> s) = Inr r \<and> res_code r = 400"
proof (intro allI)
  fix e t and s :: "unit server"
  let ?ex = "type_error_create 305 ''cannot use operator[] with a string argument with array''"
  have "login_credentials (req_body \<lparr>req_body = ''[]'', remote_ip_address = []\<rparr>) = Inl ?ex" by code_simp
  note m = login_malformed [OF this, of e t s]
  have "utf8_ok (c_what ?ex)" by code_simp
  with m show "\<exists>r. fst (handle_login e t \<lparr>req_body = ''[]'', remote_ip_address = []\<rparr> s) = Inr r \<and> res_code r = 400"
    by auto
qed

text \<open>
  C27. The error path of login can itself fail: a body that consists of the byte 0xFF is quoted in the
  parser's message, which then is not UTF-8, so the handler ends with an exception instead of the
  400 it has already recorded.
\<close>

theorem login_error_path_throws:
  "\<exists>m. fst (handle_login e t \<lparr>req_body = [CHR 0xFF], remote_ip_address = ip\<rparr> s) = Inl (type_error_create 316 m)"
proof -
  have un: "\<not> utf8_ok (c_what (projl (login_credentials [CHR 0xFF])))" by code_simp
  have "isl (login_credentials [CHR 0xFF])" by code_simp
  then obtain ex where ex: "login_credentials [CHR 0xFF] = Inl ex" by (auto simp: isl_def)
  then obtain m where m: "ex = Exn m" using login_credentials_defined by (cases ex) auto
  then show ?thesis
    using un error_body_response [of ex 400] by (simp add: handle_login_def ex try_catch_def login_catch_def Let_def)
qed

end
