(* ===== verification/WebServer_Requests.thy ===== *)
theory WebServer_Requests
  imports WebServer_Login "HOL-Library.Code_Target_Nat"
begin

text \<open>
  The handlers that use the database, one request after the other: the connection stays usable, and
  what each of them answers and records on every path.
\<close>

section \<open>Database calls\<close>

text \<open>A usable server: the database object is there, with a connection that no transaction uses.\<close>

definition server_ok :: "'s server \<Rightarrow> bool" where
  "server_ok s \<longleftrightarrow> (case sv_db s of None \<Rightarrow> False | Some db \<Rightarrow> db_free db)"

text \<open>
  What the handlers rely on when they call the database through the pointer: on a free connection
  the call comes back and leaves the connection free.
\<close>

locale db_call =
  fixes f :: "'s database \<Rightarrow> ('a \<times> 's database) option"
  assumes call_free: "db_free db \<Longrightarrow> \<exists>x db'. f db = Some (x, db') \<and> db_free db'"
begin

lemma call_db_ok:
  assumes "server_ok s"
  obtains db x db' where "sv_db s = Some db" "f db = Some (x, db')" "db_free db'"
    "call_db f s = Some (x, s\<lparr>sv_db := Some db'\<rparr>)"
proof -
  obtain db where db: "sv_db s = Some db" "db_free db"
    using assms by (auto simp: server_ok_def split: option.splits)
  from call_free [OF db(2)] obtain x db' where "f db = Some (x, db')" "db_free db'" by blast
  with db(1) that [of db x db'] show ?thesis by (simp add: call_db_def)
qed

text \<open>A handler that calls the database and then only records and answers keeps the server usable.\<close>

lemma handler_keeps_ok:
  assumes "server_ok s" "\<And>x s'. sv_db (snd (k x s')) = sv_db s'"
  shows "server_ok (snd (case call_db f s of None \<Rightarrow> (Inl Undefined, s) | Some (x, s) \<Rightarrow> k x s))"
proof -
  obtain db x db' where "db_free db'" "call_db f s = Some (x, s\<lparr>sv_db := Some db'\<rparr>)"
    using call_db_ok [OF assms(1)] by blast
  then show ?thesis using assms(2) by (simp add: server_ok_def)
qed

end

interpretation test_call: db_call "testConnection lq" for lq :: "'s libpq"
  by unfold_locales (rule testConnection_free)

interpretation devices_call: db_call "getAllDevices lq" for lq :: "'s libpq"
  by unfold_locales (simp add: getAllDevices_def fetch_op_free)

interpretation types_call: db_call "getAllServiceTypes lq" for lq :: "'s libpq"
  by unfold_locales (simp add: getAllServiceTypes_def fetch_op_free)

interpretation records_call: db_call "getAllServiceRecords lq" for lq :: "'s libpq"
  by unfold_locales (simp add: getAllServiceRecords_def fetch_op_free)

interpretation add_call: db_call "addServiceRecord lq r" for lq :: "'s libpq" and r
  by unfold_locales (simp add: addServiceRecord_def update_op_free)

interpretation history_call: db_call "getDetailedServiceHistory lq" for lq :: "'s libpq"
proof
  fix db :: "'s database"
  assume "db_free db"
  note free = fetch_op_free [OF this]
  show "\<exists>x db'. getDetailedServiceHistory lq db = Some (x, db') \<and> db_free db'"
    unfolding getDetailedServiceHistory_def by (rule exE [OF free]) force
qed

section \<open>Sequences of requests\<close>

lemma on_metrics_db [simp]: "sv_db (on_metrics f s) = sv_db s"
  by simp

lemma handle_list_ok:
  assumes "db_call fetch" "server_ok s"
  shows "server_ok (snd (handle_list path operation fetch to_json t s))"
  unfolding handle_list_def
  by (rule db_call.handler_keeps_ok [OF assms]) (simp add: Let_def)

lemma handle_login_db [simp]: "sv_db (snd (handle_login e t req s)) = sv_db s"
  by (auto simp: handle_login_def try_catch_def login_try_def login_catch_def Let_def
      split: sum.split exn.split)

lemma record_try_ok: "server_ok s \<Longrightarrow> server_ok (snd (record_try lq t r s))"
  unfolding record_try_def
  by (rule add_call.handler_keeps_ok) (simp_all add: Let_def)

lemma handle_post_history_ok:
  assumes "server_ok s"
  shows "server_ok (snd (handle_post_history lq t req s))"
  using assms record_try_ok [OF assms]
  by (auto simp: handle_post_history_def try_catch_def record_catch_def Let_def server_ok_def
      split: sum.split exn.split)

lemma serve_ok:
  assumes "server_ok s"
  shows "server_ok (snd (serve e lq fs rt filename t req s))"
proof (cases rt)
  case R_test_db
  then show ?thesis
    using assms by (simp add: handle_test_db_def) (rule test_call.handler_keeps_ok, simp_all add: Let_def)
next
  case R_get_history
  then show ?thesis
    using assms by (simp add: handle_get_history_def) (rule history_call.handler_keeps_ok, simp_all add: Let_def)
next
  case R_get_devices
  then show ?thesis
    using assms by (simp add: handle_get_devices_def handle_list_ok devices_call.db_call_axioms)
next
  case R_get_service_types
  then show ?thesis
    using assms by (simp add: handle_get_service_types_def handle_list_ok types_call.db_call_axioms)
next
  case R_get_records
  then show ?thesis
    using assms by (simp add: handle_get_records_def handle_list_ok records_call.db_call_axioms)
next
  case R_post_history
  then show ?thesis using assms by (simp add: handle_post_history_ok)
qed (use assms in \<open>auto simp: server_ok_def handle_metrics_def handle_index_def handle_static_def
       handle_logout_def handle_post_devices_def Let_def split: option.splits\<close>)

text \<open>Requests one after the other, each with its own environment and clock.\<close>

record http_call =
  hc_env :: env
  hc_route :: route
  hc_file :: string
  hc_timing :: timing
  hc_request :: request

fun serve_all :: "'s libpq \<Rightarrow> file_system \<Rightarrow> http_call list \<Rightarrow> 's server \<Rightarrow> (exn + response) list \<times> 's server" where
  "serve_all lq fs [] s = ([], s)"
| "serve_all lq fs (c # cs) s =
     (let (r, s) = serve (hc_env c) lq fs (hc_route c) (hc_file c) (hc_timing c) (hc_request c) s;
          (rs, s) = serve_all lq fs cs s
      in (r # rs, s))"

lemma serve_all_ok: "server_ok s \<Longrightarrow> server_ok (snd (serve_all lq fs cs s))"
proof (induction cs arbitrary: s)
  case (Cons c cs)
  from serve_ok [OF Cons.prems] have
    "server_ok (snd (serve (hc_env c) lq fs (hc_route c) (hc_file c) (hc_timing c) (hc_request c) s))" .
  from Cons.IH [OF this] show ?case by (simp add: case_prod_unfold Let_def)
qed simp

lemma serve_all_length: "length (fst (serve_all lq fs cs s)) = length cs"
  by (induction cs arbitrary: s) (simp_all add: case_prod_unfold Let_def)

section \<open>Answers and records\<close>

lemma success_text: "print_json (json_fields [(''success'', JBool b)]) =
   ''{'' @ [dq] @ ''success'' @ [dq] @ '':'' @ (if b then ''true'' else ''false'') @ ''}''"
proof -
  have "print_json (json_fields [(''success'', JBool True)]) = ''{'' @ [dq] @ ''success'' @ [dq] @ '':true}''"
    "print_json (json_fields [(''success'', JBool False)]) = ''{'' @ [dq] @ ''success'' @ [dq] @ '':false}''"
    by code_simp+
  then show ?thesis by (cases b) simp_all
qed

lemma flag_body:
  "json_wf (json_fields [(''success'', JBool b)])"
  by (simp add: json_fields_wf)

lemma post_history_ok:
  assumes ok: "server_ok s" and r: "parse_record (req_body req) = Inr r"
  obtains db ok db' resp where "sv_db s = Some db" "addServiceRecord lq r db = Some (ok, db')" "db_free db'"
    "fst (handle_post_history lq t req s) = Inr resp" "res_code resp = 200"
    "res_body resp = print_json (json_fields [(''success'', JBool ok)])"
    "sv_db (snd (handle_post_history lq t req s)) = Some db'"
    "sv_metrics (snd (handle_post_history lq t req s)) =
       recordHttpRequest ''POST'' ''/api/service-history'' (if ok then 200 else 400) (seconds (duration_ms t))
         (recordDbOperation ''add_service_record'' ok
           (recordServiceOperation ''create'' (if ok then 1 else - 1) ok (sv_metrics s)))"
proof -
  from add_call.call_db_ok [OF ok] obtain db ok db' where
    db: "sv_db s = Some db" "addServiceRecord lq r db = Some (ok, db')" "db_free db'"
      "call_db (addServiceRecord lq r) s = Some (ok, s\<lparr>sv_db := Some db'\<rparr>)" by metis
  from flag_body [of ok] api_response_ok [of "json_fields [(''success'', JBool ok)]" 200] obtain resp where
    resp: "api_response 200 (json_fields [(''success'', JBool ok)]) = Inr resp" "res_code resp = 200"
      "res_body resp = print_json (json_fields [(''success'', JBool ok)])" by blast
  have "handle_post_history lq t req s = record_try lq t r s"
    by (simp add: handle_post_history_def r try_catch_def record_try_def db(4) resp Let_def)
  then show ?thesis using db resp by (intro that [of db ok db' resp]) (simp_all add: record_try_def Let_def)
qed

lemma post_history_bad:
  assumes "parse_record (req_body req) = Inl ex" "ex \<noteq> Undefined"
  shows "handle_post_history lq t req s = record_catch t ex s"
  using assms by (cases ex) (simp_all add: handle_post_history_def try_catch_def)

section \<open>No undefined behaviour\<close>

text \<open>The only values whose dump could be undefined: floating-point numbers that are no doubles.\<close>

fun doubles :: "json \<Rightarrow> bool" where
  "doubles (JFloat x) = (case x of Fin r \<Rightarrow> round64 r = Fin r | _ \<Rightarrow> True)"
| "doubles (JArray vs) = list_all doubles vs"
| "doubles (JObject m) = list_all (\<lambda>(k, v). doubles v) m"
| "doubles _ = True"

lemma dump_escaped_defined: "dump_escaped eh_strict False t \<noteq> Inl Undefined"
  using dump_escaped_cases [of t] by (auto simp: type_error_create_def split: if_splits)

lemma dump_value_defined:
  "doubles j \<Longrightarrow> dump_value compact n j ind \<noteq> Inl Undefined"
  "list_all (\<lambda>(k, v). doubles v) m \<Longrightarrow> dump_members compact n m ind \<noteq> Inl Undefined"
  "list_all doubles vs \<Longrightarrow> dump_elements compact n vs ind \<noteq> Inl Undefined"
proof (induction j and m and vs arbitrary: n ind and n ind and n ind
    rule: print_json_print_members_print_elements.induct)
  case (5 x)
  then show ?case
    using to_chars_strtod by (fastforce simp: dump_float_def split: double.splits option.splits)
qed (auto simp: quoted_def layout_defs sum_bind_eq_Inl_iff dump_escaped_defined Let_def split: if_splits)

lemma api_response_defined: "doubles j \<Longrightarrow> api_response code j \<noteq> Inl Undefined"
  using dump_value_defined(1) [of j 0 "replicate 512 CHR '' ''"]
  by (auto simp: api_response_def json_dump_compact sum_bind_eq_Inl_iff)

lemma json_fields_doubles:
  "kvs \<noteq> [] \<Longrightarrow> list_all (\<lambda>(k, v). doubles v) kvs \<Longrightarrow> doubles (json_fields kvs)"
  using put_all_inv [of "\<lambda>(k, v). doubles v" kvs] by (simp add: json_fields_eq)

lemma from_string_arithmetic_Inr:
  "from_string_arithmetic f ty t = Inr v \<Longrightarrow> \<exists>u. f u = Inr (v, [])"
  unfolding from_string_arithmetic_def by (fastforce split: sum.splits errc.splits if_splits)

lemma from_string_double_round: "from_string_double t = Inr (Fin x) \<Longrightarrow> round64 x = Fin x"
proof -
  assume "from_string_double t = Inr (Fin x)"
  then obtain u where "from_chars_double u = Inr (Fin x, [])"
    using from_string_arithmetic_Inr [of from_chars_double] unfolding from_string_double_def by blast
  then obtain z where "round64 z = Fin x"
    by (auto simp: from_chars_double_def Let_def split: if_splits prod.splits double.splits)
  then show ?thesis by (rule round64_idem)
qed

lemma as_double_doubles: "as_double_or (Fin 0) f = Inr c \<Longrightarrow> doubles (JFloat c)"
  using from_string_double_round
  by (auto simp: as_double_or_def round64_def [of 0] split: option.splits double.splits)

text \<open>What a read returns has been converted from rows.\<close>

lemma read_rows_from: "x \<in> set (snd (read_rows read rows)) \<Longrightarrow> \<exists>row. read row = Inr x"
  by (induction rows) (auto simp: case_prod_unfold Let_def split: sum.splits)

lemma fetch_op_from:
  assumes "fetch_op lq m q read db = Some (xs, db')" "x \<in> set xs"
  shows "\<exists>row. read row = Inr x"
proof -
  have body: "\<exists>row. read row = Inr x" if "fst (fetch_body lq q read w) = Inr (e, ys)" "x \<in> set ys" for w e ys
    using that read_rows_from [of x read]
    by (auto simp: fetch_body_def case_prod_unfold Let_def split: sum.splits option.splits)
  obtain r db1 where b: "db_block lq (fetch_body lq q read) db = Some (r, db1)"
    using assms(1) by (auto simp: fetch_op_def)
  then have "xs = (case r of Inl _ \<Rightarrow> [] | Inr (_, ys) \<Rightarrow> ys)"
    using assms(1) by (auto simp: fetch_op_def case_prod_unfold Let_def split: sum.splits)
  with b assms(2) obtain w e where "fst (fetch_body lq q read w) = Inr (e, xs)"
    by (auto simp: db_block_def with_work_def case_prod_unfold Let_def split: option.splits sum.splits)
  with body assms(2) show ?thesis by blast
qed

lemma list_defined:
  assumes "db_call fetch" "server_ok s"
    and "\<And>db xs db' x. fetch db = Some (xs, db') \<Longrightarrow> x \<in> set xs \<Longrightarrow> doubles (to_json x)"
  shows "fst (handle_list path operation fetch to_json t s) \<noteq> Inl Undefined"
proof -
  obtain db xs db' where "fetch db = Some (xs, db')" "call_db fetch s = Some (xs, s\<lparr>sv_db := Some db'\<rparr>)"
    using db_call.call_db_ok [OF assms(1,2)] by metis
  with assms(3) show ?thesis
    by (simp add: handle_list_def Let_def api_response_defined list_all_iff)
qed

lemma error_answer_defined: "api_response code (error_body ex) \<noteq> Inl Undefined"
  by (intro api_response_defined) (simp add: error_body_def json_fields_doubles)

lemma login_defined: "fst (handle_login e t req s) \<noteq> Inl Undefined"
proof (cases "login_credentials (req_body req)")
  case (Inl ex)
  then obtain m where ex: "ex = Exn m" using login_credentials_defined by (cases ex) auto
  then show ?thesis
    using error_answer_defined [of 400 ex] by (simp add: handle_login_def Inl try_catch_def login_catch_def Let_def)
next
  case (Inr up)
  obtain u p where up: "up = (u, p)" by fastforce
  from login_outcome [of req u p e t s] Inr up show ?thesis by auto
qed

lemma post_history_defined:
  assumes "server_ok s" "parse_record (req_body req) \<noteq> Inl Undefined"
  shows "fst (handle_post_history lq t req s) \<noteq> Inl Undefined"
proof (cases "parse_record (req_body req)")
  case (Inl ex)
  with assms(2) have "handle_post_history lq t req s = record_catch t ex s" by (auto intro: post_history_bad)
  then show ?thesis using error_answer_defined [of 400 ex] by (simp add: record_catch_def Let_def)
next
  case (Inr r)
  from post_history_ok [OF assms(1) Inr, of lq t] show ?thesis by (metis sum.distinct(1))
qed

lemma history_rows_doubles:
  assumes "getDetailedServiceHistory lq db = Some (j, db')"
  shows "doubles j"
proof -
  obtain js where js: "j = JArray js"
    "fetch_op lq ''Error getting detailed history: '' history_query read_history_row db = Some (js, db')"
    using assms unfolding getDetailedServiceHistory_def history_query_def by auto
  have "doubles v" if "read_history_row row = Inr v" for row v
    using that
    by (auto simp: read_history_row_def sum_bind_eq_Inr_iff dest!: as_double_doubles intro!: json_fields_doubles)
  with fetch_op_from [OF js(2)] js(1) show ?thesis by (auto simp: list_all_iff)
qed

lemma serve_defined:
  assumes "server_ok s" "rt = R_post_history \<longrightarrow> parse_record (req_body req) \<noteq> Inl Undefined"
  shows "fst (serve e lq fs rt filename t req s) \<noteq> Inl Undefined"
proof (cases rt)
  case R_test_db
  from test_call.call_db_ok [OF assms(1), of lq] obtain ok db'
    where "call_db (testConnection lq) s = Some (ok, s\<lparr>sv_db := Some db'\<rparr>)" by metis
  with R_test_db show ?thesis
    by (simp add: handle_test_db_def Let_def api_response_defined json_fields_doubles)
next
  case R_get_history
  from history_call.call_db_ok [OF assms(1), of lq] obtain db j db'
    where "getDetailedServiceHistory lq db = Some (j, db')"
      "call_db (getDetailedServiceHistory lq) s = Some (j, s\<lparr>sv_db := Some db'\<rparr>)" by metis
  with R_get_history show ?thesis
    using api_response_defined [OF history_rows_doubles]
    by (simp add: handle_get_history_def Let_def)
next
  case R_get_devices
  then show ?thesis
    using assms(1) by (simp add: handle_get_devices_def)
      (intro list_defined devices_call.db_call_axioms, simp_all add: device_json_def json_fields_doubles)
next
  case R_get_service_types
  have "doubles (service_type_json ty)" if g: "getAllServiceTypes lq db = Some (tys, db')" "ty \<in> set tys" for db tys db' ty
  proof -
    obtain row where "read_service_type row = Inr ty"
      using fetch_op_from [OF g(1) [unfolded getAllServiceTypes_def] g(2)] by blast
    then show ?thesis
      by (auto simp: read_service_type_def sum_bind_eq_Inr_iff service_type_json_def
          dest!: as_double_doubles intro!: json_fields_doubles)
  qed
  with R_get_service_types assms(1) show ?thesis
    by (simp add: handle_get_service_types_def) (intro list_defined types_call.db_call_axioms)
next
  case R_get_records
  have "doubles (service_record_json r)" if g: "getAllServiceRecords lq db = Some (rs, db')" "r \<in> set rs" for db rs db' r
  proof -
    obtain row where "read_service_record row = Inr r"
      using fetch_op_from [OF g(1) [unfolded getAllServiceRecords_def] g(2)] by blast
    then show ?thesis
      by (auto simp: read_service_record_def sum_bind_eq_Inr_iff service_record_json_def
          dest!: as_double_doubles intro!: json_fields_doubles)
  qed
  with R_get_records assms(1) show ?thesis
    by (simp add: handle_get_records_def) (intro list_defined records_call.db_call_axioms)
next
  case R_post_history
  then show ?thesis using assms by (simp add: post_history_defined)
qed (auto simp: login_defined handle_metrics_def handle_index_def handle_static_def handle_logout_def
       handle_post_devices_def Let_def api_response_defined json_fields_doubles split: option.splits)

section \<open>Every request is counted once\<close>

text \<open>Method and path of the routes that record a request.\<close>

fun api_target :: "route \<Rightarrow> (string \<times> string) option" where
  "api_target R_test_db = Some (''GET'', ''/api/test-db'')"
| "api_target R_login = Some (''POST'', ''/api/login'')"
| "api_target R_logout = Some (''POST'', ''/api/logout'')"
| "api_target R_get_devices = Some (''GET'', ''/api/devices'')"
| "api_target R_post_devices = Some (''POST'', ''/api/devices'')"
| "api_target R_get_service_types = Some (''GET'', ''/api/service-types'')"
| "api_target R_get_history = Some (''GET'', ''/api/service-history'')"
| "api_target R_post_history = Some (''POST'', ''/api/service-history'')"
| "api_target R_get_records = Some (''GET'', ''/api/service-records'')"
| "api_target _ = None"

text \<open>The requests that a sequence of recording calls contains.\<close>

fun http_part :: "metric_op list \<Rightarrow> (string \<times> string \<times> int) list" where
  "http_part [] = []"
| "http_part (HttpRequest m p c d # ops) = (m, p, c) # http_part ops"
| "http_part (op # ops) = http_part ops"

text \<open>
  The status that the metrics record for a request, told from its answer: that of the answer, but
  400 for a service record that could not be written, which is answered with 200 and
  \<open>{"success":false}\<close>. When building the answer throws, the status was recorded before: 400 by the
  \<open>catch\<close> clauses of the two handlers that read a body, 200 otherwise.
\<close>

definition recorded_code :: "route \<Rightarrow> exn + response \<Rightarrow> int" where
  "recorded_code rt r =
     (case r of
        Inl _ \<Rightarrow> if rt = R_login \<or> rt = R_post_history then 400 else 200
      | Inr resp \<Rightarrow>
          if rt = R_post_history \<and> res_body resp = ''{'' @ [dq] @ ''success'' @ [dq] @ '':false}''
          then 400 else res_code resp)"

definition target_with :: "route \<Rightarrow> int \<Rightarrow> (string \<times> string \<times> int) list" where
  "target_with rt code = (case api_target rt of None \<Rightarrow> [] | Some (m, p) \<Rightarrow> [(m, p, code)])"

definition records_request :: "route \<Rightarrow> 's server \<Rightarrow> 's outcome \<Rightarrow> bool" where
  "records_request rt s r \<longleftrightarrow>
     (\<exists>ops. sv_metrics (snd r) = fold apply_op ops (sv_metrics s) \<and>
        http_part ops = target_with rt (recorded_code rt (fst r)))"

lemma records_requestI:
  assumes "sv_metrics (snd r) = fold apply_op ops (sv_metrics s)" "http_part ops = target_with rt code"
    "recorded_code rt (fst r) = code"
  shows "records_request rt s r"
  using assms by (auto simp: records_request_def)

lemma api_response_code: "api_response code j = Inr r \<Longrightarrow> res_code r = code"
  by (auto simp: api_response_def sum_bind_eq_Inr_iff set_header_def new_response_def)

lemma recorded_code_api [simp]:
  "rt \<noteq> R_login \<Longrightarrow> rt \<noteq> R_post_history \<Longrightarrow> recorded_code rt (api_response 200 j) = 200"
  "recorded_code R_login (api_response 400 j) = 400"
  "recorded_code R_post_history (api_response 400 j) = 400"
  by (auto simp: recorded_code_def api_response_code split: sum.split)

lemma recorded_code_wf [simp]:
  "rt \<noteq> R_post_history \<Longrightarrow> json_wf j \<Longrightarrow> recorded_code rt (api_response code j) = code"
  using api_response_ok [of j code] by (auto simp: recorded_code_def)

lemma list_records:
  assumes "db_call fetch" "server_ok s" "api_target rt = Some (''GET'', path)" "rt \<noteq> R_login" "rt \<noteq> R_post_history"
  shows "records_request rt s (handle_list path operation fetch to_json t s)"
proof -
  obtain xs db' where "call_db fetch s = Some (xs, s\<lparr>sv_db := Some db'\<rparr>)"
    using db_call.call_db_ok [OF assms(1,2)] by metis
  then show ?thesis
    by (intro records_requestI [where code = 200
        and ops = "[HttpRequest ''GET'' path 200 (seconds (duration_ms t)), DbOperation operation True]"])
      (simp_all add: handle_list_def Let_def target_with_def assms(3-5))
qed

lemma post_history_records:
  assumes "server_ok s" "parse_record (req_body req) \<noteq> Inl Undefined"
  shows "records_request R_post_history s (handle_post_history lq t req s)"
proof (cases "parse_record (req_body req)")
  case (Inl ex)
  with assms(2) have "handle_post_history lq t req s = record_catch t ex s" by (auto intro: post_history_bad)
  then show ?thesis
    by (intro records_requestI [where code = 400 and ops = "[ServiceOperation ''create'' (- 1) False,
          DbOperation ''add_service_record'' False,
          HttpRequest ''POST'' ''/api/service-history'' 400 (seconds (duration_ms t))]"])
      (simp_all add: record_catch_def Let_def target_with_def)
next
  case (Inr r)
  from post_history_ok [OF assms(1) Inr, of lq t] obtain ok resp where
    h: "fst (handle_post_history lq t req s) = Inr resp" "res_code resp = 200"
    "res_body resp = print_json (json_fields [(''success'', JBool ok)])"
    "sv_metrics (snd (handle_post_history lq t req s)) =
       recordHttpRequest ''POST'' ''/api/service-history'' (if ok then 200 else 400) (seconds (duration_ms t))
         (recordDbOperation ''add_service_record'' ok
           (recordServiceOperation ''create'' (if ok then 1 else - 1) ok (sv_metrics s)))"
    by metis
  then show ?thesis
    by (intro records_requestI [where code = "if ok then 200 else 400"
          and ops = "[ServiceOperation ''create'' (if ok then 1 else - 1) ok, DbOperation ''add_service_record'' ok,
            HttpRequest ''POST'' ''/api/service-history'' (if ok then 200 else 400) (seconds (duration_ms t))]"])
      (simp_all add: target_with_def recorded_code_def success_text)
qed

lemma login_metrics:
  obtains u ok code where
    "sv_metrics (snd (handle_login e t req s)) =
       apply_op (HttpRequest ''POST'' ''/api/login'' code (seconds (duration_ms t)))
         (apply_op (AuthAttempt u ok) (sv_metrics s))"
    "recorded_code R_login (fst (handle_login e t req s)) = code"
proof (cases "login_credentials (req_body req)")
  case (Inl ex)
  then obtain m where ex: "ex = Exn m" using login_credentials_defined by (cases ex) auto
  have "handle_login e t req s = login_catch e t req ex s"
    by (simp add: handle_login_def Inl try_catch_def ex)
  then show ?thesis
    by (intro that [of 400 "''unknown''" False]) (simp_all add: login_catch_def Let_def)
next
  case (Inr up)
  obtain u p where up: "up = (u, p)" by fastforce
  define code :: int where "code = (if fst (check_credentials u p) then 200 else 401)"
  have wf: "json_wf (login_body u p)"
    using login_body_wf [OF login_credentials_utf8] Inr up by simp_all
  from api_response_ok [OF this, of code] obtain r where
    r: "api_response code (login_body u p) = Inr r" "res_code r = code" by blast
  have h: "handle_login e t req s = login_try e t req u p s"
    using r by (simp add: handle_login_def Inr up try_catch_def login_try_def Let_def code_def)
  show ?thesis
    using r by (intro that [of code u "fst (check_credentials u p)"])
      (simp_all add: h login_try_def Let_def code_def recorded_code_def)
qed

lemma login_records: "records_request R_login s (handle_login e t req s)"
proof -
  obtain u ok code where
    m: "sv_metrics (snd (handle_login e t req s)) =
      apply_op (HttpRequest ''POST'' ''/api/login'' code (seconds (duration_ms t)))
        (apply_op (AuthAttempt u ok) (sv_metrics s))" and
    c: "recorded_code R_login (fst (handle_login e t req s)) = code"
    by (rule login_metrics)
  from m c show ?thesis
    by (intro records_requestI [where code = code
        and ops = "[AuthAttempt u ok, HttpRequest ''POST'' ''/api/login'' code (seconds (duration_ms t))]"])
      (auto simp: target_with_def)
qed

lemma test_db_records: "server_ok s \<Longrightarrow> records_request R_test_db s (handle_test_db lq t s)"
proof -
  assume "server_ok s"
  from test_call.call_db_ok [OF this, of lq] obtain ok db'
    where "call_db (testConnection lq) s = Some (ok, s\<lparr>sv_db := Some db'\<rparr>)" by metis
  then show ?thesis
    by (intro records_requestI [where code = 200 and ops = "[HttpRequest ''GET'' ''/api/test-db'' 200
          (seconds (duration_ms t)), DbOperation ''test_connection'' ok]"])
      (simp_all add: handle_test_db_def Let_def target_with_def)
qed

lemma history_records: "server_ok s \<Longrightarrow> records_request R_get_history s (handle_get_history lq t s)"
proof -
  assume "server_ok s"
  from history_call.call_db_ok [OF this, of lq] obtain j db'
    where "call_db (getDetailedServiceHistory lq) s = Some (j, s\<lparr>sv_db := Some db'\<rparr>)" by metis
  then show ?thesis
    by (intro records_requestI [where code = 200 and ops = "[HttpRequest ''GET'' ''/api/service-history'' 200
          (seconds (duration_ms t)), DbOperation ''get_service_history'' True]"])
      (simp_all add: handle_get_history_def Let_def target_with_def)
qed

lemma logout_records: "records_request R_logout s (handle_logout e req s)"
  by (intro records_requestI [where code = 200 and ops = "[HttpRequest ''POST'' ''/api/logout'' 200 (dlit 1 1000),
        DbOperation ''logout'' True]"])
    (simp_all add: handle_logout_def Let_def target_with_def)

lemma post_devices_records: "records_request R_post_devices s (handle_post_devices e req s)"
  by (intro records_requestI [where code = 403 and ops = "[DeviceOperation ''create_blocked'' (- 1) False,
        HttpRequest ''POST'' ''/api/devices'' 403 (dlit 1 1000)]"])
    (simp_all add: handle_post_devices_def Let_def target_with_def json_fields_wf)

lemma file_records:
  assumes "api_target rt = None" "sv_metrics (snd r) = sv_metrics s"
  shows "records_request rt s r"
  unfolding records_request_def by (rule exI [of _ "[]"]) (simp add: assms target_with_def)

lemma serve_records:
  assumes "server_ok s" "rt = R_post_history \<longrightarrow> parse_record (req_body req) \<noteq> Inl Undefined"
  shows "records_request rt s (serve e lq fs rt filename t req s)"
proof (cases rt)
  case R_get_devices
  then show ?thesis
    using assms by (simp add: handle_get_devices_def list_records devices_call.db_call_axioms)
next
  case R_get_service_types
  then show ?thesis
    using assms by (simp add: handle_get_service_types_def list_records types_call.db_call_axioms)
next
  case R_get_records
  then show ?thesis
    using assms by (simp add: handle_get_records_def list_records records_call.db_call_axioms)
qed (use assms in \<open>auto simp: post_history_records login_records test_db_records history_records logout_records
       post_devices_records handle_metrics_def handle_index_def handle_static_def
       intro!: file_records split: option.split\<close>)

text \<open>The requests that were recorded for a method and path with a status.\<close>

definition counted_as :: "string \<Rightarrow> string \<Rightarrow> int \<Rightarrow> http_call \<times> (exn + response) \<Rightarrow> bool" where
  "counted_as m p c = (\<lambda>(call, answer).
     api_target (hc_route call) = Some (m, p) \<and> recorded_code (hc_route call) answer = c)"

lemma count_targets:
  "length (filter (\<lambda>x. x = (m, p, c))
     (concat (map (\<lambda>(call, r). target_with (hc_route call) (recorded_code (hc_route call) r)) ps))) =
   length (filter (counted_as m p c) ps)"
proof (induction ps)
  case (Cons q ps)
  obtain call a where q: "q = (call, a)" by fastforce
  show ?case
  proof (cases "api_target (hc_route call)")
    case None
    with Cons show ?thesis by (simp add: q target_with_def counted_as_def)
  next
    case (Some t)
    with Cons show ?thesis by (cases t) (simp add: q target_with_def counted_as_def)
  qed
qed simp

definition call_defined :: "http_call \<Rightarrow> bool" where
  "call_defined c \<longleftrightarrow>
     (hc_route c = R_post_history \<longrightarrow> parse_record (req_body (hc_request c)) \<noteq> Inl Undefined)"

lemma http_part_append: "http_part (a @ b) = http_part a @ http_part b"
  by (induction a rule: http_part.induct) simp_all

lemma serve_all_records:
  assumes "server_ok s" "list_all call_defined cs"
  shows "\<exists>ops. sv_metrics (snd (serve_all lq fs cs s)) = fold apply_op ops (sv_metrics s) \<and>
    http_part ops = concat (map (\<lambda>(call, r). target_with (hc_route call) (recorded_code (hc_route call) r))
      (zip cs (fst (serve_all lq fs cs s))))"
  using assms
proof (induction cs arbitrary: s)
  case Nil
  show ?case by (rule exI [of _ "[]"]) simp
next
  case (Cons c cs)
  define r where "r = serve (hc_env c) lq fs (hc_route c) (hc_file c) (hc_timing c) (hc_request c) s"
  have "records_request (hc_route c) s r" unfolding r_def
    using Cons.prems by (intro serve_records) (simp_all add: call_defined_def)
  then obtain ops where r: "sv_metrics (snd r) = fold apply_op ops (sv_metrics s)"
    "http_part ops = target_with (hc_route c) (recorded_code (hc_route c) (fst r))"
    by (auto simp: records_request_def)
  have "server_ok (snd r)" unfolding r_def using Cons.prems by (intro serve_ok) simp
  then obtain ops' where rest: "sv_metrics (snd (serve_all lq fs cs (snd r))) = fold apply_op ops' (sv_metrics (snd r))"
    "http_part ops' = concat (map (\<lambda>(call, r). target_with (hc_route call) (recorded_code (hc_route call) r))
      (zip cs (fst (serve_all lq fs cs (snd r)))))"
    using Cons.IH [of "snd r"] Cons.prems by auto
  with r show ?case
    by (intro exI [of _ "ops @ ops'"]) (simp add: r_def [symmetric] case_prod_unfold Let_def http_part_append)
qed

lemma serve_all_defined:
  "server_ok s \<Longrightarrow> list_all call_defined cs \<Longrightarrow> Inl Undefined \<notin> set (fst (serve_all lq fs cs s))"
proof (induction cs arbitrary: s)
  case (Cons c cs)
  define r where "r = serve (hc_env c) lq fs (hc_route c) (hc_file c) (hc_timing c) (hc_request c) s"
  have "fst r \<noteq> Inl Undefined" unfolding r_def
    using Cons.prems by (intro serve_defined) (simp_all add: call_defined_def)
  moreover have "server_ok (snd r)" unfolding r_def using Cons.prems by (intro serve_ok) simp
  ultimately show ?case
    using Cons.IH [of "snd r"] Cons.prems by (auto simp: r_def [symmetric] case_prod_unfold Let_def)
qed simp

lemma events_at_http:
  "events_at (''http_requests_total'', http_labels m p c) ops = length (filter (\<lambda>x. x = (m, p, c)) (http_part ops))"
proof (induction ops rule: http_part.induct)
  case (2 m' p' c' d ops)
  have "http_labels m' p' c' = http_labels m p c \<longleftrightarrow> (m', p', c') = (m, p, c)" by (simp add: http_labels_def)
  with 2 show ?case by (simp add: events_at_def)
qed (simp_all add: events_at_def)

section \<open>Start-up\<close>

lemma log_fields [simp]:
  "sv_db (log_msg e m s) = sv_db s" "sv_routes (log_msg e m s) = sv_routes s"
  "sv_db (log_err e m s) = sv_db s" "sv_routes (log_err e m s) = sv_routes s"
  "sv_port (log_msg e m s) = sv_port s" "sv_port (log_err e m s) = sv_port s"
  by (simp_all add: log_msg_def log_err_def)

lemma new_database_free: "db_connect lq (new_database lq conn_str) \<Longrightarrow> db_free (new_database lq conn_str)"
  by (auto simp: new_database_def new_connection_def db_connect_def db_free_def Let_def
      split: sum.splits option.splits if_splits)

text \<open>What has to go well for the routes to be registered.\<close>

definition config_usable :: "'s libpq \<Rightarrow> string \<Rightarrow> bool" where
  "config_usable lq text \<longleftrightarrow>
     (case sum_bind (json_extract text) connection_string of
        Inl _ \<Rightarrow> False
      | Inr (conn_str, config) \<Rightarrow>
          db_connect lq (new_database lq conn_str) \<and> \<not> isl (config_at ''server'' ''port'' get_int config))"

text \<open>
  The conversions of the two port numbers are undefined for a floating-point number outside the range
  of \<open>int\<close>; a configuration without such a number is defined.
\<close>

definition config_defined :: "'s libpq \<Rightarrow> string \<Rightarrow> bool" where
  "config_defined lq text \<longleftrightarrow>
     (case sum_bind (json_extract text) connection_string of
        Inl ex \<Rightarrow> ex \<noteq> Undefined
      | Inr (conn_str, config) \<Rightarrow>
          db_connect lq (new_database lq conn_str) \<longrightarrow>
          config_at ''server'' ''port'' get_int config \<noteq> Inl Undefined)"

lemma configure_routes:
  "sv_routes (snd (configure e config s)) \<longleftrightarrow> sv_routes s \<or> \<not> isl (config_at ''server'' ''port'' get_int config)"
  "sv_db (snd (configure e config s)) = sv_db s"
  "fst (configure e config s) = Inl Undefined \<longleftrightarrow> config_at ''server'' ''port'' get_int config = Inl Undefined"
  by (simp_all add: configure_def setupRoutes_def case_prod_unfold Let_def split: sum.split)

lemma configure_port:
  "\<not> sv_routes (snd (configure e config s)) \<Longrightarrow> sv_port (snd (configure e config s)) = sv_port s"
  by (cases "config_at ''server'' ''port'' get_int config")
    (simp_all add: configure_def setupRoutes_def case_prod_unfold Let_def)

lemma construct_try_routes:
  assumes "\<not> sv_routes s"
  shows "sv_routes (snd (construct_try e lq text s)) \<longleftrightarrow> config_usable lq text"
    and "sv_routes (snd (construct_try e lq text s)) \<Longrightarrow> server_ok (snd (construct_try e lq text s))"
    and "\<not> sv_routes (snd (construct_try e lq text s)) \<Longrightarrow> sv_port (snd (construct_try e lq text s)) = sv_port s"
    and "config_defined lq text \<Longrightarrow> fst (construct_try e lq text s) \<noteq> Inl Undefined"
  using assms new_database_free
  by (auto simp: construct_try_def config_usable_def config_defined_def configure_routes configure_port server_ok_def Let_def
      split: sum.splits prod.splits if_splits)

definition file_defined :: "'s libpq \<Rightarrow> string option \<Rightarrow> bool" where
  "file_defined lq f \<longleftrightarrow> (case f of None \<Rightarrow> True | Some text \<Rightarrow> config_defined lq text)"

lemma new_WebServer_routes:
  assumes "\<not> sv_routes s" "file_defined lq (fs path)"
  obtains s' where "new_WebServer e lq fs path s = (Inr (), s')"
    "sv_routes s' \<longleftrightarrow> (case fs path of None \<Rightarrow> False | Some text \<Rightarrow> config_usable lq text)"
    "sv_routes s' \<longrightarrow> server_ok s'" "\<not> sv_routes s' \<longrightarrow> sv_port s' = sv_port s"
    "fs path = None \<longrightarrow> sv_db s' = sv_db s"
proof -
  define s1 where "s1 = log_msg e ''WebServer constructor started with Loki integration''
    (on_log (logLifecycle e ''startup'' ''WebServer constructor started'')
      (on_log (setServiceName ''service_system'') (on_log (initWithLoki e ''logs/webserver.log'' DEBUG ''localhost'' 3100) s)))"
  have s1: "\<not> sv_routes s1" "sv_db s1 = sv_db s" "sv_port s1 = sv_port s" using assms(1) by (simp_all add: s1_def)
  have w: "new_WebServer e lq fs path s =
      (case fs path of
         None \<Rightarrow> (Inr (), log_err e (''Cannot open config file: '' @ path) s1)
       | Some text \<Rightarrow>
           (case construct_try e lq text (log_msg e (''Config file opened: '' @ path) s1) of
              (Inl Undefined, s) \<Rightarrow> (Inl Undefined, s)
            | (Inl ex, s) \<Rightarrow> (Inr (), log_err e (''Config error: '' @ c_what ex) s)
            | (Inr _, s) \<Rightarrow> (Inr (), s)))"
    by (simp only: new_WebServer_def Let_def s1_def)
  note c = construct_try_routes [where s = "log_msg e (''Config file opened: '' @ path) s1" and e = e and lq = lq, simplified, OF s1(1)]
  show ?thesis
  proof (cases "fs path")
    case None
    with w s1 show ?thesis
      by (intro that [of "log_err e (''Cannot open config file: '' @ path) s1"]) simp_all
  next
    case (Some cfg)
    obtain r s2 where r: "construct_try e lq cfg (log_msg e (''Config file opened: '' @ path) s1) = (r, s2)" by fastforce
    have s2: "sv_routes s2 \<longleftrightarrow> config_usable lq cfg" "sv_routes s2 \<Longrightarrow> server_ok s2"
      "\<not> sv_routes s2 \<Longrightarrow> sv_port s2 = sv_port s" "r \<noteq> Inl Undefined"
      using c [of cfg] r s1(3) Some assms(2) by (simp_all add: file_defined_def)
    show ?thesis
    proof (cases r)
      case (Inl ex)
      with s2(4) obtain m where "ex = Exn m" by (cases ex) auto
      with Inl w Some r s2 show ?thesis
        by (intro that [of "log_err e (''Config error: '' @ c_what ex) s2"]) (simp_all add: server_ok_def)
    next
      case (Inr u)
      with w Some r s2 show ?thesis by (intro that [of s2]) simp_all
    qed
  qed
qed

lemma run_fields [simp]: "sv_db (run s) = sv_db s" "sv_routes (run s) = sv_routes s" "sv_port (run s) = sv_port s"
  by (simp_all add: run_def case_prod_unfold Let_def)

abbreviation config_name :: "string list \<Rightarrow> string" where
  "config_name argv \<equiv> (if 1 < length argv then argv ! 1 else ''config.json'')"

lemma run_console: "''Starting server on port '' @ show_int (sv_port (run s)) \<in> set (sv_console (run s))"
  by (simp add: run_def case_prod_unfold Let_def)

lemma main_routes:
  assumes "file_defined lq (fs (config_name argv))"
  obtains s where "main e lq fs argv = (Inr 0, s)"
    "''Starting server on port '' @ show_int (sv_port s) \<in> set (sv_console s)"
    "sv_routes s \<longleftrightarrow> (case fs (config_name argv) of None \<Rightarrow> False | Some text \<Rightarrow> config_usable lq text)"
    "sv_routes s \<longrightarrow> server_ok s" "\<not> sv_routes s \<longrightarrow> sv_port s = 8080"
    "fs (config_name argv) = None \<longrightarrow> sv_db s = None"
proof -
  have "\<not> sv_routes (start_server new_Logger new_MetricsRegistry)" by (simp add: start_server_def)
  from new_WebServer_routes [where fs = fs and path = "config_name argv" and e = e, OF this assms] obtain s' where
    s': "new_WebServer e lq fs (config_name argv) (start_server new_Logger new_MetricsRegistry) = (Inr (), s')"
    "sv_routes s' \<longleftrightarrow> (case fs (config_name argv) of None \<Rightarrow> False | Some text \<Rightarrow> config_usable lq text)"
    "sv_routes s' \<longrightarrow> server_ok s'"
    "\<not> sv_routes s' \<longrightarrow> sv_port s' = sv_port (start_server new_Logger new_MetricsRegistry :: 'a server)"
    "fs (config_name argv) = None \<longrightarrow> sv_db s' = sv_db (start_server new_Logger new_MetricsRegistry)" .
  have "main e lq fs argv = (Inr 0, run s')" unfolding main_def Let_def s'(1) by simp
  with s'(2-5) run_console [of s'] show ?thesis
    by (intro that [of "run s'"]) (simp_all add: start_server_def server_ok_def)
qed

lemma main_server_ok:
  assumes "main e lq fs argv = (Inr 0, s)" "sv_routes s"
  shows "server_ok s"
proof -
  let ?s0 = "start_server new_Logger new_MetricsRegistry"
  obtain s1 where s1: "new_WebServer e lq fs (config_name argv) ?s0 = (Inr (), s1)" "s = run s1"
    using assms(1) by (auto simp: main_def Let_def split: prod.splits sum.splits exn.splits)
  have "file_defined lq (fs (config_name argv))"
  proof (rule ccontr)
    assume "\<not> file_defined lq (fs (config_name argv))"
    then obtain cfg where cfg: "fs (config_name argv) = Some cfg" "\<not> config_defined lq cfg"
      by (auto simp: file_defined_def split: option.splits)
    have "fst (construct_try e lq cfg t) = Inl Undefined" for t
      using cfg(2)
      by (auto simp: config_defined_def construct_try_def configure_routes(3) Let_def split: sum.splits prod.splits)
    with s1(1) cfg(1) show False
      by (simp add: new_WebServer_def case_prod_unfold Let_def split: prod.splits sum.splits)
  qed
  from main_routes [where fs = fs and argv = argv and e = e, OF this] show ?thesis using assms by (metis prod.inject)
qed

section \<open>Theorems\<close>

text \<open>A configuration file and a server that accepts it, for the examples.\<close>

definition sample_config :: string where
  "sample_config = concat (map (\<lambda>c. if c = CHR ''#'' then [dq] else [c])
     ''{#database#:{#host#:#db#,#port#:5432,#dbname#:#s#,#user#:#u#,#password#:#p#},#server#:{#port#:8080}}'')"

definition sample_fs :: file_system where
  "sample_fs name = (if name = ''config.json'' then Some sample_config else None)"

lemma sample_config_read:
  "(case sum_bind (json_extract sample_config) connection_string of
      Inl _ \<Rightarrow> False | Inr (conn_str, config) \<Rightarrow> \<not> isl (config_at ''server'' ''port'' get_int config))"
  by code_simp

lemma sample_connect: "db_connect (example_libpq rows) (new_database (example_libpq rows) conn_str)"
  by (simp add: new_database_def new_connection_def db_connect_def is_open_def set_up_state_def example_libpq_def)

lemma sample_config_usable: "config_usable (example_libpq rows) sample_config"
  using sample_config_read sample_connect by (simp add: config_usable_def split: sum.splits prod.splits)

lemma sample_config_defined: "file_defined (example_libpq rows) (sample_fs (config_name []))"
  using sample_config_read sample_connect
  by (auto simp: file_defined_def sample_fs_def config_defined_def split: sum.splits prod.splits)

lemma sample_started:
  "\<exists>s. main e (example_libpq rows) sample_fs [] = (Inr 0, s) \<and> sv_routes s \<and> server_ok s"
proof -
  obtain s where "main e (example_libpq rows) sample_fs [] = (Inr 0, s)"
    "sv_routes s \<longleftrightarrow> (case sample_fs (config_name []) of None \<Rightarrow> False | Some text \<Rightarrow> config_usable (example_libpq rows) text)"
    "sv_routes s \<longrightarrow> server_ok s"
    using main_routes [where fs = sample_fs and argv = "[]" and e = e, OF sample_config_defined] by metis
  with sample_config_usable [of rows] show ?thesis by (simp add: sample_fs_def)
qed

text \<open>
  C28. Start-up. Unless a port in the configuration is a floating-point number outside the range of
  \<open>int\<close> (an undefined conversion), no exception leaves the constructor and \<open>main\<close> gets to run the
  server, with exit code 0, after announcing its port on the console. The routes are registered
  exactly if the configuration file could be read, its members have the right types and the
  database accepted the connection, and then the server has a free connection. In every other case
  a server runs that has no routes and listens on port 8080; without a configuration file it has no
  database object either.
\<close>

theorem startup_routes:
  assumes "case fs (config_name argv) of None \<Rightarrow> True | Some cfg \<Rightarrow> config_defined lq cfg"
  shows "\<exists>s. main e lq fs argv = (Inr 0, s) \<and>
    ''Starting server on port '' @ show_int (sv_port s) \<in> set (sv_console s) \<and>
    (sv_routes s \<longleftrightarrow> (case fs (config_name argv) of None \<Rightarrow> False | Some cfg \<Rightarrow> config_usable lq cfg)) \<and>
    (sv_routes s \<longrightarrow> server_ok s) \<and> (\<not> sv_routes s \<longrightarrow> sv_port s = 8080) \<and>
    (fs (config_name argv) = None \<longrightarrow> \<not> sv_routes s \<and> sv_db s = None)"
proof -
  have "file_defined lq (fs (config_name argv))" using assms by (simp add: file_defined_def)
  from main_routes [where fs = fs and argv = argv and e = e, OF this] obtain s where "main e lq fs argv = (Inr 0, s)"
    "''Starting server on port '' @ show_int (sv_port s) \<in> set (sv_console s)"
    "sv_routes s \<longleftrightarrow> (case fs (config_name argv) of None \<Rightarrow> False | Some text \<Rightarrow> config_usable lq text)"
    "sv_routes s \<longrightarrow> server_ok s" "\<not> sv_routes s \<longrightarrow> sv_port s = 8080"
    "fs (config_name argv) = None \<longrightarrow> sv_db s = None" .
  then show ?thesis by (intro exI [of _ s]) auto
qed

theorem startup_routes_witness:
  "\<forall>e. \<exists>s. main e (example_libpq []) sample_fs [] = (Inr 0, s) \<and> sv_routes s \<and> server_ok s"
proof
  fix e
  from startup_routes [where fs = sample_fs and argv = "[]" and lq = "example_libpq []" and e = e] sample_config_defined [of "[]"]
  obtain s where m: "main e (example_libpq []) sample_fs [] = (Inr 0, s)"
    "sv_routes s \<longleftrightarrow> (case sample_fs (config_name []) of None \<Rightarrow> False | Some cfg \<Rightarrow> config_usable (example_libpq []) cfg)"
    "sv_routes s \<longrightarrow> server_ok s"
    by (auto simp: file_defined_def)
  with sample_config_usable [of "[]"]
  show "\<exists>s. main e (example_libpq []) sample_fs [] = (Inr 0, s) \<and> sv_routes s \<and> server_ok s"
    by (simp add: sample_fs_def)
qed

text \<open>
  C29. A server that came up with its routes stays usable: whatever requests arrive, one after the
  other, and whatever libpq and the database server answer to them (errors and a lost connection
  included), no request runs into undefined behaviour: each is answered or ends in a C++ exception,
  and the connection is free for the next one. Left out are only service records with an id that
  is a floating-point number outside the range of \<open>int\<close>, whose conversion is undefined.
\<close>

theorem requests_keep_server:
  assumes "main e lq fs argv = (Inr 0, s)" "sv_routes s" "list_all call_defined cs"
  shows "server_ok (snd (serve_all lq fs cs s)) \<and> length (fst (serve_all lq fs cs s)) = length cs \<and>
    Inl Undefined \<notin> set (fst (serve_all lq fs cs s))"
proof -
  have ok: "server_ok s" using assms(1,2) by (rule main_server_ok)
  then show ?thesis
    using serve_all_ok [OF ok] serve_all_defined [OF ok assms(3)] by (simp add: serve_all_length)
qed

definition sample_call :: "env \<Rightarrow> route \<Rightarrow> http_call" where
  "sample_call e rt = \<lparr>hc_env = e, hc_route = rt, hc_file = [], hc_timing = \<lparr>duration_ms = 3, unix_time = 0\<rparr>,
     hc_request = sample_login\<rparr>"

theorem requests_keep_server_witness:
  "\<forall>e. \<exists>s. main e (example_libpq []) sample_fs [] = (Inr 0, s) \<and>
     server_ok (snd (serve_all (example_libpq []) sample_fs [sample_call e R_login, sample_call e R_get_devices] s))"
proof
  fix e
  obtain s where s: "main e (example_libpq []) sample_fs [] = (Inr 0, s)" "sv_routes s"
    using sample_started by blast
  have "list_all call_defined [sample_call e R_login, sample_call e R_get_devices]"
    by (simp add: call_defined_def sample_call_def)
  from requests_keep_server [OF s this] s(1)
  show "\<exists>s. main e (example_libpq []) sample_fs [] = (Inr 0, s) \<and>
     server_ok (snd (serve_all (example_libpq []) sample_fs [sample_call e R_login, sample_call e R_get_devices] s))"
    by blast
qed

text \<open>
  C30. Every API request is counted exactly once. From any natural counter value on, after any
  sequence of requests, the counter of a method, path and status has grown by the number of requests
  to that method and path whose \<open>recorded_code\<close> is that status, as long as it stays within 2^53. The
  recorded status is that of the answer, except that a service record which could not be written
  is answered with 200 and counted as 400, and that a request whose answer could not be built is
  counted with the status it was to have. Requests for files and for the metrics themselves are not
  counted. Left out are service records with an id whose conversion is undefined
  (\<open>call_defined\<close>).
\<close>

theorem requests_counted:
  assumes "server_ok s" "list_all call_defined cs"
    and "counter_value (sv_metrics s) (''http_requests_total'', http_labels m p c) = Fin (of_nat n)"
    and "n + length cs \<le> 2 ^ 53"
  shows "counter_value (sv_metrics (snd (serve_all lq fs cs s))) (''http_requests_total'', http_labels m p c) =
      Fin (of_nat (n + length (filter (\<lambda>(call, answer).
        api_target (hc_route call) = Some (m, p) \<and> recorded_code (hc_route call) answer = c)
          (zip cs (fst (serve_all lq fs cs s))))))"
proof -
  let ?ps = "zip cs (fst (serve_all lq fs cs s))"
  obtain ops where r: "sv_metrics (snd (serve_all lq fs cs s)) = fold apply_op ops (sv_metrics s)"
    "http_part ops = concat (map (\<lambda>(call, r). target_with (hc_route call) (recorded_code (hc_route call) r)) ?ps)"
    using serve_all_records [OF assms(1,2), of lq fs] by blast
  have cnt: "events_at (''http_requests_total'', http_labels m p c) ops = length (filter (counted_as m p c) ?ps)"
    by (simp add: events_at_http r(2) count_targets)
  moreover have "length (filter (counted_as m p c) ?ps) \<le> length cs"
    using length_filter_le [of "counted_as m p c" ?ps] by simp
  moreover have "events.hits (''http_requests_total'', http_labels m p c) (concat (map op_events ops)) =
      events_at (''http_requests_total'', http_labels m p c) ops"
    unfolding events.hits_def events_at_def by (simp add: case_prod_unfold)
  ultimately show ?thesis
    using r(1) events.value_fold_exact [OF assms(3), of "concat (map op_events ops)"] assms(4)
    by (simp add: counter_value_fold_apply_op counted_as_def)
qed

theorem requests_counted_witness:
  "\<forall>e. counter_value (sv_metrics (snd (serve_all (example_libpq []) sample_fs [sample_call e R_post_devices]
         ((start_server new_Logger new_MetricsRegistry)\<lparr>sv_db := Some (new_database (example_libpq []) [])\<rparr>))))
       (''http_requests_total'', http_labels ''POST'' ''/api/devices'' 403) = Fin 1"
proof
  fix e
  let ?s = "(start_server new_Logger new_MetricsRegistry)\<lparr>sv_db := Some (new_database (example_libpq []) [])\<rparr>"
  have "server_ok ?s" using new_database_free [OF sample_connect] by (simp add: server_ok_def)
  moreover have "list_all call_defined [sample_call e R_post_devices]"
    by (simp add: call_defined_def sample_call_def)
  moreover have "counter_value (sv_metrics ?s) k = Fin (of_nat 0)" for k
    by (simp add: start_server_def)
  moreover have "recorded_code R_post_devices (fst (handle_post_devices e req t)) = 403" for req and t :: "unit server"
    by (simp add: handle_post_devices_def Let_def json_fields_wf)
  ultimately show "counter_value (sv_metrics (snd (serve_all (example_libpq []) sample_fs [sample_call e R_post_devices] ?s)))
       (''http_requests_total'', http_labels ''POST'' ''/api/devices'' 403) = Fin 1"
    using requests_counted [of ?s "[sample_call e R_post_devices]" "''POST''" "''/api/devices''" 403 0
        "example_libpq []" sample_fs] by (simp add: sample_call_def case_prod_unfold Let_def)
qed

end
