(* ===== verification/WebServer_Api.thy ===== *)
theory WebServer_Api
  imports WebServer_Requests
begin

text \<open>
  The outcome of the handlers that write, on every path, and of the handlers that read: when the
  database refuses, and what a client parses from the answer when the database delivers rows.
\<close>

lemma list_busy:
  assumes "sv_db s = Some db" "conn db = Some c" "m_trans c = Some g"
    and "\<And>db. fetch db = fetch_op lq m q read db"
  shows "\<exists>r. fst (handle_list path operation fetch to_json t s) = Inr r \<and> res_code r = 200 \<and> res_body r = ''[]'' \<and>
    sv_metrics (snd (handle_list path operation fetch to_json t s)) =
      recordDbOperation operation True (recordHttpRequest ''GET'' path 200 (seconds (duration_ms t)) (sv_metrics s)) \<and>
    (\<exists>db'. sv_db (snd (handle_list path operation fetch to_json t s)) = Some db' \<and> conn db' = conn db)"
proof -
  from busy_ops(2) [OF assms(2,3), of lq m q read] obtain l where
    "fetch db = Some ([], print_line l db)" using assms(4) by auto
  then show ?thesis
    by (simp add: handle_list_def call_db_def assms(1) Let_def api_response_def set_header_def new_response_def json_dump_compact)
qed

text \<open>A request body from a text with \<open>#\<close> for the double quotes.\<close>

definition body_request :: "string \<Rightarrow> request" where
  "body_request b = \<lparr>req_body = map (\<lambda>c. if c = CHR ''#'' then dq else c) b, remote_ip_address = []\<rparr>"

definition record_request :: "string \<Rightarrow> request" where
  "record_request device = body_request (''{#device_id#:'' @ device @
     '',#service_id#:2,#service_date#:#2024-05-01#,#cost#:10,#notes#:##,#next_due_date#:##}'')"

text \<open>A server in front of a connection.\<close>

definition sample_server :: "unit server" where
  "sample_server = (start_server new_Logger new_MetricsRegistry)
     \<lparr>sv_db := Some \<lparr>conn = Some \<lparr>m_conn = (), m_trans = None\<rparr>, console = []\<rparr>\<rparr>"

lemma sample_server_ok: "server_ok sample_server"
  by (simp add: server_ok_def db_free_def sample_server_def)

lemma sample_record: "parse_record (req_body (record_request ''1'')) = Inr example_record"
  by code_simp

text \<open>
  C31. A service record in a well-formed body is handed to the database once, and the answer says
  whether it was written. A record that could not be written is still answered with status 200,
  while the metrics count the request with status 400.
\<close>

theorem post_history_outcome:
  assumes "server_ok s" "parse_record (req_body req) = Inr r"
  shows "\<exists>db ok db' resp. sv_db s = Some db \<and> addServiceRecord lq r db = Some (ok, db') \<and>
    sv_db (snd (handle_post_history lq t req s)) = Some db' \<and> db_free db' \<and>
    fst (handle_post_history lq t req s) = Inr resp \<and> res_code resp = 200 \<and>
    res_body resp = ''{'' @ [dq] @ ''success'' @ [dq] @ '':'' @ (if ok then ''true'' else ''false'') @ ''}'' \<and>
    sv_metrics (snd (handle_post_history lq t req s)) =
      recordHttpRequest ''POST'' ''/api/service-history'' (if ok then 200 else 400) (seconds (duration_ms t))
        (recordDbOperation ''add_service_record'' ok
          (recordServiceOperation ''create'' (if ok then 1 else - 1) ok (sv_metrics s)))"
  by (rule post_history_ok [OF assms, of lq t]) (simp add: success_text)

theorem post_history_outcome_witness:
  "\<forall>t. \<exists>resp. fst (handle_post_history (example_libpq []) t (record_request ''1'') sample_server) = Inr resp \<and>
     res_code resp = 200"
proof
  fix t
  from post_history_outcome [OF sample_server_ok sample_record, of "example_libpq []" t]
  show "\<exists>resp. fst (handle_post_history (example_libpq []) t (record_request ''1'') sample_server) = Inr resp \<and>
     res_code resp = 200" by blast
qed

text \<open>
  C32. A body that cannot be read as a service record, because the parser or a conversion throws,
  does not reach the database: the failure is recorded with status 400 and answered with 400 and the
  message of the exception, provided that message is well-formed UTF-8; otherwise building the
  answer throws type error 316. A body whose id is a floating-point number outside the range of
  \<open>int\<close> is not covered: its conversion is undefined behaviour and throws nothing
  (\<open>record_ids_unchecked\<close>).
\<close>

theorem post_history_malformed:
  assumes "parse_record (req_body req) = Inl ex" "ex \<noteq> Undefined"
  shows "sv_db (snd (handle_post_history lq t req s)) = sv_db s \<and>
    sv_metrics (snd (handle_post_history lq t req s)) =
      recordHttpRequest ''POST'' ''/api/service-history'' 400 (seconds (duration_ms t))
        (recordDbOperation ''add_service_record'' False
          (recordServiceOperation ''create'' (- 1) False (sv_metrics s))) \<and>
    (if utf8_ok (c_what ex)
     then \<exists>r. fst (handle_post_history lq t req s) = Inr r \<and> res_code r = 400 \<and> res_body r = print_json (error_body ex)
     else \<exists>m. fst (handle_post_history lq t req s) = Inl (type_error_create 316 m))"
  using error_body_response [of ex 400] by (simp add: post_history_bad [OF assms] record_catch_def Let_def)

theorem post_history_malformed_witness:
  "\<forall>t. \<exists>r. fst (handle_post_history (example_libpq []) t (record_request ''null'') sample_server) = Inr r \<and> res_code r = 400"
proof
  fix t
  let ?ex = "type_error_create 302 ''type must be number, but is null''"
  have "parse_record (req_body (record_request ''null'')) = Inl ?ex" by code_simp
  note m = post_history_malformed [OF this, of "example_libpq []" t sample_server]
  have "?ex \<noteq> Undefined" "utf8_ok (c_what ?ex)" by code_simp+
  with m show "\<exists>r. fst (handle_post_history (example_libpq []) t (record_request ''null'') sample_server) = Inr r \<and> res_code r = 400"
    by auto
qed

text \<open>
  The numbers of a record are not checked against the range of \<open>int\<close>: the device id 2^32 + 1 is
  taken for device 1, and a device id that is a floating-point number beyond the range is
  undefined behaviour of the conversion, which no handler catches.
\<close>

lemma record_ids_unchecked:
  "parse_record (req_body (record_request ''4294967297'')) = Inr example_record \<and>
   parse_record (req_body (record_request ''1e10'')) = Inl Undefined \<and>
   handle_post_history lq t (record_request ''1e10'') s = (Inl Undefined, s)"
proof (intro conjI)
  show "parse_record (req_body (record_request ''4294967297'')) = Inr example_record" by code_simp
  show u: "parse_record (req_body (record_request ''1e10'')) = Inl Undefined" by code_simp
  show "handle_post_history lq t (record_request ''1e10'') s = (Inl Undefined, s)"
    by (simp add: handle_post_history_def u try_catch_def)
qed

text \<open>
  C33. While another request's transaction is registered with the shared connection, the lists of
  devices, service types and records are answered with status 200 and an empty array, and counted
  as successful database operations, although nothing was asked of the database.
\<close>

theorem lists_hide_failure:
  assumes "sv_db s = Some db" "conn db = Some c" "m_trans c = Some g"
  shows "\<forall>handler \<in> {handle_get_devices lq t, handle_get_service_types lq t, handle_get_records lq t}.
    \<exists>r db' path op. fst (handler s) = Inr r \<and> res_code r = 200 \<and> res_body r = ''[]'' \<and>
      sv_db (snd (handler s)) = Some db' \<and> conn db' = conn db \<and>
      sv_metrics (snd (handler s)) =
        recordDbOperation op True (recordHttpRequest ''GET'' path 200 (seconds (duration_ms t)) (sv_metrics s))"
proof -
  note busy = list_busy [OF assms, where t = t]
  show ?thesis
    using busy [OF fun_cong [OF getAllDevices_def [of lq]], of "''/api/devices''" "''get_devices''" device_json]
      busy [OF fun_cong [OF getAllServiceTypes_def [of lq]], of "''/api/service-types''" "''get_service_types''" service_type_json]
      busy [OF fun_cong [OF getAllServiceRecords_def [of lq]], of "''/api/service-records''" "''get_service_records''" service_record_json]
    unfolding handle_get_devices_def handle_get_service_types_def handle_get_records_def by blast
qed

theorem lists_hide_failure_witness:
  "\<forall>t. \<exists>r. fst (handle_get_devices (example_libpq []) t
       (sample_server\<lparr>sv_db := Some \<lparr>conn = Some \<lparr>m_conn = (), m_trans = Some 7\<rparr>, console = []\<rparr>\<rparr>)) = Inr r \<and> res_body r = ''[]''"
proof
  fix t
  show "\<exists>r. fst (handle_get_devices (example_libpq []) t
       (sample_server\<lparr>sv_db := Some \<lparr>conn = Some \<lparr>m_conn = (), m_trans = Some 7\<rparr>, console = []\<rparr>\<rparr>)) = Inr r \<and> res_body r = ''[]''"
    using lists_hide_failure [where s = "sample_server\<lparr>sv_db := Some \<lparr>conn = Some \<lparr>m_conn = (), m_trans = Some 7\<rparr>, console = []\<rparr>\<rparr>"
        and c = "\<lparr>m_conn = (), m_trans = Some 7\<rparr>" and g = 7 and lq = "example_libpq []" and t = t] by auto
qed

section \<open>The service history as the client reads it\<close>

text \<open>Columns are UTF-8, the client encoding of the connection, and the cost is a finite number or null.\<close>

definition clean_row :: "string option list \<Rightarrow> bool" where
  "clean_row row \<longleftrightarrow>
     list_all (\<lambda>f. case f of None \<Rightarrow> True | Some s \<Rightarrow> utf8_ok s) row \<and>
     (case as_double_or (Fin 0) (field_at row 5) of Inr (Fin _) \<Rightarrow> True | Inr _ \<Rightarrow> False | Inl _ \<Rightarrow> True)"

lemma from_string_int_range: "from_string_int t = Inr i \<Longrightarrow> json_wf (JInt i)"
proof -
  assume "from_string_int t = Inr i"
  then obtain u where "from_chars_int u = Inr (i, [])"
    using from_string_arithmetic_Inr [of from_chars_int] unfolding from_string_int_def by blast
  then have "- (2 ^ 31) \<le> i" "i < 2 ^ 31"
    by (auto simp: from_chars_int_def Let_def split: if_splits prod.splits)
  then show ?thesis by simp
qed

lemma field_conversions:
  assumes "clean_row row"
  shows "as_int (field_at row i) = Inr v \<Longrightarrow> json_wf (JInt v)"
    and "as_string (field_at row i) = Inr t \<Longrightarrow> utf8_ok t"
    and "as_string_or [] (field_at row i) = Inr t \<Longrightarrow> utf8_ok t"
    and "as_double_or (Fin 0) (field_at row 5) = Inr c \<Longrightarrow> json_wf (JFloat c)"
proof -
  have "\<forall>f \<in> set row. case f of None \<Rightarrow> True | Some s \<Rightarrow> utf8_ok s" using assms by (simp add: clean_row_def list_all_iff)
  then have f: "field_at row i = Some s \<Longrightarrow> utf8_ok s" for s
    by (auto simp: field_at_def split: if_splits) (metis nth_mem option.simps(5))
  show "as_int (field_at row i) = Inr v \<Longrightarrow> json_wf (JInt v)"
    using from_string_int_range by (auto simp only: as_int_def split: option.splits)
  show "as_string (field_at row i) = Inr t \<Longrightarrow> utf8_ok t"
    using f by (auto simp: as_string_def split: option.splits)
  show "as_string_or [] (field_at row i) = Inr t \<Longrightarrow> utf8_ok t"
    using f by (auto simp: as_string_or_def split: option.splits)
  assume c: "as_double_or (Fin 0) (field_at row 5) = Inr c"
  then obtain x where x: "c = Fin x" using assms by (auto simp: clean_row_def split: double.splits)
  with c have "round64 x = Fin x"
    using from_string_double_round by (auto simp: as_double_or_def round64_def [of 0] split: option.splits)
  with x show "json_wf (JFloat c)" by simp
qed

lemma history_row_wf:
  assumes "clean_row row" "read_history_row row = Inr j"
  shows "json_wf j"
proof -
  note conv = field_conversions [OF assms(1)]
  from assms(2) show ?thesis
    by (auto simp: read_history_row_def sum_bind_eq_Inr_iff dest!: conv intro!: json_fields_wf)
qed

lemma history_prefix:
  assumes "conn db = Some c" "m_trans c = None"
    and "connection_exec lq ''BEGIN'' (c\<lparr>m_trans := Some 0\<rparr>) = (Inr b, c1)"
    and "connection_exec lq history_query c1 = (Inr res, c2)"
    and "getDetailedServiceHistory lq db = Some (j, db')"
  obtains js good rest where "j = JArray js" "pg_rows res = good @ rest" "map read_history_row good = map Inr js"
    "rest = [] \<or> (\<exists>e. read_history_row (hd rest) = Inl e)"
proof -
  from assms(5) obtain js where js: "j = JArray js"
      "fetch_op lq ''Error getting detailed history: '' history_query read_history_row db = Some (js, db')"
    unfolding getDetailedServiceHistory_def history_query_def by auto
  have "js = snd (read_rows read_history_row (pg_rows res))" by (rule fetch_op_prefix [OF assms(1-4) js(2)])
  then show ?thesis using read_rows_split [of "pg_rows res" read_history_row] js(1) that by metis
qed

text \<open>
  The object that a row of the query becomes, column by column: the columns are the record id, the
  device name, its model, the service name, the date, the cost, the notes and the due date. The
  id and the three names and dates must be there; the others default to the empty text and zero.
\<close>

definition text_or_empty :: "string option \<Rightarrow> json" where
  "text_or_empty f = JString (case f of None \<Rightarrow> [] | Some t \<Rightarrow> t)"

definition history_object :: "string option list \<Rightarrow> json \<Rightarrow> bool" where
  "history_object row j \<longleftrightarrow>
     (\<exists>id_text i device service date c.
        field_at row 0 = Some id_text \<and> from_string_int id_text = Inr i \<and>
        field_at row 1 = Some device \<and> field_at row 3 = Some service \<and> field_at row 4 = Some date \<and>
        (case field_at row 5 of None \<Rightarrow> c = Fin 0 | Some t \<Rightarrow> from_string_double t = Inr c) \<and>
        j = JObject
          [(''cost'', JFloat c), (''device_name'', JString device), (''model'', text_or_empty (field_at row 2)),
           (''next_due_date'', text_or_empty (field_at row 7)), (''notes'', text_or_empty (field_at row 6)),
           (''record_id'', if 0 \<le> i then JUint (nat i) else JInt i), (''service_date'', JString date),
           (''service_name'', JString service)])"

lemma read_history_row_object:
  "history_object row j \<longleftrightarrow> (\<exists>v. read_history_row row = Inr v \<and> j = norm_json v)"
  by (auto simp: history_object_def read_history_row_def sum_bind_eq_Inr_iff as_int_def as_string_def
      as_string_or_def as_double_or_def text_or_empty_def json_fields_eq put_all_def less_list_code
      split: option.splits)

text \<open>
  C34. The answer to GET /api/service-history when the server answers the query, the columns are UTF-8
  text and the costs are finite: status 200, and a client that parses the body gets one object for
  each row, in order, with the members of \<open>history_object\<close>: the row's id, device, model, service,
  date, notes, due date and cost (the very double the column denotes), up to the first row that
  cannot be converted; that row and later ones are dropped.
\<close>

theorem history_served:
  assumes "sv_db s = Some db" "conn db = Some c" "m_trans c = None"
    and "connection_exec lq ''BEGIN'' (c\<lparr>m_trans := Some 0\<rparr>) = (Inr b, c1)"
    and "connection_exec lq history_query c1 = (Inr res, c2)"
    and "getDetailedServiceHistory lq db \<noteq> None" and "list_all clean_row (pg_rows res)"
  shows "\<exists>r objects good rest. fst (handle_get_history lq t s) = Inr r \<and> res_code r = 200 \<and>
    json_parse (res_body r) = Inr (JArray objects) \<and>
    pg_rows res = good @ rest \<and> list_all2 history_object good objects \<and>
    (rest = [] \<or> (\<forall>j. \<not> history_object (hd rest) j))"
proof -
  from assms(6) obtain j db' where h: "getDetailedServiceHistory lq db = Some (j, db')" by auto
  obtain js good rest where js: "j = JArray js" "pg_rows res = good @ rest" "map read_history_row good = map Inr js"
    "rest = [] \<or> (\<exists>e. read_history_row (hd rest) = Inl e)"
    using history_prefix [OF assms(2-5) h] .
  have "json_wf v" if "v \<in> set js" for v
  proof -
    from that have "Inr v \<in> set (map read_history_row good)" using js(3) by simp
    then obtain row where "row \<in> set good" "read_history_row row = Inr v" by auto
    then show ?thesis using assms(7) js(2) by (intro history_row_wf [of row]) (simp_all add: list_all_iff)
  qed
  then have wf: "json_wf j" by (simp add: js(1) list_all_iff)
  from api_response_ok [OF wf, of 200] obtain r where
    r: "api_response 200 j = Inr r" "res_code r = 200" "res_body r = print_json j" by blast
  have answer: "fst (handle_get_history lq t s) = Inr r"
    using r(1) h assms(1) by (simp add: handle_get_history_def call_db_def Let_def)
  have "list_all2 (\<lambda>row v. read_history_row row = Inr v) good js"
    using js(3) by (simp add: list_all2_conv_all_nth list_eq_iff_nth_eq)
  then have "list_all2 history_object good (map norm_json js)"
    by (auto simp: list_all2_map2 read_history_row_object elim!: list_all2_mono)
  moreover have "rest = [] \<or> (\<forall>j. \<not> history_object (hd rest) j)"
    using js(4) by (auto simp: read_history_row_object)
  ultimately show ?thesis
    using answer r json_parse_print [OF wf] js(1,2)
    by (intro exI [of _ r] exI [of _ "map norm_json js"] exI [of _ good] exI [of _ rest]) simp
qed

definition history_example :: "string option list list" where
  "history_example = [[Some ''1'', Some ''pc'', None, Some ''cleaning'', Some ''2024-05-01'', Some ''99.5'', None, None],
     [Some ''2'', None]]"

theorem history_served_witness:
  "\<forall>t. \<exists>r objects good rest. fst (handle_get_history (example_libpq history_example) t sample_server) = Inr r \<and> res_code r = 200 \<and>
    json_parse (res_body r) = Inr (JArray objects) \<and>
    history_example = good @ rest \<and> list_all2 history_object good objects \<and>
    (rest = [] \<or> (\<forall>j. \<not> history_object (hd rest) j))"
proof
  fix t
  let ?c = "\<lparr>m_conn = (), m_trans = None\<rparr>"
  let ?db = "\<lparr>conn = Some ?c, console = []\<rparr>"
  have ex: "connection_exec (example_libpq history_example) q cc =
      (Inr \<lparr>pg_status = PGRES_TUPLES_OK, pg_rows = history_example, pg_error = [], pg_sqlstate = None\<rparr>, cc)" for q cc
    by (simp add: connection_exec_def finish_exec_def make_result_def check_encoding_def enc_group_known_def
        check_status_def status_error_def get_notifs_def example_libpq_def example_answer_def Let_def)
  have total: "getDetailedServiceHistory (example_libpq history_example) ?db \<noteq> None"
    by (simp add: getDetailedServiceHistory_def fetch_op_def db_block_def case_prod_unfold Let_def split: sum.split)
  have clean: "list_all clean_row history_example" by code_simp
  have db: "sv_db sample_server = Some ?db" "conn ?db = Some ?c" "m_trans ?c = None" by (simp_all add: sample_server_def)
  note m = history_served [OF db ex ex total, of t]
  have rows: "pg_rows \<lparr>pg_status = PGRES_TUPLES_OK, pg_rows = history_example, pg_error = [], pg_sqlstate = None\<rparr> = history_example"
    by simp
  show "\<exists>r objects good rest. fst (handle_get_history (example_libpq history_example) t sample_server) = Inr r \<and> res_code r = 200 \<and>
    json_parse (res_body r) = Inr (JArray objects) \<and>
    history_example = good @ rest \<and> list_all2 history_object good objects \<and>
    (rest = [] \<or> (\<forall>j. \<not> history_object (hd rest) j))"
    by (rule m [unfolded rows, OF clean])
qed

end
