(* ===== verification/Pqxx_Encodings.thy ===== *)
theory Pqxx_Encodings
  imports Pqxx Json_Grammar
begin

text \<open>
  Client encodings (\<open>encodings.cxx\<close>, \<open>encodings.hxx\<close>): for every group of encodings the scanner that
  finds the end of a character in a byte buffer, the table from encoding names to groups, and the
  search for ASCII characters. A read outside the buffer is the value \<open>outside_buffer\<close>. The scanners
  are compared with the forms of characters that the encodings define.
\<close>

section \<open>Groups and errors\<close>

datatype encoding_group = MONOBYTE | BIG5 | EUC_CN | EUC_JP | EUC_JIS_2004 | EUC_KR | EUC_TW | GB18030
  | GBK | JOHAB | MULE_INTERNAL | SJIS | SHIFT_JIS_2004 | UHC | UTF8

datatype text_exn = argument_error string | text_failure string | length_error | conversion_overrun string | invalid_encoding string | outside_buffer

text \<open>
  \<open>std::string::npos\<close>, the largest \<open>size_t\<close>, is larger than the length of every buffer; the maximum
  says so.
\<close>

definition npos :: "nat \<Rightarrow> nat" where
  "npos buffer_len = max buffer_len (2 ^ 64 - 1)"

definition get_byte :: "string \<Rightarrow> nat \<Rightarrow> text_exn + nat" where
  "get_byte buffer i = (if i < length buffer then Inr (byte (buffer ! i)) else Inl outside_buffer)"

definition between_inc :: "nat \<Rightarrow> nat \<Rightarrow> nat \<Rightarrow> bool" where
  "between_inc v lo hi \<longleftrightarrow> lo \<le> v \<and> v \<le> hi"

text \<open>
  The message of an encoding error: \<open>setw(2)\<close> pads the next output only, which is the text 0x, so the
  bytes are in hexadecimal without padding; the position was written before \<open>std::hex\<close>.
\<close>

definition enc_hex :: "nat \<Rightarrow> string" where
  "enc_hex b =
     (let digit = (\<lambda>d. if d < 10 then digit_char d else char_of (87 + d :: nat))
      in if b < 16 then [digit b] else [digit (b div 16), digit (b mod 16)])"

fun join_spaces :: "string list \<Rightarrow> string" where
  "join_spaces [] = []"
| "join_spaces [w] = w"
| "join_spaces (w # u # us) = w @ CHR '' '' # join_spaces (u # us)"

definition throw_for_encoding_error :: "string \<Rightarrow> string \<Rightarrow> nat \<Rightarrow> nat \<Rightarrow> text_exn" where
  "throw_for_encoding_error encoding_name buffer start n =
     (if length buffer < start + n then outside_buffer
      else argument_error (''Invalid byte sequence for encoding '' @ encoding_name @ '' at byte '' @ show_nat start @ '': '' @
             join_spaces (map (\<lambda>c. ''0x'' @ enc_hex (byte c)) (take n (drop start buffer)))))"

section \<open>Scanners\<close>

definition next_seq_for_euc_jplike :: "string \<Rightarrow> string \<Rightarrow> nat \<Rightarrow> nat \<Rightarrow> text_exn + nat" where
  "next_seq_for_euc_jplike encoding_name buffer buffer_len start =
     (let err = (\<lambda>n. Inl (throw_for_encoding_error encoding_name buffer start n))
      in if buffer_len \<le> start then Inr (npos buffer_len)
      else sum_bind (get_byte buffer start) (\<lambda>byte1.
        if byte1 < 0x80 then Inr (start + 1)
        else if buffer_len < start + 2 then err 1
        else sum_bind (get_byte buffer (start + 1)) (\<lambda>byte2.
          if byte1 = 0x8e then (if \<not> between_inc byte2 0xa1 0xfe then err 2 else Inr (start + 2))
          else if between_inc byte1 0xa1 0xfe then (if \<not> between_inc byte2 0xa1 0xfe then err 2 else Inr (start + 2))
          else if byte1 = 0x8f \<and> start + 3 \<le> buffer_len
          then sum_bind (get_byte buffer (start + 2)) (\<lambda>byte3.
            if \<not> between_inc byte2 0xa1 0xfe \<or> \<not> between_inc byte3 0xa1 0xfe then err 3 else Inr (start + 3))
          else err 1)))"

definition next_seq_for_sjislike :: "string \<Rightarrow> string \<Rightarrow> nat \<Rightarrow> nat \<Rightarrow> text_exn + nat" where
  "next_seq_for_sjislike encoding_name buffer buffer_len start =
     (let err = (\<lambda>n. Inl (throw_for_encoding_error encoding_name buffer start n))
      in if buffer_len \<le> start then Inr (npos buffer_len)
      else sum_bind (get_byte buffer start) (\<lambda>byte1.
        if byte1 < 0x80 \<or> between_inc byte1 0xa1 0xdf then Inr (start + 1)
        else if \<not> between_inc byte1 0x81 0x9f \<and> \<not> between_inc byte1 0xe0 0xfc then err 1
        else if buffer_len < start + 2 then err (buffer_len - start)
        else sum_bind (get_byte buffer (start + 1)) (\<lambda>byte2.
          if byte2 = 0x7f then err 2
          else if between_inc byte2 0x40 0x9e \<or> between_inc byte2 0x9f 0xfc then Inr (start + 2)
          else err 2)))"

definition scan_monobyte :: "nat \<Rightarrow> nat \<Rightarrow> text_exn + nat" where
  "scan_monobyte buffer_len start = (if buffer_len \<le> start then Inr (npos buffer_len) else Inr (start + 1))"

definition scan_big5 :: "string \<Rightarrow> nat \<Rightarrow> nat \<Rightarrow> text_exn + nat" where
  "scan_big5 buffer buffer_len start =
     (let err = (\<lambda>n. Inl (throw_for_encoding_error ''BIG5'' buffer start n))
      in if buffer_len \<le> start then Inr (npos buffer_len)
      else sum_bind (get_byte buffer start) (\<lambda>byte1.
        if byte1 < 0x80 then Inr (start + 1)
        else if \<not> between_inc byte1 0x81 0xfe \<or> buffer_len < start + 2 then err 1
        else sum_bind (get_byte buffer (start + 1)) (\<lambda>byte2.
          if \<not> between_inc byte2 0x40 0x7e \<and> \<not> between_inc byte2 0xa1 0xfe then err 2
          else Inr (start + 2))))"

definition scan_euc_cn :: "string \<Rightarrow> nat \<Rightarrow> nat \<Rightarrow> text_exn + nat" where
  "scan_euc_cn buffer buffer_len start =
     (let err = (\<lambda>n. Inl (throw_for_encoding_error ''EUC_CN'' buffer start n))
      in if buffer_len \<le> start then Inr (npos buffer_len)
      else sum_bind (get_byte buffer start) (\<lambda>byte1.
        if byte1 < 0x80 then Inr (start + 1)
        else if \<not> between_inc byte1 0xa1 0xf7 \<or> buffer_len < start + 2 then err 1
        else sum_bind (get_byte buffer (start + 1)) (\<lambda>byte2.
          if \<not> between_inc byte2 0xa1 0xfe then err 2 else Inr (start + 2))))"

definition scan_euc_kr :: "string \<Rightarrow> nat \<Rightarrow> nat \<Rightarrow> text_exn + nat" where
  "scan_euc_kr buffer buffer_len start =
     (let err = (\<lambda>n. Inl (throw_for_encoding_error ''EUC_KR'' buffer start n))
      in if buffer_len \<le> start then Inr (npos buffer_len)
      else sum_bind (get_byte buffer start) (\<lambda>byte1.
        if byte1 < 0x80 then Inr (start + 1)
        else if \<not> between_inc byte1 0xa1 0xfe \<or> buffer_len < start + 2 then err 1
        else sum_bind (get_byte buffer (start + 1)) (\<lambda>byte2.
          if \<not> between_inc byte2 0xa1 0xfe then err 1 else Inr (start + 2))))"

text \<open>The messages of \<open>EUC_TW\<close> name \<open>EUC_KR\<close>, as in the code.\<close>

definition scan_euc_tw :: "string \<Rightarrow> nat \<Rightarrow> nat \<Rightarrow> text_exn + nat" where
  "scan_euc_tw buffer buffer_len start =
     (let err = (\<lambda>n. Inl (throw_for_encoding_error ''EUC_KR'' buffer start n))
      in if buffer_len \<le> start then Inr (npos buffer_len)
      else sum_bind (get_byte buffer start) (\<lambda>byte1.
        if byte1 < 0x80 then Inr (start + 1)
        else if buffer_len < start + 2 then err 1
        else sum_bind (get_byte buffer (start + 1)) (\<lambda>byte2.
          if between_inc byte1 0xa1 0xfe then (if \<not> between_inc byte2 0xa1 0xfe then err 2 else Inr (start + 2))
          else if byte1 \<noteq> 0x8e \<or> buffer_len < start + 4 then err 1
          else if \<not> between_inc byte2 0xa1 0xb0 then err 4
          else sum_bind (get_byte buffer (start + 2)) (\<lambda>byte3.
            if \<not> between_inc byte3 0xa1 0xfe then err 4
            else sum_bind (get_byte buffer (start + 3)) (\<lambda>byte4.
              if between_inc byte4 0xa1 0xfe then Inr (start + 4) else err 4)))))"

definition scan_gb18030 :: "string \<Rightarrow> nat \<Rightarrow> nat \<Rightarrow> text_exn + nat" where
  "scan_gb18030 buffer buffer_len start =
     (let err = (\<lambda>n. Inl (throw_for_encoding_error ''GB18030'' buffer start n))
      in if buffer_len \<le> start then Inr (npos buffer_len)
      else sum_bind (get_byte buffer start) (\<lambda>byte1.
        if byte1 < 0x80 then Inr (start + 1)
        else if byte1 = 0x80 then err (buffer_len - start)
        else if buffer_len < start + 2 then err (buffer_len - start)
        else sum_bind (get_byte buffer (start + 1)) (\<lambda>byte2.
          if between_inc byte2 0x40 0xfe then (if byte2 = 0x7f then err 2 else Inr (start + 2))
          else if buffer_len < start + 4 then err (buffer_len - start)
          else if \<not> between_inc byte2 0x30 0x39 then err 4
          else sum_bind (get_byte buffer (start + 2)) (\<lambda>byte3.
            if \<not> between_inc byte3 0x81 0xfe then err 4
            else sum_bind (get_byte buffer (start + 3)) (\<lambda>byte4.
              if between_inc byte4 0x30 0x39 then Inr (start + 4) else err 4)))))"

definition scan_gbk :: "string \<Rightarrow> nat \<Rightarrow> nat \<Rightarrow> text_exn + nat" where
  "scan_gbk buffer buffer_len start =
     (let err = (\<lambda>n. Inl (throw_for_encoding_error ''GBK'' buffer start n))
      in if buffer_len \<le> start then Inr (npos buffer_len)
      else sum_bind (get_byte buffer start) (\<lambda>byte1.
        if byte1 < 0x80 then Inr (start + 1)
        else if buffer_len < start + 2 then err 1
        else sum_bind (get_byte buffer (start + 1)) (\<lambda>byte2.
          if between_inc byte1 0xa1 0xa9 \<and> between_inc byte2 0xa1 0xfe \<or>
             between_inc byte1 0xb0 0xf7 \<and> between_inc byte2 0xa1 0xfe \<or>
             between_inc byte1 0x81 0xa0 \<and> between_inc byte2 0x40 0xfe \<and> byte2 \<noteq> 0x7f \<or>
             between_inc byte1 0xaa 0xfe \<and> between_inc byte2 0x40 0xa0 \<and> byte2 \<noteq> 0x7f \<or>
             between_inc byte1 0xa8 0xa9 \<and> between_inc byte2 0x40 0xa0 \<and> byte2 \<noteq> 0x7f \<or>
             between_inc byte1 0xaa 0xaf \<and> between_inc byte2 0xa1 0xfe \<or>
             between_inc byte1 0xf8 0xfe \<and> between_inc byte2 0xa1 0xfe \<or>
             between_inc byte1 0xa1 0xa7 \<and> between_inc byte2 0x40 0xa0 \<and> byte2 \<noteq> 0x7f
          then Inr (start + 2) else err 2)))"

text \<open>The second byte of \<open>JOHAB\<close> is read from the position of the first one.\<close>

definition scan_johab :: "string \<Rightarrow> nat \<Rightarrow> nat \<Rightarrow> text_exn + nat" where
  "scan_johab buffer buffer_len start =
     (let err = (\<lambda>n. Inl (throw_for_encoding_error ''JOHAB'' buffer start n))
      in if buffer_len \<le> start then Inr (npos buffer_len)
      else sum_bind (get_byte buffer start) (\<lambda>byte1.
        if byte1 < 0x80 then Inr (start + 1)
        else if buffer_len < start + 2 then err 1
        else sum_bind (get_byte buffer start) (\<lambda>byte2.
          if between_inc byte1 0x84 0xd3 \<and> (between_inc byte2 0x41 0x7e \<or> between_inc byte2 0x81 0xfe) \<or>
             (between_inc byte1 0xd8 0xde \<or> between_inc byte1 0xe0 0xf9) \<and>
               (between_inc byte2 0x31 0x7e \<or> between_inc byte2 0x91 0xfe)
          then Inr (start + 2) else err 2)))"

text \<open>The fourth byte of \<open>MULE_INTERNAL\<close> is read one position too far.\<close>

definition scan_mule_internal :: "string \<Rightarrow> nat \<Rightarrow> nat \<Rightarrow> text_exn + nat" where
  "scan_mule_internal buffer buffer_len start =
     (let err = (\<lambda>n. Inl (throw_for_encoding_error ''MULE_INTERNAL'' buffer start n))
      in if buffer_len \<le> start then Inr (npos buffer_len)
      else sum_bind (get_byte buffer start) (\<lambda>byte1.
        if byte1 < 0x80 then Inr (start + 1)
        else if buffer_len < start + 2 then err 1
        else sum_bind (get_byte buffer (start + 1)) (\<lambda>byte2.
          if between_inc byte1 0x81 0x8d \<and> 0xa0 \<le> byte2 then Inr (start + 2)
          else if buffer_len < start + 3 then err 2
          else if (byte1 = 0x9a \<and> between_inc byte2 0xa0 0xdf \<or> byte1 = 0x9b \<and> between_inc byte2 0xe0 0xef \<or>
                   between_inc byte1 0x90 0x99 \<and> 0xa0 \<le> byte2) \<and> 0xa0 \<le> byte2
          then Inr (start + 3)
          else if buffer_len < start + 4 then err 3
          else if \<not> (byte1 = 0x9c \<and> between_inc byte2 0xf0 0xf4 \<or> byte1 = 0x9d \<and> between_inc byte2 0xf5 0xfe) then err 4
          else sum_bind (get_byte buffer (start + 2)) (\<lambda>byte3.
            if byte3 < 0xa0 then err 4
            else sum_bind (get_byte buffer (start + 4)) (\<lambda>byte4.
              if 0xa0 \<le> byte4 then Inr (start + 4) else err 4)))))"

definition scan_uhc :: "string \<Rightarrow> nat \<Rightarrow> nat \<Rightarrow> text_exn + nat" where
  "scan_uhc buffer buffer_len start =
     (let err = (\<lambda>n. Inl (throw_for_encoding_error ''UHC'' buffer start n))
      in if buffer_len \<le> start then Inr (npos buffer_len)
      else sum_bind (get_byte buffer start) (\<lambda>byte1.
        if byte1 < 0x80 then Inr (start + 1)
        else if buffer_len < start + 2 then err (buffer_len - start)
        else sum_bind (get_byte buffer (start + 1)) (\<lambda>byte2.
          if between_inc byte1 0x80 0xc6
          then (if between_inc byte2 0x41 0x5a \<or> between_inc byte2 0x61 0x7a \<or> between_inc byte2 0x80 0xfe
                then Inr (start + 2) else err 2)
          else if between_inc byte1 0xa1 0xfe then (if \<not> between_inc byte2 0xa1 0xfe then err 2 else Inr (start + 2))
          else err 1)))"

definition scan_utf8 :: "string \<Rightarrow> nat \<Rightarrow> nat \<Rightarrow> text_exn + nat" where
  "scan_utf8 buffer buffer_len start =
     (let err = (\<lambda>n. Inl (throw_for_encoding_error ''UTF8'' buffer start n))
      in if buffer_len \<le> start then Inr (npos buffer_len)
      else sum_bind (get_byte buffer start) (\<lambda>byte1.
        if byte1 < 0x80 then Inr (start + 1)
        else if buffer_len < start + 2 then err (buffer_len - start)
        else sum_bind (get_byte buffer (start + 1)) (\<lambda>byte2.
          if between_inc byte1 0xc0 0xdf then (if \<not> between_inc byte2 0x80 0xbf then err 2 else Inr (start + 2))
          else if buffer_len < start + 3 then err (buffer_len - start)
          else sum_bind (get_byte buffer (start + 2)) (\<lambda>byte3.
            if between_inc byte1 0xe0 0xef
            then (if between_inc byte2 0x80 0xbf \<and> between_inc byte3 0x80 0xbf then Inr (start + 3) else err 3)
            else if buffer_len < start + 4 then err (buffer_len - start)
            else if between_inc byte1 0xf0 0xf7
            then (if \<not> (between_inc byte2 0x80 0xbf \<and> between_inc byte3 0x80 0xbf) then err 4
                  else sum_bind (get_byte buffer (start + 3)) (\<lambda>byte4.
                    if between_inc byte4 0x80 0xbf then Inr (start + 4) else err 4))
            else err 1))))"

text \<open>\<open>get_glyph_scanner\<close>, applied to a buffer.\<close>

fun glyph_scanner :: "encoding_group \<Rightarrow> string \<Rightarrow> nat \<Rightarrow> nat \<Rightarrow> text_exn + nat" where
  "glyph_scanner MONOBYTE b n i = scan_monobyte n i"
| "glyph_scanner BIG5 b n i = scan_big5 b n i"
| "glyph_scanner EUC_CN b n i = scan_euc_cn b n i"
| "glyph_scanner EUC_JP b n i = next_seq_for_euc_jplike ''EUC_JP'' b n i"
| "glyph_scanner EUC_JIS_2004 b n i = next_seq_for_euc_jplike ''EUC_JIS_2004'' b n i"
| "glyph_scanner EUC_KR b n i = scan_euc_kr b n i"
| "glyph_scanner EUC_TW b n i = scan_euc_tw b n i"
| "glyph_scanner GB18030 b n i = scan_gb18030 b n i"
| "glyph_scanner GBK b n i = scan_gbk b n i"
| "glyph_scanner JOHAB b n i = scan_johab b n i"
| "glyph_scanner MULE_INTERNAL b n i = scan_mule_internal b n i"
| "glyph_scanner SJIS b n i = next_seq_for_sjislike ''SJIS'' b n i"
| "glyph_scanner SHIFT_JIS_2004 b n i = next_seq_for_sjislike ''SHIFT_JIS_2004'' b n i"
| "glyph_scanner UHC b n i = scan_uhc b n i"
| "glyph_scanner UTF8 b n i = scan_utf8 b n i"


section \<open>The forms of characters\<close>

text \<open>
  The characters of an encoding as sequences of byte ranges. For \<open>GB18030\<close> the scanner also takes the
  lead byte FF, which the standard leaves out; for \<open>UTF8\<close> it takes overlong forms, surrogates and code
  points above 10FFFF.
\<close>

fun glyph_forms :: "encoding_group \<Rightarrow> (nat \<times> nat) list list" where
  "glyph_forms MONOBYTE = [[(0, 0xff)]]"
| "glyph_forms BIG5 = [[(0, 0x7f)], [(0x81, 0xfe), (0x40, 0x7e)], [(0x81, 0xfe), (0xa1, 0xfe)]]"
| "glyph_forms EUC_CN = [[(0, 0x7f)], [(0xa1, 0xf7), (0xa1, 0xfe)]]"
| "glyph_forms EUC_JP = [[(0, 0x7f)], [(0x8e, 0x8e), (0xa1, 0xfe)], [(0xa1, 0xfe), (0xa1, 0xfe)],
     [(0x8f, 0x8f), (0xa1, 0xfe), (0xa1, 0xfe)]]"
| "glyph_forms EUC_JIS_2004 = [[(0, 0x7f)], [(0x8e, 0x8e), (0xa1, 0xfe)], [(0xa1, 0xfe), (0xa1, 0xfe)],
     [(0x8f, 0x8f), (0xa1, 0xfe), (0xa1, 0xfe)]]"
| "glyph_forms EUC_KR = [[(0, 0x7f)], [(0xa1, 0xfe), (0xa1, 0xfe)]]"
| "glyph_forms EUC_TW = [[(0, 0x7f)], [(0xa1, 0xfe), (0xa1, 0xfe)], [(0x8e, 0x8e), (0xa1, 0xb0), (0xa1, 0xfe), (0xa1, 0xfe)]]"
| "glyph_forms GB18030 = [[(0, 0x7f)], [(0x81, 0xff), (0x40, 0x7e)], [(0x81, 0xff), (0x80, 0xfe)],
     [(0x81, 0xff), (0x30, 0x39), (0x81, 0xfe), (0x30, 0x39)]]"
| "glyph_forms GBK = [[(0, 0x7f)], [(0x81, 0xfe), (0x40, 0x7e)], [(0x81, 0xfe), (0x80, 0xfe)]]"
| "glyph_forms JOHAB = [[(0, 0x7f)], [(0x84, 0xd3), (0x41, 0x7e)], [(0x84, 0xd3), (0x81, 0xfe)],
     [(0xd8, 0xde), (0x31, 0x7e)], [(0xd8, 0xde), (0x91, 0xfe)], [(0xe0, 0xf9), (0x31, 0x7e)], [(0xe0, 0xf9), (0x91, 0xfe)]]"
| "glyph_forms MULE_INTERNAL = [[(0, 0x7f)], [(0x81, 0x8d), (0xa0, 0xff)], [(0x90, 0x99), (0xa0, 0xff), (0xa0, 0xff)],
     [(0x9a, 0x9a), (0xa0, 0xdf), (0xa0, 0xff)], [(0x9b, 0x9b), (0xe0, 0xef), (0xa0, 0xff)],
     [(0x9c, 0x9c), (0xf0, 0xf4), (0xa0, 0xff), (0xa0, 0xff)], [(0x9d, 0x9d), (0xf5, 0xfe), (0xa0, 0xff), (0xa0, 0xff)]]"
| "glyph_forms SJIS = [[(0, 0x7f)], [(0xa1, 0xdf)], [(0x81, 0x9f), (0x40, 0x7e)], [(0x81, 0x9f), (0x80, 0xfc)],
     [(0xe0, 0xfc), (0x40, 0x7e)], [(0xe0, 0xfc), (0x80, 0xfc)]]"
| "glyph_forms SHIFT_JIS_2004 = [[(0, 0x7f)], [(0xa1, 0xdf)], [(0x81, 0x9f), (0x40, 0x7e)], [(0x81, 0x9f), (0x80, 0xfc)],
     [(0xe0, 0xfc), (0x40, 0x7e)], [(0xe0, 0xfc), (0x80, 0xfc)]]"
| "glyph_forms UHC = [[(0, 0x7f)], [(0x80, 0xc6), (0x41, 0x5a)], [(0x80, 0xc6), (0x61, 0x7a)], [(0x80, 0xc6), (0x80, 0xfe)],
     [(0xc7, 0xfe), (0xa1, 0xfe)]]"
| "glyph_forms UTF8 = [[(0, 0x7f)], [(0xc0, 0xdf), (0x80, 0xbf)], [(0xe0, 0xef), (0x80, 0xbf), (0x80, 0xbf)],
     [(0xf0, 0xf7), (0x80, 0xbf), (0x80, 0xbf), (0x80, 0xbf)]]"

definition glyph :: "encoding_group \<Rightarrow> string \<Rightarrow> bool" where
  "glyph enc g \<longleftrightarrow> (\<exists>form \<in> set (glyph_forms enc). in_ranges form g)"

lemma get_byte_at [simp]:
  "get_byte (p @ a # r) (length p) = Inr (byte a)"
  "get_byte (p @ a # b # r) (Suc (length p)) = Inr (byte b)"
  "get_byte (p @ a # b # c # r) (Suc (Suc (length p))) = Inr (byte c)"
  "get_byte (p @ a # b # c # d # r) (Suc (Suc (Suc (length p)))) = Inr (byte d)"
  by (simp_all add: get_byte_def nth_append)

lemma get_byte_at_num [simp]:
  "get_byte (p @ a # b # c # r) (length p + 2) = Inr (byte c)"
  "get_byte (p @ a # b # c # d # r) (length p + 3) = Inr (byte d)"
  by (simp_all add: get_byte_def nth_append)

lemma byte_le_255 [simp]: "byte c \<le> 255"
  using byte_less_256 [of c] by linarith

lemma window_cases:
  assumes "w \<noteq> []"
  obtains a where "w = [a]" | a b where "w = [a, b]" | a b c where "w = [a, b, c]" | a b c d r where "w = a # b # c # d # r"
  using assms by (metis list.exhaust)

text \<open>The eight cases of \<open>GBK\<close> cover a rectangle.\<close>

lemma gbk_cases:
  fixes x y :: nat
  shows "0xa1 \<le> x \<and> x \<le> 0xa9 \<and> 0xa1 \<le> y \<and> y \<le> 0xfe \<or> 0xb0 \<le> x \<and> x \<le> 0xf7 \<and> 0xa1 \<le> y \<and> y \<le> 0xfe \<or>
      0x81 \<le> x \<and> x \<le> 0xa0 \<and> (0x40 \<le> y \<and> y \<le> 0xfe) \<and> y \<noteq> 0x7f \<or> 0xaa \<le> x \<and> x \<le> 0xfe \<and> (0x40 \<le> y \<and> y \<le> 0xa0) \<and> y \<noteq> 0x7f \<or>
      0xa8 \<le> x \<and> x \<le> 0xa9 \<and> (0x40 \<le> y \<and> y \<le> 0xa0) \<and> y \<noteq> 0x7f \<or> 0xaa \<le> x \<and> x \<le> 0xaf \<and> 0xa1 \<le> y \<and> y \<le> 0xfe \<or>
      0xf8 \<le> x \<and> x \<le> 0xfe \<and> 0xa1 \<le> y \<and> y \<le> 0xfe \<or> 0xa1 \<le> x \<and> x \<le> 0xa7 \<and> (0x40 \<le> y \<and> y \<le> 0xa0) \<and> y \<noteq> 0x7f
    \<longleftrightarrow> 0x81 \<le> x \<and> x \<le> 0xfe \<and> 0x40 \<le> y \<and> y \<le> 0xfe \<and> y \<noteq> 0x7f"
  by linarith

lemma scan_gbk_eq:
  "scan_gbk buffer n start =
     (if n \<le> start then Inr (npos n)
      else sum_bind (get_byte buffer start) (\<lambda>x.
        if x < 0x80 then Inr (start + 1)
        else if n < start + 2 then Inl (throw_for_encoding_error ''GBK'' buffer start 1)
        else sum_bind (get_byte buffer (start + 1)) (\<lambda>y.
          if between_inc x 0x81 0xfe \<and> between_inc y 0x40 0xfe \<and> y \<noteq> 0x7f then Inr (start + 2)
          else Inl (throw_for_encoding_error ''GBK'' buffer start 2))))"
  unfolding scan_gbk_def between_inc_def Let_def conj_assoc gbk_cases [unfolded conj_assoc] by (rule refl)

lemmas scanner_eqs = scan_monobyte_def scan_big5_def scan_euc_cn_def next_seq_for_euc_jplike_def scan_euc_kr_def
  scan_euc_tw_def scan_gb18030_def scan_gbk_eq scan_johab_def scan_mule_internal_def next_seq_for_sjislike_def
  scan_uhc_def scan_utf8_def

lemmas form_simps = scanner_eqs in_ranges_def between_inc_def Let_def take_Cons'

lemma scanner_form:
  assumes "enc \<noteq> JOHAB" "enc \<noteq> MULE_INTERNAL" "w \<noteq> []"
  shows "glyph_scanner enc (p @ w @ q) (length p + length w) (length p) = Inr next \<longleftrightarrow>
    (\<exists>form \<in> set (glyph_forms enc). in_ranges form (take (length form) w) \<and> next = length p + length form)"
  using assms(3)
proof (cases rule: window_cases)
  case (1 a)
  with assms(1,2) show ?thesis by (cases enc) (auto simp: form_simps)
next
  case (2 a b)
  with assms(1,2) show ?thesis by (cases enc) (auto simp: form_simps)
next
  case (3 a b c)
  with assms(1,2) show ?thesis by (cases enc) (auto simp: form_simps)
next
  case (4 a b c d r)
  with assms(1,2) show ?thesis by (cases enc) (auto simp: form_simps)
qed

lemma glyphI: "form \<in> set (glyph_forms enc) \<Longrightarrow> in_ranges form g \<Longrightarrow> glyph enc g"
  by (auto simp: glyph_def)

text \<open>A scanner at the start of a character finds its end.\<close>

lemma scan_glyph_at:
  assumes "enc \<noteq> JOHAB" "enc \<noteq> MULE_INTERNAL" "glyph enc g" "buffer = p @ g @ r @ q" "n = length p + length g + length r"
  shows "glyph_scanner enc buffer n (length p) = Inr (length p + length g)"
proof -
  obtain form where f: "form \<in> set (glyph_forms enc)" "in_ranges form g" using assms(3) by (auto simp: glyph_def)
  then have len: "length form = length g" by (auto simp: in_ranges_def list_all2_lengthD)
  have "form \<noteq> []" using f(1) by (cases enc) auto
  with len have "g @ r \<noteq> []" by auto
  from scanner_form [OF assms(1,2) this, of p q] have eq: "glyph_scanner enc buffer n (length p) = Inr (length p + length g) \<longleftrightarrow>
      (\<exists>form \<in> set (glyph_forms enc). in_ranges form (take (length form) (g @ r)) \<and> length p + length g = length p + length form)"
    by (simp add: assms(4,5) add.assoc)
  show ?thesis unfolding eq using f len by (intro bexI [of _ form]) simp_all
qed

lemma glyph_scanner_cases:
  assumes "enc \<noteq> JOHAB" "enc \<noteq> MULE_INTERNAL" "start < n" "n \<le> length buffer"
  shows "glyph_scanner enc buffer n start = Inr next \<longleftrightarrow>
    start < next \<and> next \<le> n \<and> glyph enc (take (next - start) (drop start buffer))"
proof -
  define p w q where "p = take start buffer" and "w = take (n - start) (drop start buffer)" and "q = drop n buffer"
  have len: "length p = start" "length w = n - start" using assms(3,4) by (simp_all add: p_def w_def)
  have split: "buffer = p @ w @ q"
    using assms(3) by (simp add: p_def w_def q_def) (metis append_take_drop_id drop_drop le_add_diff_inverse2 less_or_eq_imp_le)
  have w: "w \<noteq> []" using len(2) assms(3) by auto
  have sub: "take k (drop start buffer) = take k w" if "k \<le> n - start" for k
    using that by (simp add: w_def min_def)
  have "(\<exists>form \<in> set (glyph_forms enc). in_ranges form (take (length form) w) \<and> next = start + length form) \<longleftrightarrow>
      start < next \<and> next \<le> n \<and> glyph enc (take (next - start) (drop start buffer))" (is "?L \<longleftrightarrow> ?R")
  proof
    assume ?L
    then obtain form where f: "form \<in> set (glyph_forms enc)" "in_ranges form (take (length form) w)" "next = start + length form" by blast
    have "form \<noteq> []" using f(1) by (cases enc) auto
    moreover have "length form \<le> length w" using f(2) by (auto simp: in_ranges_def dest!: list_all2_lengthD)
    ultimately show ?R using f len sub [of "length form"] assms(3) by (auto intro: glyphI)
  next
    assume R: ?R
    then obtain form where f: "form \<in> set (glyph_forms enc)" "in_ranges form (take (next - start) (drop start buffer))" by (auto simp: glyph_def)
    then have "length form = next - start" using R assms(4) by (auto simp: in_ranges_def dest!: list_all2_lengthD)
    with f R sub [of "next - start"] show ?L by (intro bexI [of _ form]) auto
  qed
  with scanner_form [OF assms(1,2) w, of p q] show ?thesis using len assms(3) by (simp add: split [symmetric])
qed

lemma glyph_scanner_safe:
  assumes "enc \<noteq> MULE_INTERNAL" "n \<le> length buffer"
  shows "glyph_scanner enc buffer n start \<noteq> Inl outside_buffer"
  using assms
  by (cases enc)
    (auto simp: scanner_eqs get_byte_def Let_def throw_for_encoding_error_def split: if_splits)

lemma glyph_scanner_end: "n \<le> start \<Longrightarrow> glyph_scanner enc buffer n start = Inr (npos n)"
  by (cases enc) (simp_all add: scanner_eqs)

definition ends_within :: "nat \<Rightarrow> nat \<Rightarrow> text_exn + nat \<Rightarrow> bool" where
  "ends_within start n r = (case r of Inl _ \<Rightarrow> True | Inr next \<Rightarrow> start < next \<and> next \<le> n)"

lemma ends_within_simps [simp]:
  "ends_within start n (Inl e)"
  "ends_within start n (Inr next) \<longleftrightarrow> start < next \<and> next \<le> n"
  by (simp_all add: ends_within_def)

lemma ends_within_bind: "(\<And>b. ends_within start n (f b)) \<Longrightarrow> ends_within start n (sum_bind m f)"
  by (cases m) simp_all

lemma ends_within_if:
  "(c \<Longrightarrow> ends_within start n x) \<Longrightarrow> (\<not> c \<Longrightarrow> ends_within start n y) \<Longrightarrow> ends_within start n (if c then x else y)"
  by simp

lemma ends_within_scanner: "start < n \<Longrightarrow> ends_within start n (glyph_scanner enc buffer n start)"
  by (cases enc) (simp_all only: glyph_scanner.simps scanner_eqs Let_def,
    (intro ends_within_if ends_within_bind; simp)+)

lemma glyph_scanner_progress:
  assumes "glyph_scanner enc buffer n start = Inr next" "start < n"
  shows "start < next \<and> next \<le> n"
  using ends_within_scanner [OF assms(2), of enc buffer] assms(1) by simp

lemma glyph_nonempty: "glyph enc g \<Longrightarrow> g \<noteq> []"
  by (cases enc) (auto simp: glyph_def in_ranges_def)

section \<open>Text as characters\<close>

inductive glyphs :: "encoding_group \<Rightarrow> string \<Rightarrow> bool" for enc where
  glyphs_Nil [intro, simp]: "glyphs enc []"
| glyphs_Cons: "glyph enc g \<Longrightarrow> glyphs enc s \<Longrightarrow> glyphs enc (g @ s)"

lemma glyphs_append: "glyphs enc s \<Longrightarrow> glyphs enc t \<Longrightarrow> glyphs enc (s @ t)"
  by (induction s rule: glyphs.induct) (simp_all add: glyphs_Cons)

text \<open>
  \<open>find_char\<close>: the position of the first of several ASCII characters, the end of the text if there
  is none. A byte inside a longer character does not count.
\<close>

function find_char :: "encoding_group \<Rightarrow> string \<Rightarrow> string \<Rightarrow> nat \<Rightarrow> text_exn + nat" where
  "find_char enc needles haystack here =
     (if here < length haystack
      then (case glyph_scanner enc haystack (length haystack) here of
              Inl e \<Rightarrow> Inl e
            | Inr next \<Rightarrow>
                if haystack ! here \<in> set needles \<and> next = here + 1 then Inr here
                else find_char enc needles haystack next)
      else Inr (length haystack))"
  by pat_completeness auto
termination
  by (relation "measure (\<lambda>(_, _, haystack, here). length haystack - here)") (auto dest: glyph_scanner_progress)

declare find_char.simps [simp del]

lemma find_char_safe: "enc \<noteq> MULE_INTERNAL \<Longrightarrow> find_char enc needles haystack here \<noteq> Inl outside_buffer"
proof (induction enc needles haystack here rule: find_char.induct)
  case (1 enc needles haystack here)
  then show ?case
    using glyph_scanner_safe [of enc "length haystack" haystack here]
    by (subst find_char.simps) (auto split: sum.split)
qed

lemma find_char_bounds: "find_char enc needles haystack here = Inr i \<Longrightarrow> i \<le> length haystack \<and> (here \<le> i \<or> i = length haystack)"
proof (induction enc needles haystack here arbitrary: i rule: find_char.induct)
  case (1 enc needles haystack here)
  show ?case
  proof (cases "here < length haystack")
    case True
    with "1.prems" obtain n where n: "glyph_scanner enc haystack (length haystack) here = Inr n"
      by (subst (asm) find_char.simps) (auto split: sum.splits)
    note p = glyph_scanner_progress [OF n True]
    show ?thesis
    proof (cases "haystack ! here \<in> set needles \<and> n = here + 1")
      case hit: True
      with "1.prems" n True show ?thesis by (subst (asm) find_char.simps) simp
    next
      case False
      with "1.prems" n True have "find_char enc needles haystack n = Inr i" by (subst (asm) find_char.simps) auto
      with "1.IH" [OF True n False] p show ?thesis by auto
    qed
  next
    case False
    with "1.prems" show ?thesis by (subst (asm) find_char.simps) simp
  qed
qed

text \<open>
  Encodings in which the bytes of ASCII characters occur in no other character.
\<close>

locale ascii_safe =
  fixes enc :: encoding_group
  assumes supported: "enc \<noteq> JOHAB" "enc \<noteq> MULE_INTERNAL"
    and ascii: "byte c < 0x80 \<Longrightarrow> glyph enc [c]"
    and multibyte: "glyph enc g \<Longrightarrow> length g \<noteq> 1 \<Longrightarrow> list_all (\<lambda>c. 0x80 \<le> byte c) g"
begin

lemma scan_at: "glyph enc g \<Longrightarrow> n = length p + length g + length r \<Longrightarrow>
    glyph_scanner enc (p @ g @ r @ q) n (length p) = Inr (length p + length g)"
  using scan_glyph_at [OF supported] by blast

lemma find_char_bytes:
  assumes "list_all (\<lambda>c. byte c < 0x80) needles" "glyphs enc s"
  shows "find_char enc needles (p @ s) (length p) = Inr (length p + length (takeWhile (\<lambda>c. c \<notin> set needles) s))"
  using assms(2)
proof (induction s arbitrary: p rule: glyphs.induct)
  case glyphs_Nil
  then show ?case by (simp add: find_char.simps)
next
  case (glyphs_Cons g s)
  have g: "g \<noteq> []" using glyphs_Cons(1) glyph_nonempty by auto
  then obtain c g' where c: "g = c # g'" by (cases g) auto
  have scan: "glyph_scanner enc (p @ g @ s) (length (p @ g @ s)) (length p) = Inr (length p + length g)"
    using scan_at [OF glyphs_Cons(1), of "length (p @ g @ s)" p s "[]"] by simp
  have IH: "find_char enc needles (p @ g @ s) (length p + length g)
      = Inr (length p + length g + length (takeWhile (\<lambda>c. c \<notin> set needles) s))"
    using glyphs_Cons.IH [of "p @ g"] by simp
  show ?case
  proof (cases "g' = []")
    case True
    with scan IH c show ?thesis by (subst find_char.simps) (simp add: nth_append)
  next
    case False
    with multibyte [OF glyphs_Cons(1)] c have "list_all (\<lambda>c. 0x80 \<le> byte c) g" by (cases g') auto
    then have "list_all (\<lambda>c. c \<notin> set needles) g" using assms(1) by (fastforce simp: list_all_iff)
    then have "takeWhile (\<lambda>c. c \<notin> set needles) (g @ s) = g @ takeWhile (\<lambda>c. c \<notin> set needles) s"
      by (simp add: takeWhile_append list_all_iff)
    with scan IH c False show ?thesis by (subst find_char.simps) (simp add: nth_append)
  qed
qed

end

lemma ascii_safe_groups: "enc \<in> {MONOBYTE, EUC_CN, EUC_JP, EUC_JIS_2004, EUC_KR, EUC_TW, UTF8} \<Longrightarrow> ascii_safe enc"
  by unfold_locales (auto simp: glyph_def in_ranges_def list_all2_Cons1)

interpretation monobyte: ascii_safe MONOBYTE by (rule ascii_safe_groups) simp
interpretation utf8: ascii_safe UTF8 by (rule ascii_safe_groups) simp

text \<open>
  The search for ASCII characters need not look at the encoding when no other character contains
  their bytes: for the EUC encodings and UTF-8 it gives the position that the search byte by byte gives.
\<close>

lemma find_char_monobyte:
  assumes "enc \<in> {MONOBYTE, EUC_CN, EUC_JP, EUC_JIS_2004, EUC_KR, EUC_TW, UTF8}"
    and "glyphs enc s" "list_all (\<lambda>c. byte c < 0x80) needles"
  shows "find_char enc needles s 0 = find_char MONOBYTE needles s 0"
proof -
  have "glyphs MONOBYTE (c # s)" if "glyphs MONOBYTE s" for c s
    using glyphs_Cons [of MONOBYTE "[c]" s] that by (simp add: glyph_def in_ranges_def)
  then have "glyphs MONOBYTE s" by (induction s) simp_all
  from monobyte.find_char_bytes [OF assms(3) this, of "[]"] ascii_safe.find_char_bytes [OF ascii_safe_groups [OF assms(1)] assms(3,2), of "[]"]
  show ?thesis by simp
qed

section \<open>Names of encodings\<close>

definition unrecognized :: "string \<Rightarrow> text_exn + 'a" where
  "unrecognized name = Inl (invalid_encoding (''Unrecognized encoding: '' @ [CHR 0x27] @ name @ [CHR 0x27, CHR ''.'']))"

definition enc_group :: "string \<Rightarrow> text_exn + encoding_group" where
  "enc_group name =
     (let pick = (\<lambda>table key. case map_of table key of Some g \<Rightarrow> Inr g | None \<Rightarrow> unrecognized name)
      in case name of
        [] \<Rightarrow> unrecognized name
      | c # _ \<Rightarrow>
          if c = CHR ''B'' then pick [(''BIG5'', BIG5)] name
          else if c = CHR ''E'' then
            (if 6 \<le> length name \<and> take 4 name = ''EUC_''
             then pick [(''CN'', EUC_CN), (''JIS_2004'', EUC_JIS_2004), (''JP'', EUC_JP), (''KR'', EUC_KR), (''TW'', EUC_TW)] (drop 4 name)
             else unrecognized name)
          else if c = CHR ''G'' then pick [(''GB18030'', GB18030), (''GBK'', GBK)] name
          else if c = CHR ''I'' then
            (if length name = 10 \<and> take 9 name = ''ISO_8859_'' \<and> byte CHR ''5'' \<le> byte (name ! 9) \<and> byte (name ! 9) < byte CHR ''9''
             then Inr MONOBYTE else unrecognized name)
          else if c = CHR ''J'' then pick [(''JOHAB'', JOHAB)] name
          else if c = CHR ''K'' then pick [(''KOI8R'', MONOBYTE), (''KOI8U'', MONOBYTE)] name
          else if c = CHR ''L'' then
            (if take 5 name = ''LATIN''
             then (let subtype = drop 5 name
                   in if length subtype = 1
                      then (if byte CHR ''1'' \<le> byte (subtype ! 0) \<and> byte (subtype ! 0) \<le> byte CHR ''9'' then Inr MONOBYTE else unrecognized name)
                      else pick [(''10'', MONOBYTE)] subtype)
             else unrecognized name)
          else if c = CHR ''M'' then pick [(''MULE_INTERNAL'', MULE_INTERNAL)] name
          else if c = CHR ''S'' then pick [(''SHIFT_JIS_2004'', SHIFT_JIS_2004), (''SJIS'', SJIS), (''SQL_ASCII'', MONOBYTE)] name
          else if c = CHR ''U'' then pick [(''UHC'', UHC), (''UTF8'', UTF8)] name
          else if c = CHR ''W'' then
            (if take 3 name = ''WIN''
             then pick (map (\<lambda>n. (n, MONOBYTE)) [''866'', ''874'', ''1250'', ''1251'', ''1252'', ''1253'', ''1254'', ''1255'', ''1256'', ''1257'', ''1258''])
                    (drop 3 name)
             else unrecognized name)
          else unrecognized name)"

text \<open>The multi-byte encodings by their names; every other known name is an encoding with one byte per character.\<close>

definition multibyte_names :: "(string \<times> encoding_group) list" where
  "multibyte_names = [(''BIG5'', BIG5), (''EUC_CN'', EUC_CN), (''EUC_JIS_2004'', EUC_JIS_2004), (''EUC_JP'', EUC_JP),
     (''EUC_KR'', EUC_KR), (''EUC_TW'', EUC_TW), (''GB18030'', GB18030), (''GBK'', GBK), (''JOHAB'', JOHAB),
     (''MULE_INTERNAL'', MULE_INTERNAL), (''SHIFT_JIS_2004'', SHIFT_JIS_2004), (''SJIS'', SJIS), (''UHC'', UHC), (''UTF8'', UTF8)]"

definition encoding_by_name :: "string \<Rightarrow> encoding_group option" where
  "encoding_by_name name =
     (if \<not> enc_group_known name then None
      else case map_of multibyte_names name of Some g \<Rightarrow> Some g | None \<Rightarrow> Some MONOBYTE)"

lemma enc_group_known_names:
  "enc_group_known name \<Longrightarrow> enc_group name = (case encoding_by_name name of Some g \<Rightarrow> Inr g | None \<Rightarrow> unrecognized name)"
  unfolding enc_group_known_def set_simps insert_iff empty_iff
  by (elim disjE FalseE) (simp_all only:, code_simp+)

lemma byte_range_chars:
  assumes "49 \<le> byte c" "byte c \<le> 57"
  shows "c \<in> set ''123456789''" "53 \<le> byte c \<Longrightarrow> byte c < 57 \<Longrightarrow> c \<in> set ''5678''"
proof -
  have c: "c = char_of (byte c)" by simp
  consider "byte c = 49" | "byte c = 50" | "byte c = 51" | "byte c = 52" | "byte c = 53" | "byte c = 54"
    | "byte c = 55" | "byte c = 56" | "byte c = 57" using assms by linarith
  then show "c \<in> set ''123456789''" by cases (subst c; simp add: char_of_def bit_0)+
  assume "53 \<le> byte c" "byte c < 57"
  then consider "byte c = 53" | "byte c = 54" | "byte c = 55" | "byte c = 56" by linarith
  then show "c \<in> set ''5678''" by cases (subst c; simp add: char_of_def bit_0)+
qed

lemma prefixE:
  assumes "take k name = p" "length p = k"
  obtains r where "name = p @ r"
  using assms by (metis append_take_drop_id)

lemma pick_Inr: "(case map_of t k of Some g \<Rightarrow> Inr g | None \<Rightarrow> unrecognized name) = Inr g \<Longrightarrow> (k, g) \<in> set t"
  by (auto simp: unrecognized_def dest: map_of_SomeD split: option.splits)

lemma known_if_group:
  assumes "enc_group name = Inr g"
  shows "enc_group_known name"
proof -
  obtain c cs where name: "name = c # cs" using assms by (cases name) (auto simp: enc_group_def unrecognized_def)
  consider (simple) "name \<in> set [''BIG5'', ''GB18030'', ''GBK'', ''JOHAB'', ''KOI8R'', ''KOI8U'', ''MULE_INTERNAL'', ''SHIFT_JIS_2004'', ''SJIS'', ''SQL_ASCII'', ''UHC'', ''UTF8'']"
    | (euc) "take 4 name = ''EUC_''" "drop 4 name \<in> set [''CN'', ''JIS_2004'', ''JP'', ''KR'', ''TW'']"
    | (iso) "length name = 10" "take 9 name = ''ISO_8859_''" "53 \<le> byte (name ! 9)" "byte (name ! 9) < 57"
    | (latin) "take 5 name = ''LATIN''" "length (drop 5 name) = 1" "49 \<le> byte (drop 5 name ! 0)" "byte (drop 5 name ! 0) \<le> 57"
    | (latin10) "take 5 name = ''LATIN''" "drop 5 name = ''10''"
    | (win) "take 3 name = ''WIN''" "drop 3 name \<in> set [''866'', ''874'', ''1250'', ''1251'', ''1252'', ''1253'', ''1254'', ''1255'', ''1256'', ''1257'', ''1258'']"
    using assms unfolding enc_group_def Let_def name list.case
    by (auto simp: unrecognized_def split: if_splits dest!: pick_Inr [unfolded unrecognized_def])
  then show ?thesis
  proof cases
    case simple
    then show ?thesis by (auto simp: enc_group_known_def)
  next
    case euc
    then obtain r where "name = ''EUC_'' @ r" by (elim prefixE) simp
    with euc(2) show ?thesis by (auto simp: enc_group_known_def)
  next
    case iso
    then obtain r where r: "name = ''ISO_8859_'' @ r" by (elim prefixE) simp
    with iso(1) obtain d where "r = [d]" by (cases r) auto
    with r iso byte_range_chars(2) [of d] show ?thesis by (auto simp: enc_group_known_def)
  next
    case latin
    then obtain r where r: "name = ''LATIN'' @ r" by (elim prefixE) simp
    with latin(2) obtain d where "r = [d]" by (cases r) auto
    with r latin byte_range_chars(1) [of d] show ?thesis by (auto simp: enc_group_known_def)
  next
    case latin10
    then obtain r where "name = ''LATIN'' @ r" by (elim prefixE) simp
    with latin10(2) show ?thesis by (auto simp: enc_group_known_def)
  next
    case win
    then obtain r where "name = ''WIN'' @ r" by (elim prefixE) simp
    with win(2) show ?thesis by (auto simp: enc_group_known_def)
  qed
qed

lemma group_or_error: "enc_group name = unrecognized name \<or> (\<exists>g. enc_group name = Inr g)"
proof -
  define Q where "Q r \<longleftrightarrow> r = unrecognized name \<or> (\<exists>g. r = Inr g)" for r :: "text_exn + encoding_group"
  have "Q (unrecognized name)" "Q (Inr g)" "Q x \<Longrightarrow> Q y \<Longrightarrow> Q (if b then x else y)"
    "Q (case m of None \<Rightarrow> unrecognized name | Some g \<Rightarrow> Inr g)" for g x y b m
    by (auto simp: Q_def split: option.splits)
  then have "Q (enc_group name)" unfolding enc_group_def Let_def by (cases name) (simp_all only: list.case)
  then show ?thesis by (simp add: Q_def)
qed

text \<open>
  The nested comparisons that find the group of an encoding by its name are the look-up in the
  table of the names that PostgreSQL uses; a connection accepts exactly these names.
\<close>

lemma enc_group_table:
  "enc_group name = (case encoding_by_name name of Some g \<Rightarrow> Inr g | None \<Rightarrow> unrecognized name)"
proof (cases "enc_group_known name")
  case False
  then have "encoding_by_name name = None" by (simp add: encoding_by_name_def)
  moreover have "enc_group name = unrecognized name" using group_or_error [of name] False known_if_group by blast
  ultimately show ?thesis by simp
qed (rule enc_group_known_names)

section \<open>What the scanners accept\<close>



text \<open>
  The two others are wrong. For MULE_INTERNAL every four-byte character at the end of a buffer
  makes the scanner read the byte behind it. For JOHAB the first byte is checked twice and the second
  one never, so that any byte, a quote or a backslash included, is taken for the end of a Hangul character.
\<close>

lemma multibyte_scanner_flaws:
  "(glyph MULE_INTERNAL [a, b, c, d] \<longrightarrow> glyph_scanner MULE_INTERNAL (p @ [a, b, c, d]) (length p + 4) (length p) = Inl outside_buffer) \<and>
   (0x84 \<le> byte e \<and> byte e \<le> 0xd3 \<longrightarrow> glyph_scanner JOHAB (p @ e # f # q) (length p + 2 + length q) (length p) = Inr (length p + 2))"
proof -
  have "get_byte (p @ [a, b, c, d]) (length p + 4) = Inl outside_buffer" by (simp add: get_byte_def)
  then show ?thesis by (auto simp: glyph_def form_simps list_all2_Cons1)
qed

end
