(* ===== verification/Pqxx_Arrays.thy ===== *)
theory Pqxx_Arrays
  imports Pqxx_Encodings
begin

text \<open>
  The parser of SQL arrays (\<open>array.cxx\<close>) with the string scanners it shares with composite values
  (\<open>array-composite.hxx\<close>). Positions are indices; a read outside the text is the value \<open>outside_buffer\<close>,
  memory reservations are left out. The parser stays within the text and gets to its end.
\<close>

abbreviation sq :: char where "sq \<equiv> CHR 0x27"

section \<open>Parsing\<close>

definition peek :: "string \<Rightarrow> nat \<Rightarrow> text_exn + char" where
  "peek inp i = (if i < length inp then Inr (inp ! i) else Inl outside_buffer)"

definition slice :: "string \<Rightarrow> nat \<Rightarrow> nat \<Rightarrow> text_exn + string" where
  "slice inp i j = (if i \<le> j \<and> j \<le> length inp then Inr (take (j - i) (drop i inp)) else Inl outside_buffer)"

text \<open>The end of a single-quoted string: the loop, entered with the result of a search.\<close>

function scan_single_quoted_loop :: "encoding_group \<Rightarrow> string \<Rightarrow> nat \<Rightarrow> text_exn + nat" where
  "scan_single_quoted_loop enc inp here =
     (let sz = length inp
      in if here < sz
         then (let c = inp ! here; here1 = here + 1
               in if c = sq
                  then (if sz \<le> here1 then Inr here1
                        else if inp ! here1 \<noteq> sq then Inr here1
                        else (case glyph_scanner enc inp sz here1 of
                                Inl e \<Rightarrow> Inl e
                              | Inr next \<Rightarrow>
                                  if here1 + 1 < next then Inr here1
                                  else (case find_char enc [bsl, sq] inp (here1 + 1) of
                                          Inl e \<Rightarrow> Inl e
                                        | Inr h \<Rightarrow> scan_single_quoted_loop enc inp h)))
                  else (case glyph_scanner enc inp sz here1 of
                          Inl e \<Rightarrow> Inl e
                        | Inr next \<Rightarrow>
                            (case find_char enc [bsl, sq] inp next of
                               Inl e \<Rightarrow> Inl e
                             | Inr h \<Rightarrow> scan_single_quoted_loop enc inp h)))
         else Inl (argument_error (''Null byte in SQL string: '' @ inp)))"
  by pat_completeness auto

lemma glyph_scanner_ge: "glyph_scanner enc inp n i = Inr nx \<Longrightarrow> i \<le> nx \<or> n \<le> nx"
  using glyph_scanner_progress [of enc inp n i nx] glyph_scanner_end [of n i enc inp] by (cases "i < n") (auto simp: npos_def)

termination scan_single_quoted_loop
proof (relation "measure (\<lambda>(_, inp, here). length inp - here)", goal_cases)
  case (2 enc inp sz here c here1 nx h)
  then show ?case using find_char_bounds [of enc "[bsl, sq]" inp "here1 + 1" h] by auto
next
  case (3 enc inp sz here c here1 nx h)
  then show ?case using find_char_bounds [of enc "[bsl, sq]" inp nx h] glyph_scanner_ge [of enc inp "length inp" here1 nx] by auto
qed simp

definition scan_single_quoted_string :: "encoding_group \<Rightarrow> string \<Rightarrow> nat \<Rightarrow> text_exn + nat" where
  "scan_single_quoted_string enc inp pos =
     sum_bind (find_char enc [bsl, sq] inp (pos + 1)) (scan_single_quoted_loop enc inp)"

text \<open>
  Un-quoting: the loop of \<open>parse_single_quoted_string\<close> and \<open>parse_double_quoted_string\<close>, which differ
  in the quote only.
\<close>

function unquote_loop :: "encoding_group \<Rightarrow> char \<Rightarrow> string \<Rightarrow> nat \<Rightarrow> nat \<Rightarrow> text_exn + string" where
  "unquote_loop enc q inp stop here =
     (case glyph_scanner enc inp stop here of
        Inl e \<Rightarrow> Inl e
      | Inr next \<Rightarrow>
          if here < stop - 1
          then (case peek inp here of
                  Inl e \<Rightarrow> Inl e
                | Inr c \<Rightarrow>
                    if next - here = 1 \<and> (c = q \<or> c = bsl)
                    then (case glyph_scanner enc inp stop next of
                            Inl e \<Rightarrow> Inl e
                          | Inr next' \<Rightarrow>
                              sum_bind (slice inp next next') (\<lambda>t.
                              sum_bind (unquote_loop enc q inp stop next') (\<lambda>ts. Inr (t @ ts))))
                    else sum_bind (slice inp here next) (\<lambda>t.
                      sum_bind (unquote_loop enc q inp stop next) (\<lambda>ts. Inr (t @ ts))))
          else Inr [])"
  by pat_completeness auto
termination unquote_loop
proof (relation "measure (\<lambda>(_, _, _, stop, here). stop - here)", goal_cases)
  case (2 enc q inp stop here nx c nx2 t)
  then have "here < stop" by auto
  with 2 show ?case
    using glyph_scanner_progress [of enc inp stop here nx] glyph_scanner_ge [of enc inp stop nx nx2] by auto
next
  case (3 enc q inp stop here nx c t)
  then have "here < stop" by auto
  with 3 show ?case using glyph_scanner_progress [of enc inp stop here nx] by auto
qed simp

text \<open>
  \<open>scan_double_quoted_string\<close>: the end of a double-quoted string. \<open>at_quote\<close> tells that the last
  character was a quote which may be the first of a pair.
\<close>

function scan_double_quoted_loop :: "encoding_group \<Rightarrow> string \<Rightarrow> bool \<Rightarrow> nat \<Rightarrow> text_exn + nat" where
  "scan_double_quoted_loop enc inp at_quote pos =
     (case glyph_scanner enc inp (length inp) pos of
        Inl e \<Rightarrow> Inl e
      | Inr next \<Rightarrow>
          if pos < length inp
          then (if at_quote
                then (if next - pos = 1 \<and> inp ! pos = dq then scan_double_quoted_loop enc inp False next else Inr pos)
                else if next - pos = 1 \<and> inp ! pos = bsl
                then (case glyph_scanner enc inp (length inp) next of
                        Inl e \<Rightarrow> Inl e
                      | Inr next' \<Rightarrow> scan_double_quoted_loop enc inp False next')
                else scan_double_quoted_loop enc inp (next - pos = 1 \<and> inp ! pos = dq) next)
          else if \<not> at_quote then Inl (argument_error (''Missing closing double-quote: '' @ inp))
          else Inr pos)"
  by pat_completeness auto
termination scan_double_quoted_loop
proof (relation "measure (\<lambda>(_, inp, _, pos). length inp - pos)", goal_cases)
  case (2 enc inp at_quote pos nx)
  then show ?case using glyph_scanner_progress [of enc inp "length inp" pos nx] by auto
next
  case (3 enc inp at_quote pos nx nx2)
  then show ?case
    using glyph_scanner_progress [of enc inp "length inp" pos nx] glyph_scanner_ge [of enc inp "length inp" nx nx2] by auto
next
  case (4 enc inp at_quote pos nx)
  then show ?case using glyph_scanner_progress [of enc inp "length inp" pos nx] by auto
qed simp

definition scan_double_quoted_string :: "encoding_group \<Rightarrow> string \<Rightarrow> nat \<Rightarrow> text_exn + nat" where
  "scan_double_quoted_string enc inp pos =
     sum_bind (glyph_scanner enc inp (length inp) pos) (scan_double_quoted_loop enc inp False)"

text \<open>
  \<open>scan_unquoted_string\<close> stops at one of the characters \<open>stops\<close>. \<open>state\<close> is the value of
  \<open>at_backslash\<close> for the character before, \<open>None\<close> at the first character, where the variable is false.
\<close>

function scan_unquoted_loop :: "encoding_group \<Rightarrow> string \<Rightarrow> string \<Rightarrow> bool option \<Rightarrow> nat \<Rightarrow> text_exn + nat" where
  "scan_unquoted_loop enc stops inp state pos =
     (case glyph_scanner enc inp (length inp) pos of
        Inl e \<Rightarrow> Inl e
      | Inr next \<Rightarrow>
          let at_backslash =
            (case state of
               None \<Rightarrow> False
             | Some prev \<Rightarrow> \<not> prev \<and> next - pos = 1 \<and> (pos < length inp \<and> inp ! pos = bsl))
          in if pos < length inp \<and> (1 < next - pos \<or> at_backslash \<or> inp ! pos \<notin> set stops)
             then scan_unquoted_loop enc stops inp (Some at_backslash) next
             else Inr pos)"
  by pat_completeness auto
termination
  by (relation "measure (\<lambda>(_, _, inp, _, pos). length inp - pos)") (auto dest: glyph_scanner_progress)

definition scan_unquoted_string :: "encoding_group \<Rightarrow> string \<Rightarrow> string \<Rightarrow> nat \<Rightarrow> text_exn + nat" where
  "scan_unquoted_string enc stops inp pos = scan_unquoted_loop enc stops inp None pos"

function parse_unquoted_loop :: "encoding_group \<Rightarrow> string \<Rightarrow> nat \<Rightarrow> bool \<Rightarrow> nat \<Rightarrow> text_exn + string" where
  "parse_unquoted_loop enc inp stop prev pos =
     (case glyph_scanner enc inp stop pos of
        Inl e \<Rightarrow> Inl e
      | Inr next \<Rightarrow>
          if pos < stop
          then sum_bind (peek inp pos) (\<lambda>c.
            let at_backslash = (\<not> prev \<and> next - pos = 1 \<and> c = bsl)
            in sum_bind (if at_backslash then Inr [] else slice inp pos next) (\<lambda>t.
               sum_bind (parse_unquoted_loop enc inp stop at_backslash next) (\<lambda>ts. Inr (t @ ts))))
          else Inr [])"
  by pat_completeness auto
termination
  by (relation "measure (\<lambda>(_, _, stop, _, pos). stop - pos)") (auto dest: glyph_scanner_progress)

declare scan_single_quoted_loop.simps [simp del] unquote_loop.simps [simp del] scan_double_quoted_loop.simps [simp del]
  scan_unquoted_loop.simps [simp del] parse_unquoted_loop.simps [simp del]

definition parse_single_quoted_string :: "encoding_group \<Rightarrow> string \<Rightarrow> nat \<Rightarrow> nat \<Rightarrow> text_exn + string" where
  "parse_single_quoted_string enc inp stop pos = unquote_loop enc sq inp stop (pos + 1)"

definition parse_double_quoted_string :: "encoding_group \<Rightarrow> string \<Rightarrow> nat \<Rightarrow> nat \<Rightarrow> text_exn + string" where
  "parse_double_quoted_string enc inp stop pos =
     sum_bind (glyph_scanner enc inp stop pos) (unquote_loop enc dq inp stop)"

definition parse_unquoted_string :: "encoding_group \<Rightarrow> string \<Rightarrow> nat \<Rightarrow> nat \<Rightarrow> text_exn + string" where
  "parse_unquoted_string enc inp stop pos = parse_unquoted_loop enc inp stop False pos"

datatype juncture = row_start | row_end | null_value | string_value | parsing_done

record array_parser =
  ap_input :: string
  ap_scan :: encoding_group
  ap_pos :: nat

definition new_array_parser :: "string \<Rightarrow> encoding_group \<Rightarrow> array_parser" where
  "new_array_parser inp enc = \<lparr>ap_input = inp, ap_scan = enc, ap_pos = 0\<rparr>"

text \<open>What is found at a position: the juncture, the value and the position behind it.\<close>

definition unquoted_value :: "encoding_group \<Rightarrow> string \<Rightarrow> nat \<Rightarrow> text_exn + (string \<times> nat)" where
  "unquoted_value enc inp pos =
     sum_bind (scan_unquoted_string enc '',;}'' inp pos) (\<lambda>stop.
     sum_bind (parse_unquoted_string enc inp stop pos) (\<lambda>value. Inr (value, stop)))"

definition find_juncture :: "encoding_group \<Rightarrow> string \<Rightarrow> nat \<Rightarrow> text_exn + (juncture \<times> string \<times> nat)" where
  "find_juncture enc inp pos =
     sum_bind (glyph_scanner enc inp (length inp) pos) (\<lambda>next.
       if 1 < next - pos
       then sum_bind (unquoted_value enc inp pos) (\<lambda>(value, stop). Inr (string_value, value, stop))
       else sum_bind (peek inp pos) (\<lambda>c.
         if c = CHR 0x00 then Inl (text_failure ''Unexpected zero byte in array.'')
         else if c = CHR ''{'' then Inr (row_start, [], next)
         else if c = CHR ''}'' then Inr (row_end, [], next)
         else if c = sq
         then sum_bind (scan_single_quoted_string enc inp pos) (\<lambda>stop.
              sum_bind (parse_single_quoted_string enc inp stop pos) (\<lambda>value. Inr (string_value, value, stop)))
         else if c = dq
         then sum_bind (scan_double_quoted_string enc inp pos) (\<lambda>stop.
              sum_bind (parse_double_quoted_string enc inp stop pos) (\<lambda>value. Inr (string_value, value, stop)))
         else sum_bind (unquoted_value enc inp pos) (\<lambda>(value, stop).
              if value = ''NULL'' then Inr (null_value, [], stop) else Inr (string_value, value, stop))))"

definition skip_separator :: "encoding_group \<Rightarrow> string \<Rightarrow> nat \<Rightarrow> text_exn + nat" where
  "skip_separator enc inp pos =
     (if pos < length inp
      then sum_bind (glyph_scanner enc inp (length inp) pos) (\<lambda>next.
        Inr (if next - pos = 1 \<and> inp ! pos \<in> set '',;'' then next else pos))
      else Inr pos)"

definition get_next :: "array_parser \<Rightarrow> text_exn + ((juncture \<times> string) \<times> array_parser)" where
  "get_next ap =
     (if length (ap_input ap) \<le> ap_pos ap then Inr ((parsing_done, []), ap)
      else sum_bind (find_juncture (ap_scan ap) (ap_input ap) (ap_pos ap)) (\<lambda>(found, value, stop).
           sum_bind (skip_separator (ap_scan ap) (ap_input ap) stop) (\<lambda>stop.
           Inr ((found, value), ap\<lparr>ap_pos := stop\<rparr>))))"

section \<open>Progress and safety\<close>

lemma sum_cases_Inr: "(case m of Inl e \<Rightarrow> Inl e | Inr x \<Rightarrow> f x) = Inr y \<longleftrightarrow> (\<exists>x. m = Inr x \<and> f x = Inr y)"
  by (cases m) auto

lemma sum_cases_Inl: "(case m of Inl e \<Rightarrow> Inl e | Inr x \<Rightarrow> f x) = Inl z \<longleftrightarrow> m = Inl z \<or> (\<exists>x. m = Inr x \<and> f x = Inl z)"
  by (cases m) auto

lemma sum_bind_Inl: "sum_bind m f = Inl z \<longleftrightarrow> m = Inl z \<or> (\<exists>x. m = Inr x \<and> f x = Inl z)"
  by (cases m) auto

lemmas result_iffs = sum_cases_Inr sum_cases_Inl sum_bind_eq_Inr_iff sum_bind_Inl

lemma scan_single_bounds: "scan_single_quoted_loop enc inp here = Inr i \<Longrightarrow> here < i \<and> i \<le> length inp"
proof (induction enc inp here arbitrary: i rule: scan_single_quoted_loop.induct)
  case (1 enc inp here)
  have here: "here < length inp" using "1.prems" by (subst (asm) scan_single_quoted_loop.simps) (auto simp: Let_def split: if_splits)
  show ?case
  proof (cases "inp ! here = sq")
    case quote: True
    show ?thesis
    proof (cases "length inp \<le> here + 1 \<or> inp ! (here + 1) \<noteq> sq")
      case True
      with "1.prems" here quote show ?thesis
        by (subst (asm) scan_single_quoted_loop.simps) (auto simp: Let_def split: if_splits)
    next
      case False
      with "1.prems" here quote obtain n where n: "glyph_scanner enc inp (length inp) (here + 1) = Inr n"
        by (subst (asm) scan_single_quoted_loop.simps) (auto simp: Let_def result_iffs)
      show ?thesis
      proof (cases "here + 2 < n")
        case True
        with "1.prems" here quote False n show ?thesis
          by (subst (asm) scan_single_quoted_loop.simps) (simp add: Let_def)
      next
        case short: False
        with "1.prems" here quote False n obtain h where
          h: "find_char enc [bsl, sq] inp (here + 1 + 1) = Inr h" "scan_single_quoted_loop enc inp h = Inr i"
          by (subst (asm) scan_single_quoted_loop.simps) (auto simp: Let_def result_iffs)
        with "1.IH"(1) [OF refl here refl refl quote _ _ n _ h] False short find_char_bounds [OF h(1)] here show ?thesis by auto
      qed
    qed
  next
    case False
    with "1.prems" here obtain n h where n: "glyph_scanner enc inp (length inp) (here + 1) = Inr n"
      and h: "find_char enc [bsl, sq] inp n = Inr h" "scan_single_quoted_loop enc inp h = Inr i"
      by (subst (asm) scan_single_quoted_loop.simps) (auto simp: Let_def result_iffs)
    with "1.IH"(2) [OF refl here refl refl False n h] find_char_bounds [OF h(1)] glyph_scanner_ge [OF n] here show ?thesis by auto
  qed
qed

lemma scan_single_safe: "enc \<noteq> MULE_INTERNAL \<Longrightarrow> scan_single_quoted_loop enc inp here \<noteq> Inl outside_buffer"
proof (induction enc inp here rule: scan_single_quoted_loop.induct)
  case (1 enc inp here)
  note s = glyph_scanner_safe [OF "1.prems", of "length inp" inp] find_char_safe [OF "1.prems"]
  show ?case
    using "1.IH" "1.prems" s by (subst scan_single_quoted_loop.simps) (auto simp: Let_def result_iffs split: sum.split)
qed

lemma unquote_safe:
  "enc \<noteq> MULE_INTERNAL \<Longrightarrow> stop \<le> length inp \<Longrightarrow> unquote_loop enc q inp stop here \<noteq> Inl outside_buffer"
proof (induction enc q inp stop here rule: unquote_loop.induct)
  case (1 enc q inp stop here)
  show ?case
  proof
    assume bad: "unquote_loop enc q inp stop here = Inl outside_buffer"
    note s = glyph_scanner_safe [OF "1.prems"]
    from bad s obtain n where n: "glyph_scanner enc inp stop here = Inr n" and here: "here < stop - 1"
      by (subst (asm) unquote_loop.simps) (auto simp: result_iffs split: if_splits)
    then have b: "here < n" "n \<le> stop" "here < stop" using glyph_scanner_progress [OF n] by auto
    have c: "peek inp here = Inr (inp ! here)" using b "1.prems"(2) by (simp add: peek_def)
    show False
    proof (cases "n - here = 1 \<and> (inp ! here = q \<or> inp ! here = bsl)")
      case True
      then have "n < stop" using here b by auto
      with bad n here c True s obtain m where m: "glyph_scanner enc inp stop n = Inr m"
        by (subst (asm) unquote_loop.simps) (auto simp: result_iffs)
      have mb: "n < m" "m \<le> stop" using glyph_scanner_progress [OF m] \<open>n < stop\<close> by auto
      then have t: "slice inp n m = Inr (take (m - n) (drop n inp))" using "1.prems"(2) by (simp add: slice_def)
      from bad n here c True m t have "unquote_loop enc q inp stop m = Inl outside_buffer"
        by (subst (asm) unquote_loop.simps) (auto simp: result_iffs)
      with "1.IH"(1) [OF n here c True m t] "1.prems" show False by simp
    next
      case False
      have t: "slice inp here n = Inr (take (n - here) (drop here inp))" using b "1.prems"(2) by (simp add: slice_def)
      from bad n here c False t have "unquote_loop enc q inp stop n = Inl outside_buffer"
        by (subst (asm) unquote_loop.simps) (auto simp: result_iffs split: if_splits)
      with "1.IH"(2) [OF n here c False t] "1.prems" show False by simp
    qed
  qed
qed

lemma scan_double_bounds:
  "scan_double_quoted_loop enc inp at_quote pos = Inr i \<Longrightarrow> at_quote \<longrightarrow> pos \<le> length inp \<Longrightarrow> pos \<le> i \<and> i \<le> length inp"
proof (induction enc inp at_quote pos arbitrary: i rule: scan_double_quoted_loop.induct)
  case (1 enc inp at_quote pos)
  from "1.prems" obtain n where n: "glyph_scanner enc inp (length inp) pos = Inr n"
    by (subst (asm) scan_double_quoted_loop.simps) (auto simp: result_iffs)
  show ?case
  proof (cases "pos < length inp")
    case pos: True
    note b = glyph_scanner_progress [OF n pos]
    consider (fin) "i = pos" | (pair) "at_quote" "n - pos = 1 \<and> inp ! pos = dq" "scan_double_quoted_loop enc inp False n = Inr i"
      | (esc) m where "\<not> at_quote" "n - pos = 1 \<and> inp ! pos = bsl" "glyph_scanner enc inp (length inp) n = Inr m"
          "scan_double_quoted_loop enc inp False m = Inr i"
      | (other) "\<not> at_quote" "\<not> (n - pos = 1 \<and> inp ! pos = bsl)"
          "scan_double_quoted_loop enc inp (n - pos = 1 \<and> inp ! pos = dq) n = Inr i"
      using "1.prems"(1) n pos by (subst (asm) scan_double_quoted_loop.simps) (auto simp: result_iffs split: if_splits)
    then show ?thesis
    proof cases
      case fin
      with pos show ?thesis by simp
    next
      case pair
      with "1.IH"(1) [OF n pos pair(1,2,3)] b show ?thesis by simp
    next
      case esc
      with "1.IH"(2) [OF n pos esc(1-4)] b glyph_scanner_ge [OF esc(3)] show ?thesis by auto
    next
      case other
      with "1.IH"(3) [OF n pos other(1-3)] b show ?thesis by simp
    qed
  next
    case False
    with "1.prems" n show ?thesis by (subst (asm) scan_double_quoted_loop.simps) (auto split: if_splits)
  qed
qed

lemma scan_double_safe: "enc \<noteq> MULE_INTERNAL \<Longrightarrow> scan_double_quoted_loop enc inp at_quote pos \<noteq> Inl outside_buffer"
proof (induction enc inp at_quote pos rule: scan_double_quoted_loop.induct)
  case (1 enc inp at_quote pos)
  then show ?case
    using glyph_scanner_safe [OF "1.prems", of "length inp" inp]
    by (subst scan_double_quoted_loop.simps) (auto split: sum.split)
qed

lemma scan_unquoted_bounds:
  "scan_unquoted_loop enc stops inp state pos = Inr i \<Longrightarrow> pos \<le> length inp \<Longrightarrow> pos \<le> i \<and> i \<le> length inp"
proof (induction enc stops inp state pos arbitrary: i rule: scan_unquoted_loop.induct)
  case (1 enc stops inp state pos)
  from "1.prems" obtain n where n: "glyph_scanner enc inp (length inp) pos = Inr n"
    by (subst (asm) scan_unquoted_loop.simps) (auto simp: result_iffs)
  define ab where "ab = (case state of None \<Rightarrow> False | Some b \<Rightarrow> \<not> b \<and> n - pos = 1 \<and> (pos < length inp \<and> inp ! pos = bsl))"
  show ?case
  proof (cases "pos < length inp \<and> (1 < n - pos \<or> ab \<or> inp ! pos \<notin> set stops)")
    case True
    with "1.prems"(1) n have "scan_unquoted_loop enc stops inp (Some ab) n = Inr i"
      by (subst (asm) scan_unquoted_loop.simps) (simp add: Let_def ab_def)
    with "1.IH" [OF n ab_def True] glyph_scanner_progress [OF n] True show ?thesis by auto
  next
    case False
    with "1.prems" n show ?thesis by (subst (asm) scan_unquoted_loop.simps) (simp add: Let_def ab_def split: if_splits)
  qed
qed

lemma scan_unquoted_first:
  assumes "scan_unquoted_string enc stops inp pos = Inr i" "pos < length inp"
    and "glyph_scanner enc inp (length inp) pos = Inr n" "1 < n - pos \<or> inp ! pos \<notin> set stops"
  shows "pos < i"
proof -
  have "scan_unquoted_loop enc stops inp (Some False) n = Inr i"
    using assms unfolding scan_unquoted_string_def by (subst (asm) scan_unquoted_loop.simps) auto
  with glyph_scanner_progress [OF assms(3,2)] scan_unquoted_bounds show ?thesis by fastforce
qed

lemma scan_unquoted_safe: "enc \<noteq> MULE_INTERNAL \<Longrightarrow> scan_unquoted_loop enc stops inp state pos \<noteq> Inl outside_buffer"
proof (induction enc stops inp state pos rule: scan_unquoted_loop.induct)
  case (1 enc stops inp state pos)
  then show ?case
    using glyph_scanner_safe [OF "1.prems", of "length inp" inp]
    by (subst scan_unquoted_loop.simps) (auto simp: Let_def split: sum.split)
qed

lemma parse_unquoted_safe:
  "enc \<noteq> MULE_INTERNAL \<Longrightarrow> stop \<le> length inp \<Longrightarrow> parse_unquoted_loop enc inp stop prev pos \<noteq> Inl outside_buffer"
proof (induction enc inp stop prev pos rule: parse_unquoted_loop.induct)
  case (1 enc inp stop prev pos)
  show ?case
  proof (cases "glyph_scanner enc inp stop pos")
    case (Inl e)
    with glyph_scanner_safe [OF "1.prems", of pos] show ?thesis by (subst parse_unquoted_loop.simps) auto
  next
    case (Inr n)
    show ?thesis
    proof (cases "pos < stop")
      case True
      note b = glyph_scanner_progress [OF Inr True]
      have c: "peek inp pos = Inr (inp ! pos)" using True "1.prems"(2) by (simp add: peek_def)
      define ab where "ab = (\<not> prev \<and> n - pos = 1 \<and> inp ! pos = bsl)"
      have t: "(if ab then Inr [] else slice inp pos n) = Inr (if ab then [] else take (n - pos) (drop pos inp))"
        using b "1.prems"(2) by (simp add: slice_def)
      from "1.IH" [OF Inr True c ab_def t "1.prems"] Inr True c t show ?thesis
        by (subst parse_unquoted_loop.simps) (simp add: Let_def ab_def sum_bind_Inl)
    qed (use Inr in \<open>subst parse_unquoted_loop.simps, simp\<close>)
  qed
qed

lemma unquoted_value_safe:
  assumes "enc \<noteq> MULE_INTERNAL" "pos \<le> length inp"
  shows "unquoted_value enc inp pos \<noteq> Inl outside_buffer"
  using assms scan_unquoted_safe [OF assms(1)] parse_unquoted_safe [OF assms(1)] scan_unquoted_bounds [OF _ assms(2), of enc]
  by (auto simp: unquoted_value_def sum_bind_Inl scan_unquoted_string_def parse_unquoted_string_def)

lemma find_juncture_safe:
  assumes "enc \<noteq> MULE_INTERNAL" "pos < length inp"
  shows "find_juncture enc inp pos \<noteq> Inl outside_buffer"
proof -
  have single: "(sum_bind (scan_single_quoted_string enc inp pos) (\<lambda>stop.
      sum_bind (parse_single_quoted_string enc inp stop pos) (\<lambda>value. Inr (string_value, value, stop)))) \<noteq> Inl outside_buffer"
    using find_char_safe [OF assms(1)] scan_single_safe [OF assms(1)] unquote_safe [OF assms(1)] scan_single_bounds [of enc inp]
    by (auto simp: scan_single_quoted_string_def parse_single_quoted_string_def result_iffs)
  have double: "(sum_bind (scan_double_quoted_string enc inp pos) (\<lambda>stop.
      sum_bind (parse_double_quoted_string enc inp stop pos) (\<lambda>value. Inr (string_value, value, stop)))) \<noteq> Inl outside_buffer"
    using glyph_scanner_safe [OF assms(1)] scan_double_safe [OF assms(1)] unquote_safe [OF assms(1)]
      scan_double_bounds [of enc inp False]
    by (auto simp: scan_double_quoted_string_def parse_double_quoted_string_def result_iffs)
  show ?thesis
    using assms single double glyph_scanner_safe [OF assms(1), of "length inp" inp pos] unquoted_value_safe [OF assms(1), of pos inp]
    by (auto simp: find_juncture_def peek_def sum_bind_Inl)
qed

lemma find_juncture_bounds:
  assumes "find_juncture enc inp pos = Inr (found, value, stop)" "pos < length inp"
  shows "pos \<le> stop \<and> stop \<le> length inp \<and> (stop = pos \<longrightarrow> inp ! pos \<in> set '',;'') \<and> found \<noteq> parsing_done \<and>
    (stop = pos \<longrightarrow> glyph_scanner enc inp (length inp) pos = Inr (pos + 1))"
proof -
  obtain n where n: "glyph_scanner enc inp (length inp) pos = Inr n"
    using assms(1) by (auto simp: find_juncture_def sum_bind_eq_Inr_iff)
  note b = glyph_scanner_progress [OF n assms(2)]
  have u: "pos \<le> stop \<and> stop \<le> length inp \<and> (stop = pos \<longrightarrow> inp ! pos \<in> set '',;}'' \<and> \<not> 1 < n - pos)"
    if "unquoted_value enc inp pos = Inr (value', stop)" for value'
  proof -
    from that have s: "scan_unquoted_string enc '',;}'' inp pos = Inr stop" by (auto simp: unquoted_value_def sum_bind_eq_Inr_iff)
    with scan_unquoted_bounds [of enc "'',;}''" inp None pos stop] scan_unquoted_first [OF s assms(2) n] assms(2)
    show ?thesis by (auto simp: scan_unquoted_string_def)
  qed
  have s: "pos < stop \<and> stop \<le> length inp" if "scan_single_quoted_string enc inp pos = Inr stop"
  proof -
    from that obtain h where "find_char enc [bsl, sq] inp (pos + 1) = Inr h" "scan_single_quoted_loop enc inp h = Inr stop"
      by (auto simp: scan_single_quoted_string_def sum_bind_eq_Inr_iff)
    with find_char_bounds [OF this(1)] scan_single_bounds [OF this(2)] assms(2) show ?thesis by auto
  qed
  have d: "pos < stop \<and> stop \<le> length inp" if "scan_double_quoted_string enc inp pos = Inr stop"
  proof -
    from that n have "scan_double_quoted_loop enc inp False n = Inr stop" by (simp add: scan_double_quoted_string_def)
    with scan_double_bounds [OF this] b show ?thesis by auto
  qed
  show ?thesis
    using assms n b u s d
    by (fastforce simp: find_juncture_def sum_bind_eq_Inr_iff peek_def split: if_splits)
qed

lemma skip_separator_bounds:
  assumes "skip_separator enc inp i = Inr j" "i \<le> length inp"
  shows "i \<le> j \<and> j \<le> length inp"
  using assms glyph_scanner_progress [of enc inp "length inp" i]
  by (fastforce simp: skip_separator_def sum_bind_eq_Inr_iff split: if_splits)

lemma get_next_ends:
  assumes "ap_pos ap < length (ap_input ap)"
  shows "(ap_scan ap \<noteq> MULE_INTERNAL \<longrightarrow> get_next ap \<noteq> Inl outside_buffer) \<and>
    (\<forall>found value ap'. get_next ap = Inr ((found, value), ap') \<longrightarrow>
       found \<noteq> parsing_done \<and> ap_input ap' = ap_input ap \<and> ap_scan ap' = ap_scan ap \<and>
       ap_pos ap < ap_pos ap' \<and> ap_pos ap' \<le> length (ap_input ap))"
proof (intro conjI impI allI)
  let ?enc = "ap_scan ap" and ?inp = "ap_input ap"
  assume m: "?enc \<noteq> MULE_INTERNAL"
  have "skip_separator ?enc ?inp i \<noteq> Inl outside_buffer" for i
    using glyph_scanner_safe [OF m] by (auto simp: skip_separator_def sum_bind_Inl)
  with find_juncture_safe [OF m assms] assms show "get_next ap \<noteq> Inl outside_buffer"
    by (auto simp: get_next_def sum_bind_Inl)
next
  let ?enc = "ap_scan ap" and ?inp = "ap_input ap"
  fix found "value" ap'
  assume "get_next ap = Inr ((found, value), ap')"
  with assms obtain stop stop' where j: "find_juncture ?enc ?inp (ap_pos ap) = Inr (found, value, stop)"
    and s: "skip_separator ?enc ?inp stop = Inr stop'" and ap': "ap' = ap\<lparr>ap_pos := stop'\<rparr>"
    by (auto simp: get_next_def sum_bind_eq_Inr_iff)
  note b = find_juncture_bounds [OF j assms] and t = skip_separator_bounds [OF s]
  have "ap_pos ap < stop'"
  proof (cases "stop = ap_pos ap")
    case True
    with b assms s obtain n where n: "glyph_scanner ?enc ?inp (length ?inp) stop = Inr n"
      "stop' = (if n - stop = 1 \<and> ?inp ! stop \<in> set '',;'' then n else stop)"
      by (auto simp: skip_separator_def sum_bind_eq_Inr_iff)
    with b True have "n - stop = 1" by simp
    with n(2) b True show ?thesis using glyph_scanner_progress [OF n(1)] assms by auto
  next
    case False
    with b t show ?thesis by auto
  qed
  with ap' b t show "found \<noteq> parsing_done" "ap_input ap' = ?inp" "ap_scan ap' = ?enc" "ap_pos ap < ap_pos ap'"
    "ap_pos ap' \<le> length ?inp" by auto
qed

text \<open>
  The array parser reads any text in any encoding but MULE_INTERNAL without touching a byte outside
  it, and every call of \<open>get_next\<close> before the end moves on by at least one byte and stays within
  the text: a client that calls it until it is done gets there in at most as many calls as there are bytes.
\<close>

lemma get_next_progress:
  assumes "ap_pos ap < length (ap_input ap)"
  shows "(ap_scan ap \<noteq> MULE_INTERNAL \<longrightarrow> get_next ap \<noteq> Inl outside_buffer) \<and>
    (\<forall>found value ap'. get_next ap = Inr ((found, value), ap') \<longrightarrow>
       found \<noteq> parsing_done \<and> ap_input ap' = ap_input ap \<and> ap_scan ap' = ap_scan ap \<and>
       ap_pos ap < ap_pos ap' \<and> ap_pos ap' \<le> length (ap_input ap))"
  by (rule get_next_ends [OF assms])

text \<open>A client that reads an array until the parser is done.\<close>

function read_array :: "array_parser \<Rightarrow> text_exn + (juncture \<times> string) list" where
  "read_array ap =
     (case get_next ap of
        Inl e \<Rightarrow> Inl e
      | Inr (item, ap') \<Rightarrow> if fst item = parsing_done then Inr [] else sum_bind (read_array ap') (\<lambda>items. Inr (item # items)))"
  by pat_completeness auto
termination
proof (relation "measure (\<lambda>ap. length (ap_input ap) - ap_pos ap)", goal_cases)
  case (2 ap y item ap')
  have "ap_pos ap < length (ap_input ap)" using 2 by (auto simp: get_next_def split: if_splits)
  from get_next_ends [OF this] 2 show ?case by (cases item) auto
qed simp

declare read_array.simps [simp del]

end
