(* ===== verification/Pqxx_Array_Text.thy ===== *)
theory Pqxx_Array_Text
  imports Pqxx_Arrays
begin

text \<open>
  SQL arrays written by \<open>to_string\<close> (\<open>array_string_traits\<close> in \<open>conversions.hxx\<close>), in one buffer whose tail
  holds the element at hand. What is written is compared with the text of the array and with what the
  parser reads.
\<close>

section \<open>Writing\<close>

text \<open>
  Arrays of nullable strings, and arrays of arrays. \<open>size_buffer\<close> is the space that the library
  provides; the separators between the elements are not counted.
\<close>

datatype sql_array = Strings "string option list" | Nested "sql_array list"

fun element_budget :: "string option \<Rightarrow> nat" where
  "element_budget e = 2 * (case e of None \<Rightarrow> 4 | Some s \<Rightarrow> length s) + 2"

fun array_size_buffer :: "sql_array \<Rightarrow> nat" where
  "array_size_buffer (Strings es) = 3 + sum_list (map element_budget es)"
| "array_size_buffer (Nested vs) = 3 + sum_list (map (\<lambda>v. 2 * (array_size_buffer v - 1) + 2) vs)"

text \<open>
  A write through a pointer into the buffer of a \<open>std::string\<close>: the terminating zero may be
  overwritten by a zero, anything else behind the end is undefined.
\<close>

definition poke :: "string \<Rightarrow> nat \<Rightarrow> char \<Rightarrow> text_exn + string" where
  "poke buf i c =
     (if i < length buf then Inr (buf[i := c])
      else if i = length buf \<and> c = CHR 0x00 then Inr buf
      else Inl outside_buffer)"

fun poke_all :: "string \<Rightarrow> nat \<Rightarrow> string \<Rightarrow> text_exn + (string \<times> nat)" where
  "poke_all buf here [] = Inr (buf, here)"
| "poke_all buf here (c # cs) = sum_bind (poke buf here c) (\<lambda>buf. poke_all buf (here + 1) cs)"

definition string_into_buf :: "string \<Rightarrow> nat \<Rightarrow> string \<Rightarrow> text_exn + (string \<times> nat)" where
  "string_into_buf buf begin_pos s =
     (if length buf - begin_pos \<le> length s
      then Inl (conversion_overrun ''Could not convert string to string: too long for buffer.'')
      else poke_all buf begin_pos (s @ [CHR 0x00]))"

text \<open>The loop over the characters of an element, which lie in the tail of the same buffer.\<close>

fun copy_escaped :: "string \<Rightarrow> nat \<Rightarrow> nat \<Rightarrow> nat \<Rightarrow> text_exn + (string \<times> nat)" where
  "copy_escaped buf here src 0 = Inr (buf, here)"
| "copy_escaped buf here src (Suc n) =
     sum_bind (peek buf src) (\<lambda>c.
     sum_bind (poke_all buf here (if c = bsl \<or> c = dq then [bsl, c] else [c])) (\<lambda>(buf, here).
     copy_escaped buf here (src + 1) n))"

fun write_strings :: "string \<Rightarrow> nat \<Rightarrow> string option list \<Rightarrow> text_exn + (string \<times> nat)" where
  "write_strings buf here [] = Inr (buf, here)"
| "write_strings buf here (None # es) =
     sum_bind (poke_all buf here ''NULL,'') (\<lambda>(buf, here). write_strings buf here es)"
| "write_strings buf here (Some s # es) =
     sum_bind (poke_all buf here [dq]) (\<lambda>(buf, here).
     sum_bind (string_into_buf buf (length buf - (length s + 1)) s) (\<lambda>(buf, _).
     sum_bind (copy_escaped buf here (length buf - (length s + 1)) (length s)) (\<lambda>(buf, here).
     sum_bind (poke_all buf here [dq, CHR '','']) (\<lambda>(buf, here). write_strings buf here es))))"

definition close_array :: "bool \<Rightarrow> string \<Rightarrow> nat \<Rightarrow> text_exn + (string \<times> nat)" where
  "close_array nonempty buf here = poke_all buf (if nonempty then here - 1 else here) [CHR ''}'', CHR 0x00]"

definition open_array :: "nat \<Rightarrow> string \<Rightarrow> nat \<Rightarrow> text_exn + (string \<times> nat)" where
  "open_array budget buf begin_pos =
     (if length buf - begin_pos < budget
      then Inl (conversion_overrun ''Not enough buffer space to convert array to string.'')
      else poke_all buf begin_pos ''{'')"

fun array_into_buf :: "sql_array \<Rightarrow> string \<Rightarrow> nat \<Rightarrow> text_exn + (string \<times> nat)"
  and write_arrays :: "sql_array list \<Rightarrow> string \<Rightarrow> nat \<Rightarrow> text_exn + (string \<times> nat)" where
  "array_into_buf (Strings es) buf begin_pos =
     sum_bind (open_array (array_size_buffer (Strings es)) buf begin_pos) (\<lambda>(buf, here).
     sum_bind (write_strings buf here es) (\<lambda>(buf, here). close_array (es \<noteq> []) buf here))"
| "array_into_buf (Nested vs) buf begin_pos =
     sum_bind (open_array (array_size_buffer (Nested vs)) buf begin_pos) (\<lambda>(buf, here).
     sum_bind (write_arrays vs buf here) (\<lambda>(buf, here). close_array (vs \<noteq> []) buf here))"
| "write_arrays [] buf here = Inr (buf, here)"
| "write_arrays (v # vs) buf here =
     sum_bind (array_into_buf v buf here) (\<lambda>(buf, here).
     sum_bind (poke_all buf (here - 1) '','') (\<lambda>(buf, here). write_arrays vs buf here))"

text \<open>\<open>to_string\<close>: a buffer of the size asked for, cut to what was written before the zero.\<close>

definition array_to_string :: "sql_array \<Rightarrow> text_exn + string" where
  "array_to_string v =
     sum_bind (array_into_buf v (replicate (array_size_buffer v) CHR 0x00) 0) (\<lambda>(buf, here). Inr (take (here - 1) buf))"

section \<open>What is written\<close>

definition escape_char :: "char \<Rightarrow> string" where
  "escape_char c = (if c = bsl \<or> c = dq then [bsl, c] else [c])"

definition escape_element :: "string \<Rightarrow> string" where
  "escape_element s = concat (map escape_char s)"

fun element_text :: "string option \<Rightarrow> string" where
  "element_text None = ''NULL''"
| "element_text (Some s) = dq # escape_element s @ [dq]"

definition with_commas :: "string list \<Rightarrow> string" where
  "with_commas us = concat (map (\<lambda>w. w @ '','') us)"

fun array_text :: "sql_array \<Rightarrow> string" where
  "array_text (Strings es) = ''{'' @ butlast (with_commas (map element_text es)) @ ''}''"
| "array_text (Nested vs) = ''{'' @ butlast (with_commas (map array_text vs)) @ ''}''"

text \<open>A result that has written a text behind a position and left what was before it.\<close>

definition wrote :: "string \<Rightarrow> nat \<Rightarrow> string \<Rightarrow> text_exn + (string \<times> nat) \<Rightarrow> bool" where
  "wrote buf here t r \<longleftrightarrow> (\<exists>buf'. r = Inr (buf', here + length t) \<and> length buf' = length buf \<and>
     take (here + length t) buf' = take here buf @ t)"

lemma wroteE:
  assumes "wrote buf here t r"
  obtains buf' where "r = Inr (buf', here + length t)" "length buf' = length buf" "take (here + length t) buf' = take here buf @ t"
  using assms by (auto simp: wrote_def)

lemma wrote_bind:
  assumes "wrote buf here t m"
    and "\<And>buf'. length buf' = length buf \<Longrightarrow> wrote buf' (here + length t) u (f (buf', here + length t))"
  shows "wrote buf here (t @ u) (sum_bind m f)"
proof -
  from assms(1) obtain b where b: "m = Inr (b, here + length t)" "length b = length buf" "take (here + length t) b = take here buf @ t"
    by (rule wroteE)
  from assms(2) [OF b(2)] obtain b' where "f (b, here + length t) = Inr (b', here + length t + length u)"
    "length b' = length b" "take (here + length t + length u) b' = take (here + length t) b @ u" by (rule wroteE)
  with b show ?thesis by (simp add: wrote_def add.assoc)
qed

lemma poke_all_eq:
  "here + length cs \<le> length buf \<Longrightarrow> poke_all buf here cs = Inr (take here buf @ cs @ drop (here + length cs) buf, here + length cs)"
proof (induction cs arbitrary: buf here)
  case (Cons c cs)
  then have h: "here < length buf" by simp
  then have "buf[here := c] = take here buf @ c # drop (Suc here) buf" by (rule upd_conv_take_nth_drop)
  with Cons h show ?case by (simp add: poke_def ac_simps)
qed simp

lemma wrote_poke_all: "here + length cs \<le> length buf \<Longrightarrow> wrote buf here cs (poke_all buf here cs)"
  by (simp add: poke_all_eq wrote_def)

lemma length_escape_element: "length s \<le> length (escape_element s)" "length (escape_element s) \<le> 2 * length s"
  by (induction s) (auto simp: escape_element_def escape_char_def)

text \<open>
  The characters of an element are read ahead of where they are written, as long as the text fits.
\<close>

lemma wrote_copy_escaped:
  assumes "take (length s) (drop src buf) = s" "here + length (escape_element s) \<le> src + length s" "src + length s \<le> length buf"
  shows "wrote buf here (escape_element s) (copy_escaped buf here src (length s))"
  using assms
proof (induction s arbitrary: buf here src)
  case Nil
  then show ?case by (simp add: wrote_def escape_element_def)
next
  case (Cons c s)
  have src: "src < length buf" using Cons.prems(3) by simp
  then have c: "buf ! src = c" using Cons.prems(1) by (simp add: Cons_nth_drop_Suc [symmetric])
  have e: "escape_element (c # s) = escape_char c @ escape_element s" by (simp add: escape_element_def)
  have len: "here + length (escape_char c) \<le> src + 1" using Cons.prems(2) length_escape_element(1) [of s] unfolding e by simp
  have "escape_char c \<noteq> []" by (simp add: escape_char_def)
  then have here: "here < length buf" using len src by (cases "escape_char c") auto
  define b where "b = take here buf @ escape_char c @ drop (here + length (escape_char c)) buf"
  have p: "poke_all buf here (escape_char c) = Inr (b, here + length (escape_char c))"
    using len src unfolding b_def by (intro poke_all_eq) simp
  have b: "length b = length buf" "take (here + length (escape_char c)) b = take here buf @ escape_char c"
    "drop (src + 1) b = drop (src + 1) buf"
    using len src here by (simp_all add: b_def min_def)
  moreover have "take (length s) (drop (src + 1) buf) = s" using Cons.prems(1) src by (simp add: Cons_nth_drop_Suc [symmetric])
  ultimately have "wrote b (here + length (escape_char c)) (escape_element s)
      (copy_escaped b (here + length (escape_char c)) (src + 1) (length s))"
    using Cons.prems(2,3) len src unfolding e by (intro Cons.IH) auto
  then obtain b' where "copy_escaped b (here + length (escape_char c)) (src + 1) (length s) =
      Inr (b', here + length (escape_char c) + length (escape_element s))" "length b' = length buf"
    "take (here + length (escape_char c) + length (escape_element s)) b' = take here buf @ escape_char c @ escape_element s"
    using b by (elim wroteE) simp
  moreover have "poke_all buf here (if c = bsl \<or> c = dq then [bsl, c] else [c]) = Inr (b, here + length (escape_char c))"
    using p by (simp add: escape_char_def)
  ultimately show ?case
    using c src unfolding e by (simp add: wrote_def peek_def add.assoc)
qed

lemma sum_bind_assoc: "sum_bind (sum_bind m f) g = sum_bind m (\<lambda>x. sum_bind (f x) g)"
  by (cases m) simp_all

lemma with_commas_Cons: "with_commas (w # us) = w @ '','' @ with_commas us"
  by (simp add: with_commas_def)

lemma wrote_strings:
  "here + length (with_commas (map element_text es)) \<le> length buf \<Longrightarrow>
    wrote buf here (with_commas (map element_text es)) (write_strings buf here es)"
proof (induction es arbitrary: buf here)
  case Nil
  then show ?case by (simp add: wrote_def with_commas_def)
next
  case (Cons e es)
  show ?case
  proof (cases e)
    case None
    have "wrote buf here (''NULL,'' @ with_commas (map element_text es)) (write_strings buf here (None # es))"
      unfolding write_strings.simps
      by (rule wrote_bind, rule wrote_poke_all, use Cons.prems None in \<open>simp add: with_commas_Cons\<close>,
          simp only: case_prod_conv, rule Cons.IH, use Cons.prems None in \<open>simp add: with_commas_Cons\<close>)
    then show ?thesis by (simp add: None with_commas_Cons)
  next
    case (Some s)
    let ?n = "length (escape_element s)" and ?src = "length buf - (length s + 1)"
    have room: "here + 1 + ?n + 2 + length (with_commas (map element_text es)) \<le> length buf"
      using Cons.prems by (simp add: Some with_commas_Cons)
    note len = length_escape_element(1) [of s]
    have tail: "wrote buf1 (here + 1) (escape_element s)
        (sum_bind (string_into_buf buf1 (length buf1 - (length s + 1)) s) (\<lambda>(buf, _).
          copy_escaped buf (here + 1) (length buf - (length s + 1)) (length s)))" if "length buf1 = length buf" for buf1
    proof -
      define b where "b = take ?src buf1 @ s @ [CHR 0x00]"
      have p: "string_into_buf buf1 ?src s = Inr (b, ?src + length (s @ [CHR 0x00]))"
        using room len that by (simp add: string_into_buf_def poke_all_eq b_def)
      have b: "length b = length buf" "take (length s) (drop ?src b) = s" "take (here + 1) b = take (here + 1) buf1"
        using room len that by (simp_all add: b_def)
      have "wrote b (here + 1) (escape_element s) (copy_escaped b (here + 1) ?src (length s))"
        using room len b by (intro wrote_copy_escaped) auto
      with p b that show ?thesis by (simp add: wrote_def)
    qed
    have "wrote buf here ([dq] @ escape_element s @ [dq, CHR '',''] @ with_commas (map element_text es)) (write_strings buf here (Some s # es))"
    proof -
      have "wrote buf1 (here + 1) (escape_element s @ [dq, CHR '',''] @ with_commas (map element_text es))
          (sum_bind (sum_bind (string_into_buf buf1 (length buf1 - (length s + 1)) s) (\<lambda>(buf, _).
            copy_escaped buf (here + 1) (length buf - (length s + 1)) (length s))) (\<lambda>(buf, here).
          sum_bind (poke_all buf here [dq, CHR '','']) (\<lambda>(buf, here). write_strings buf here es)))"
        if "length buf1 = length buf" for buf1
      proof (rule wrote_bind [OF tail [OF that]], unfold case_prod_conv, rule wrote_bind)
        fix b2 :: string assume b2: "length b2 = length buf1"
        show "wrote b2 (here + 1 + ?n) [dq, CHR '',''] (poke_all b2 (here + 1 + ?n) [dq, CHR '',''])"
          using room that b2 by (intro wrote_poke_all) simp
        fix b3 :: string assume b3: "length b3 = length b2"
        show "wrote b3 (here + 1 + ?n + length [dq, CHR '','']) (with_commas (map element_text es))
            (case (b3, here + 1 + ?n + length [dq, CHR '','']) of (buf, here) \<Rightarrow> write_strings buf here es)"
          unfolding case_prod_conv using room that b2 b3 by (intro Cons.IH) simp
      qed
      then have "wrote buf here ([dq] @ escape_element s @ [dq, CHR '',''] @ with_commas (map element_text es))
          (sum_bind (poke_all buf here [dq]) (\<lambda>(buf, here).
           sum_bind (sum_bind (string_into_buf buf (length buf - (length s + 1)) s) (\<lambda>(buf, _).
            copy_escaped buf here (length buf - (length s + 1)) (length s))) (\<lambda>(buf, here).
          sum_bind (poke_all buf here [dq, CHR '','']) (\<lambda>(buf, here). write_strings buf here es))))"
        using room wrote_poke_all [of here "[dq]" buf] by (intro wrote_bind) (auto simp: split_def)
      then show ?thesis by (simp add: sum_bind_assoc split_def)
    qed
    then show ?thesis by (simp add: Some with_commas_Cons)
  qed
qed


text \<open>Twice the space asked for is enough for any array, so elements of an array of arrays always fit.\<close>

lemma length_element_text: "length (element_text e) \<le> element_budget e"
  using length_escape_element(2) by (cases e) simp_all

lemma length_with_commas: "length (with_commas us) = sum_list (map (\<lambda>w. length w + 1) us)"
  by (simp add: with_commas_def length_concat comp_def)

lemma length_array_text:
  "length (array_text (Strings es)) = 2 + (length (with_commas (map element_text es)) - 1)"
  "length (array_text (Nested vs)) = 2 + (length (with_commas (map array_text vs)) - 1)"
  by simp_all

lemma double_budget: "a \<le> 2 * b \<Longrightarrow> 2 + (a - 1) + 1 \<le> 2 * (3 + b :: nat)"
  by simp

lemma text_budget: "length (array_text v) + 1 \<le> 2 * array_size_buffer v"
proof (induction v)
  case (Strings es)
  have "length (element_text e) + 1 \<le> 2 * element_budget e" for e
    using length_element_text [of e] by (cases e) simp_all
  then have "sum_list (map (\<lambda>e. length (element_text e) + 1) es) \<le> sum_list (map (\<lambda>e. 2 * element_budget e) es)"
    by (intro sum_list_mono)
  also have "\<dots> = 2 * sum_list (map element_budget es)" by (simp only: sum_list_const_mult)
  finally have "2 + (sum_list (map (\<lambda>e. length (element_text e) + 1) es) - 1) + 1 \<le> 2 * (3 + sum_list (map element_budget es))"
    by (rule double_budget)
  then show ?case by (simp only: length_array_text length_with_commas array_size_buffer.simps map_map comp_def)
next
  case (Nested vs)
  then have "sum_list (map (\<lambda>v. length (array_text v) + 1) vs) \<le> sum_list (map (\<lambda>v. 2 * (array_size_buffer v - 1) + 2) vs)"
    by (intro sum_list_mono) fastforce
  then show ?case by (simp only: length_array_text length_with_commas) (simp add: comp_def)
qed

lemma size_buffer_pos: "3 \<le> array_size_buffer v"
  by (cases v) simp_all

lemma poke_zero: "i \<le> length b \<Longrightarrow> \<exists>b'. poke b i CHR 0x00 = Inr b' \<and> length b' = length b \<and> take i b' = take i b"
  by (cases "i < length b") (auto simp: poke_def)

lemma close_array_ok:
  assumes "take (here + length t) buf = take here buf @ t" "here + length t \<le> length buf" "t = CHR ''{'' # u" "nonempty \<longleftrightarrow> u \<noteq> []"
    and "here + length (CHR ''{'' # butlast u @ ''}'') \<le> length buf"
  shows "\<exists>buf'. close_array nonempty buf (here + length t) = Inr (buf', here + length (CHR ''{'' # butlast u @ ''}'') + 1) \<and>
    length buf' = length buf \<and>
    take (here + length (CHR ''{'' # butlast u @ ''}'')) buf' = take here buf @ CHR ''{'' # butlast u @ ''}''"
proof -
  let ?p = "here + length (CHR ''{'' # butlast u)"
  have p: "(if nonempty then here + length t - 1 else here + length t) = ?p" "?p < length buf"
    using assms(3-5) by (auto simp: length_greater_0_conv [symmetric] simp del: length_greater_0_conv)
  define b where "b = take ?p buf @ ''}'' @ drop (?p + 1) buf"
  have "poke_all buf ?p ''}'' = Inr (b, ?p + 1)" using p poke_all_eq [of ?p "''}''" buf] by (simp add: b_def)
  then have w: "poke buf ?p CHR ''}'' = Inr b" by (cases "poke buf ?p CHR ''}''") auto
  have tp: "take ?p buf = take here buf @ CHR ''{'' # butlast u"
  proof -
    have "length (take here buf) = here" using assms(2) by simp
    moreover have "?p \<le> here + length t" using assms(3) by simp
    then have "take ?p buf = take ?p (take (here + length t) buf)" by (simp add: min_absorb1)
    ultimately have "take ?p buf = take here buf @ take (1 + length (butlast u)) (CHR ''{'' # u)"
      using assms(1) unfolding assms(3) by (simp only: take_append) simp
    then show ?thesis by (simp add: butlast_conv_take)
  qed
  have b: "length b = length buf" "take (?p + 1) b = take here buf @ CHR ''{'' # butlast u @ ''}''"
    using p(2) tp by (simp_all add: b_def)
  obtain b' where "poke b (?p + 1) CHR 0x00 = Inr b'" "length b' = length b" "take (?p + 1) b' = take (?p + 1) b"
    using p(2) b(1) poke_zero [of "?p + 1" b] by auto
  with w b show ?thesis unfolding close_array_def p(1) by simp
qed

lemma open_array_ok:
  assumes "budget \<le> length buf - begin_pos" "3 \<le> budget"
  shows "wrote buf begin_pos ''{'' (open_array budget buf begin_pos)"
proof -
  have "begin_pos + length ''{'' \<le> length buf" using assms by simp
  from wrote_poke_all [OF this] assms(1) show ?thesis by (simp add: open_array_def)
qed

lemma array_body:
  assumes "wrote buf begin_pos ''{'' m" "\<And>b. length b = length buf \<Longrightarrow> wrote b (begin_pos + 1) u (f b (begin_pos + 1))"
    and "begin_pos + 1 + length u \<le> length buf" "begin_pos + length (''{'' @ butlast u @ ''}'') \<le> length buf" "nonempty \<longleftrightarrow> u \<noteq> []"
  shows "\<exists>buf'. sum_bind m (\<lambda>(buf, here). sum_bind (f buf here) (\<lambda>(buf, here). close_array nonempty buf here))
      = Inr (buf', begin_pos + length (''{'' @ butlast u @ ''}'') + 1) \<and> length buf' = length buf \<and>
    take (begin_pos + length (''{'' @ butlast u @ ''}'')) buf' = take begin_pos buf @ ''{'' @ butlast u @ ''}''"
proof -
  obtain b1 where b1: "m = Inr (b1, begin_pos + 1)" "length b1 = length buf" "take (begin_pos + 1) b1 = take begin_pos buf @ ''{''"
    using assms(1) by (elim wroteE) simp
  obtain b2 where b2: "f b1 (begin_pos + 1) = Inr (b2, begin_pos + 1 + length u)" "length b2 = length b1"
    "take (begin_pos + 1 + length u) b2 = take (begin_pos + 1) b1 @ u"
    using assms(2) [OF b1(2)] by (elim wroteE) simp
  have t: "take begin_pos b2 = take begin_pos buf"
  proof -
    have "take begin_pos b2 = take begin_pos (take (begin_pos + 1 + length u) b2)" by (simp add: min_def)
    also have "\<dots> = take begin_pos (take begin_pos buf @ ''{'' @ u)" using b1(3) b2(3) by simp
    also have "\<dots> = take begin_pos buf" using assms(3) by (simp add: min_def)
    finally show ?thesis .
  qed
  have "\<exists>buf'. close_array nonempty b2 (begin_pos + length (CHR ''{'' # u))
      = Inr (buf', begin_pos + length (CHR ''{'' # butlast u @ ''}'') + 1) \<and> length buf' = length b2 \<and>
    take (begin_pos + length (CHR ''{'' # butlast u @ ''}'')) buf' = take begin_pos b2 @ CHR ''{'' # butlast u @ ''}''"
    by (rule close_array_ok [OF _ _ refl assms(5)]) (use assms(3,4) b1 b2 t in simp_all)
  then show ?thesis using b1 b2 t by (auto simp: split_def)
qed

lemma wrote_arrays:
  assumes "\<And>v buf begin_pos. v \<in> set vs \<Longrightarrow> array_size_buffer v \<le> length buf - begin_pos \<Longrightarrow>
      begin_pos + length (array_text v) \<le> length buf \<Longrightarrow>
      \<exists>buf'. array_into_buf v buf begin_pos = Inr (buf', begin_pos + length (array_text v) + 1) \<and> length buf' = length buf \<and>
        take (begin_pos + length (array_text v)) buf' = take begin_pos buf @ array_text v"
    and "here + sum_list (map (\<lambda>v. 2 * array_size_buffer v) vs) \<le> length buf"
  shows "wrote buf here (with_commas (map array_text vs)) (write_arrays vs buf here)"
  using assms
proof (induction vs arbitrary: buf here)
  case Nil
  then show ?case by (simp add: wrote_def with_commas_def)
next
  case (Cons v vs)
  have b: "length (array_text v) + 1 \<le> 2 * array_size_buffer v" by (rule text_budget)
  have room: "here + 2 * array_size_buffer v + sum_list (map (\<lambda>v. 2 * array_size_buffer v) vs) \<le> length buf"
    using Cons.prems(2) by simp
  have "array_size_buffer v \<le> length buf - here" "here + length (array_text v) \<le> length buf" using b room by linarith+
  from Cons.prems(1) [OF list.set_intros(1) this] obtain b1 where
    b1: "array_into_buf v buf here = Inr (b1, here + length (array_text v) + 1)"
    "length b1 = length buf" "take (here + length (array_text v)) b1 = take here buf @ array_text v" by blast
  then have w: "wrote buf here (array_text v) (Inr (b1, here + length (array_text v)))" by (simp add: wrote_def)
  have "wrote buf here (array_text v @ '','' @ with_commas (map array_text vs))
    (sum_bind (Inr (b1, here + length (array_text v))) (\<lambda>(buf, here). sum_bind (poke_all buf here '','') (\<lambda>(buf, here). write_arrays vs buf here)))"
  proof (rule wrote_bind [OF w], unfold case_prod_conv, rule wrote_bind)
    fix b2 :: string assume b2: "length b2 = length buf"
    show "wrote b2 (here + length (array_text v)) '','' (poke_all b2 (here + length (array_text v)) '','')"
      using b room b2 by (intro wrote_poke_all) simp
    fix b3 :: string assume b3: "length b3 = length b2"
    show "wrote b3 (here + length (array_text v) + length '','') (with_commas (map array_text vs))
        (case (b3, here + length (array_text v) + length '','') of (buf, here) \<Rightarrow> write_arrays vs buf here)"
      unfolding case_prod_conv using b room b2 b3 by (intro Cons.IH Cons.prems(1)) simp_all
  qed
  then show ?case using b1(1) by (simp add: with_commas_Cons)
qed

lemma array_written:
  "array_size_buffer v \<le> length buf - begin_pos \<Longrightarrow> begin_pos + length (array_text v) \<le> length buf \<Longrightarrow>
    \<exists>buf'. array_into_buf v buf begin_pos = Inr (buf', begin_pos + length (array_text v) + 1) \<and> length buf' = length buf \<and>
      take (begin_pos + length (array_text v)) buf' = take begin_pos buf @ array_text v"
proof (induction v arbitrary: buf begin_pos)
  case (Strings es)
  let ?u = "with_commas (map element_text es)"
  have "begin_pos + 1 + length ?u \<le> length buf"
    using Strings by (cases es) (simp_all add: with_commas_Cons)
  moreover have "es \<noteq> [] \<longleftrightarrow> ?u \<noteq> []" by (cases es) (simp_all add: with_commas_Cons, simp add: with_commas_def)
  moreover have "begin_pos + length (''{'' @ butlast ?u @ ''}'') \<le> length buf" using Strings(2) by simp
  ultimately show ?case
    using array_body [OF open_array_ok [OF Strings(1) size_buffer_pos], where f = "\<lambda>b h. write_strings b h es" and nonempty = "es \<noteq> []" and u = ?u]
      wrote_strings [of "begin_pos + 1" es] by simp
next
  case (Nested vs)
  let ?u = "with_commas (map array_text vs)"
  have "2 * (array_size_buffer v - 1) + 2 = 2 * array_size_buffer v" for v using size_buffer_pos [of v] by simp
  then have size: "array_size_buffer (Nested vs) = 3 + sum_list (map (\<lambda>v. 2 * array_size_buffer v) vs)" by simp
  have u: "length ?u \<le> sum_list (map (\<lambda>v. 2 * array_size_buffer v) vs)"
    unfolding length_with_commas map_map comp_def using text_budget by (intro sum_list_mono) simp
  have room: "begin_pos + 3 + sum_list (map (\<lambda>v. 2 * array_size_buffer v) vs) \<le> length buf"
    using Nested.prems(1) unfolding size by linarith
  have "wrote b (begin_pos + 1) ?u (write_arrays vs b (begin_pos + 1))" if "length b = length buf" for b
    using room that by (intro wrote_arrays Nested.IH) auto
  moreover have "begin_pos + 1 + length ?u \<le> length buf" using u room by linarith
  moreover have "vs \<noteq> [] \<longleftrightarrow> ?u \<noteq> []" by (cases vs) (simp_all add: with_commas_Cons, simp add: with_commas_def)
  moreover have "begin_pos + length (''{'' @ butlast ?u @ ''}'') \<le> length buf" using Nested.prems(2) by simp
  ultimately show ?case
    using array_body [OF open_array_ok [OF Nested.prems(1) size_buffer_pos], where f = "write_arrays vs" and nonempty = "vs \<noteq> []" and u = ?u] by simp
qed

lemma array_to_string_text:
  assumes "length (array_text v) \<le> array_size_buffer v"
  shows "array_to_string v = Inr (array_text v)"
  using array_written [of v "replicate (array_size_buffer v) CHR 0x00" 0] assms by (auto simp: array_to_string_def)

lemma nested_fits: "length (array_text (Nested vs)) \<le> array_size_buffer (Nested vs)"
proof -
  have "sum_list (map (\<lambda>v. length (array_text v) + 1) vs) \<le> sum_list (map (\<lambda>v. 2 * (array_size_buffer v - 1) + 2) vs)"
  proof (rule sum_list_mono)
    fix v show "length (array_text v) + 1 \<le> 2 * (array_size_buffer v - 1) + 2"
      using text_budget [of v] size_buffer_pos [of v] by linarith
  qed
  then show ?thesis unfolding length_array_text length_with_commas map_map comp_def by simp
qed

text \<open>
  Every empty string takes three bytes, its quotes and a separator, of which only two are provided.
\<close>

lemma empty_written:
  "buf \<noteq> [] \<Longrightarrow> length buf = n \<Longrightarrow> string_into_buf buf (n - Suc 0) [] = Inr (buf[n - Suc 0 := CHR 0x00], n)"
  by (cases n) (auto simp: string_into_buf_def poke_def)

lemma empties_overrun:
  "length buf < here + 3 * n \<Longrightarrow> here \<le> length buf \<Longrightarrow> buf \<noteq> [] \<Longrightarrow>
    write_strings buf here (replicate n (Some [])) = Inl outside_buffer"
proof (induction n arbitrary: buf here)
  case (Suc n)
  let ?b = "buf[here := dq, length buf - 1 := CHR 0x00]"
  consider "here = length buf" | "here + 1 = length buf" | "here + 2 = length buf" | "here + 3 \<le> length buf"
    using Suc.prems(2) by linarith
  then show ?case
  proof cases
    case 4
    have "write_strings (?b[here + 1 := dq, here + 2 := CHR '','']) (here + 3) (replicate n (Some [])) = Inl outside_buffer"
      using Suc.prems 4 by (intro Suc.IH) auto
    with 4 Suc.prems(3) show ?thesis by (simp add: empty_written poke_def numeral_3_eq_3)
  qed (use Suc.prems(3) in \<open>simp_all add: empty_written poke_def\<close>)
qed simp


section \<open>What is read\<close>

lemma escape_element_simps:
  "escape_element [] = []"
  "escape_element (c # s) = escape_char c @ escape_element s"
  "escape_element (s @ t) = escape_element s @ escape_element t"
  by (simp_all add: escape_element_def)

lemma escape_high: "list_all (\<lambda>c. 0x80 \<le> byte c) g \<Longrightarrow> escape_element g = g"
  by (induction g) (auto simp: escape_element_simps escape_char_def)

context ascii_safe
begin

lemma ascii_at:
  assumes "byte c < 0x80" "n = length p + 1 + length r"
  shows "glyph_scanner enc (p @ c # r @ q) n (length p) = Inr (length p + 1)"
  using scan_at [OF ascii [OF assms(1)], of n p r q] assms(2) by simp

lemmas ascii_at_end = ascii_at [where q = "[]", simplified]

text \<open>The characters of an element as they are read: one step of a loop for each of them.\<close>

lemma glyph_text_cases:
  assumes "glyph enc g"
  obtains (escaped) c where "g = [c]" "c = bsl \<or> c = dq" "escape_element g = [bsl, c]"
    | (single) c where "g = [c]" "c \<noteq> bsl" "c \<noteq> dq" "escape_element g = g"
    | (long) "length g \<noteq> 1" "escape_element g = g"
proof (cases "length g = 1")
  case True
  then obtain c where "g = [c]" by (cases g) auto
  then show ?thesis using escaped single by (cases "c = bsl \<or> c = dq") (auto simp: escape_element_def escape_char_def)
next
  case False
  then show ?thesis using long multibyte [OF assms] escape_high by auto
qed

lemma scan_double_element:
  assumes "byte c < 0x80" "c \<noteq> dq" "glyphs enc s"
  shows "scan_double_quoted_loop enc (p @ escape_element s @ dq # c # r) False (length p) = Inr (length p + length (escape_element s) + 1)"
  using assms(3)
proof (induction s arbitrary: p rule: glyphs.induct)
  case glyphs_Nil
  let ?t = "p @ dq # c # r"
  have "glyph_scanner enc ?t (length ?t) (length p) = Inr (length p + 1)"
    using ascii_at_end [of dq "length ?t" p "c # r"] by simp
  moreover have "glyph_scanner enc ?t (length ?t) (length p + 1) = Inr (length p + 2)"
    using ascii_at_end [OF assms(1), of "length ?t" "p @ [dq]" r] by simp
  ultimately show ?case
    using assms(2) by (subst scan_double_quoted_loop.simps, subst scan_double_quoted_loop.simps)
      (simp add: escape_element_simps nth_append)
next
  case (glyphs_Cons g s)
  let ?r = "escape_element s @ dq # c # r" and ?t = "p @ escape_element g @ escape_element s @ dq # c # r"
  have at: "glyph_scanner enc (u @ g @ ?r) (length (u @ g @ ?r)) (length u) = Inr (length u + length g)" for u
    using scan_at [OF glyphs_Cons(1), of "length (u @ g @ ?r)" u ?r "[]"] by simp
  have IH: "scan_double_quoted_loop enc ?t False (length p + length (escape_element g)) =
      Inr (length p + length (escape_element g) + length (escape_element s) + 1)"
    using glyphs_Cons.IH [of "p @ escape_element g"] by simp
  from glyphs_Cons(1) show ?case
  proof (cases rule: glyph_text_cases)
    case (escaped d)
    have "glyph_scanner enc ?t (length ?t) (length p) = Inr (length p + 1)"
      using ascii_at_end [of bsl "length ?t" p "d # ?r"] escaped by simp
    moreover have "glyph_scanner enc ?t (length ?t) (length p + 1) = Inr (length p + 2)" using at [of "p @ [bsl]"] escaped by simp
    ultimately show ?thesis using IH escaped
      by (subst scan_double_quoted_loop.simps) (simp add: escape_element_simps nth_append)
  next
    case (single d)
    with at [of p] IH show ?thesis
      by (subst scan_double_quoted_loop.simps) (simp add: escape_element_simps nth_append)
  next
    case long
    with at [of p] IH glyph_nonempty [OF glyphs_Cons(1)] show ?thesis
      by (subst scan_double_quoted_loop.simps) (simp add: escape_element_simps nth_append)
  qed
qed

lemma unquote_element:
  assumes "glyphs enc s"
  shows "unquote_loop enc dq (p @ escape_element s @ dq # r) (length p + length (escape_element s) + 1) (length p) = Inr s"
  using assms
proof (induction s arbitrary: p rule: glyphs.induct)
  case glyphs_Nil
  have "glyph_scanner enc (p @ dq # r) (length p + 1) (length p) = Inr (length p + 1)"
    using ascii_at [of dq "length p + 1" p "[]" r] by simp
  then show ?case by (subst unquote_loop.simps) (simp add: escape_element_simps)
next
  case (glyphs_Cons g s)
  let ?n = "length p + length (escape_element g) + length (escape_element s) + 1"
    and ?t = "p @ escape_element g @ escape_element s @ dq # r"
  have at: "glyph_scanner enc (u @ g @ escape_element s @ dq # r) (length u + length g + length (escape_element s) + 1) (length u)
      = Inr (length u + length g)" for u
    using scan_at [OF glyphs_Cons(1), of "length u + length g + length (escape_element s) + 1" u "escape_element s @ [dq]" r] by simp
  have IH: "unquote_loop enc dq ?t ?n (length p + length (escape_element g)) = Inr s"
    using glyphs_Cons.IH [of "p @ escape_element g"] by (simp add: add.assoc)
  from glyphs_Cons(1) show ?case
  proof (cases rule: glyph_text_cases)
    case (escaped d)
    have "glyph_scanner enc ?t ?n (length p) = Inr (length p + 1)"
      using ascii_at [of bsl ?n p "d # escape_element s @ [dq]" r] escaped by simp
    moreover have "glyph_scanner enc ?t ?n (length p + 1) = Inr (length p + 2)" using at [of "p @ [bsl]"] escaped by simp
    ultimately show ?thesis using IH escaped
      by (subst unquote_loop.simps) (simp add: escape_element_simps nth_append peek_def slice_def add.assoc)
  next
    case (single d)
    with at [of p] IH show ?thesis
      by (subst unquote_loop.simps) (simp add: escape_element_simps nth_append peek_def slice_def add.assoc)
  next
    case long
    with at [of p] IH glyph_nonempty [OF glyphs_Cons(1)] show ?thesis
      by (subst unquote_loop.simps) (simp add: escape_element_simps nth_append peek_def slice_def add.assoc)
  qed
qed

lemma scan_unquoted_word:
  assumes "list_all (\<lambda>d. byte d < 0x80 \<and> d \<noteq> bsl \<and> d \<notin> set stops) w" "byte c < 0x80" "c \<noteq> bsl" "c \<in> set stops"
  shows "scan_unquoted_loop enc stops (p @ w @ c # r) state (length p) = Inr (length p + length w)"
  using assms(1)
proof (induction w arbitrary: p state)
  case Nil
  have "glyph_scanner enc (p @ c # r) (length (p @ c # r)) (length p) = Inr (length p + 1)"
    using ascii_at_end [OF assms(2), of _ p r] by simp
  with assms(3,4) show ?case
    by (subst scan_unquoted_loop.simps) (simp add: nth_append Let_def split: option.split)
next
  case (Cons d w)
  have "glyph_scanner enc (p @ d # w @ c # r) (length (p @ d # w @ c # r)) (length p) = Inr (length p + 1)"
    using ascii_at_end [of d _ p "w @ c # r"] Cons.prems by simp
  moreover have "scan_unquoted_loop enc stops (p @ d # w @ c # r) st (length p + 1) = Inr (length p + 1 + length w)" for st
    using Cons.IH [of "p @ [d]" st] Cons.prems by simp
  ultimately show ?case using Cons.prems
    by (subst scan_unquoted_loop.simps) (simp add: nth_append Let_def)
qed

lemma parse_unquoted_word:
  assumes "list_all (\<lambda>d. byte d < 0x80 \<and> d \<noteq> bsl) w"
  shows "parse_unquoted_loop enc (p @ w @ r) (length p + length w) prev (length p) = Inr w"
  using assms
proof (induction w arbitrary: p prev)
  case Nil
  then show ?case by (subst parse_unquoted_loop.simps) (simp add: glyph_scanner_end)
next
  case (Cons d w)
  have "glyph_scanner enc (p @ d # w @ r) (length p + length (d # w)) (length p) = Inr (length p + 1)"
    using ascii_at [of d "length p + length (d # w)" p w r] Cons.prems by simp
  moreover have "parse_unquoted_loop enc (p @ d # w @ r) (length p + length (d # w)) st (length p + 1) = Inr w" for st
    using Cons.IH [of "p @ [d]" st] Cons.prems by simp
  ultimately show ?case using Cons.prems
    by (subst parse_unquoted_loop.simps) (simp add: nth_append Let_def peek_def slice_def)
qed

end

fun element_event :: "string option \<Rightarrow> juncture \<times> string" where
  "element_event None = (null_value, [])"
| "element_event (Some s) = (string_value, s)"

fun array_events :: "sql_array \<Rightarrow> (juncture \<times> string) list" where
  "array_events (Strings es) = (row_start, []) # map element_event es @ [(row_end, [])]"
| "array_events (Nested vs) = (row_start, []) # concat (map array_events vs) @ [(row_end, [])]"

fun array_glyphs :: "encoding_group \<Rightarrow> sql_array \<Rightarrow> bool" where
  "array_glyphs enc (Strings es) = list_all (\<lambda>e. case e of None \<Rightarrow> True | Some s \<Rightarrow> glyphs enc s) es"
| "array_glyphs enc (Nested vs) = list_all (array_glyphs enc) vs"

text \<open>Reading at a position.\<close>

abbreviation read_at :: "encoding_group \<Rightarrow> string \<Rightarrow> nat \<Rightarrow> text_exn + (juncture \<times> string) list" where
  "read_at enc inp pos \<equiv> read_array \<lparr>ap_input = inp, ap_scan = enc, ap_pos = pos\<rparr>"

lemma read_at_step:
  assumes "pos < length inp" "find_juncture enc inp pos = Inr (found, value, stop)" "skip_separator enc inp stop = Inr stop'"
  shows "read_at enc inp pos = sum_bind (read_at enc inp stop') (\<lambda>items. Inr ((found, value) # items))"
proof -
  have "get_next \<lparr>ap_input = inp, ap_scan = enc, ap_pos = pos\<rparr> = Inr ((found, value), \<lparr>ap_input = inp, ap_scan = enc, ap_pos = stop'\<rparr>)"
    using assms by (simp add: get_next_def)
  moreover have "found \<noteq> parsing_done" using find_juncture_bounds [OF assms(2,1)] by simp
  ultimately show ?thesis by (subst read_array.simps) simp
qed

text \<open>A piece of text that is read as a sequence of items, whatever stands around it.\<close>

definition reads_as :: "encoding_group \<Rightarrow> string \<Rightarrow> (juncture \<times> string) list \<Rightarrow> bool" where
  "reads_as enc w evs \<longleftrightarrow> w \<noteq> [] \<and> byte (hd w) < 0x80 \<and> hd w \<notin> set '',;'' \<and>
     (\<forall>p c r. c \<in> set '',}'' \<longrightarrow> read_at enc (p @ w @ c # r) (length p) =
        sum_bind (read_at enc (p @ w @ c # r) (length p + length w + (if c = CHR '','' then 1 else 0))) (\<lambda>items. Inr (evs @ items)))"

text \<open>The position behind a separator, if there is one.\<close>

definition behind :: "string \<Rightarrow> nat \<Rightarrow> nat" where
  "behind r pos = (if r \<noteq> [] \<and> hd r = CHR '','' then pos + 1 else pos)"

context ascii_safe
begin

lemma ascii_upto:
  assumes "byte c < 0x80" "length p < n" "n \<le> length (p @ c # w)"
  shows "glyph_scanner enc (p @ c # w) n (length p) = Inr (length p + 1)"
  using ascii_at [OF assms(1), of n p "take (n - length p - 1) w" "drop (n - length p - 1) w"] assms(2,3) by simp

lemma skip_at:
  assumes "byte c < 0x80"
  shows "skip_separator enc (p @ c # r) (length p) = Inr (if c \<in> set '',;'' then length p + 1 else length p)"
  using ascii_at_end [OF assms, of _ p r] by (simp add: skip_separator_def nth_append)

lemma reads_element:
  assumes "case e of None \<Rightarrow> True | Some s \<Rightarrow> glyphs enc s"
  shows "reads_as enc (element_text e) [element_event e]"
proof -
  have "read_at enc (p @ element_text e @ c # r) (length p) =
      sum_bind (read_at enc (p @ element_text e @ c # r) (length p + length (element_text e) + (if c = CHR '','' then 1 else 0)))
        (\<lambda>items. Inr ([element_event e] @ items))" if c: "c \<in> set '',}''" for p c r
  proof -
    let ?t = "p @ element_text e @ c # r"
    have ca: "byte c < 0x80" "c \<noteq> dq" "c \<noteq> bsl" "c \<in> set '',;}''" using c by auto
    have skip: "skip_separator enc ?t (length p + length (element_text e)) = Inr (length p + length (element_text e) + (if c = CHR '','' then 1 else 0))"
      using skip_at [OF ca(1), of "p @ element_text e" r] c by auto
    have "find_juncture enc ?t (length p) = Inr (fst (element_event e), snd (element_event e), length p + length (element_text e))"
    proof (cases e)
      case None
      have "glyph_scanner enc ?t (length ?t) (length p) = Inr (length p + 1)"
        using ascii_at_end [of "CHR ''N''" _ p "''ULL'' @ c # r"] None by simp
      moreover have "scan_unquoted_string enc '',;}'' ?t (length p) = Inr (length p + 4)"
        using scan_unquoted_word [of "'',;}''" "''NULL''" c p r None] ca None by (simp add: scan_unquoted_string_def)
      moreover have "parse_unquoted_string enc ?t (length p + 4) (length p) = Inr ''NULL''"
        using parse_unquoted_word [of "''NULL''" p "c # r" False] None by (simp add: parse_unquoted_string_def eval_nat_numeral)
      ultimately show ?thesis using None by (simp add: find_juncture_def unquoted_value_def peek_def nth_append)
    next
      case (Some s)
      then have s: "glyphs enc s" using assms by simp
      have d: "glyph_scanner enc ?t n (length p) = Inr (length p + 1)" if "length p < n" "n \<le> length ?t" for n
        using ascii_upto [of dq p n "escape_element s @ dq # c # r"] that Some by simp
      have "scan_double_quoted_string enc ?t (length p) = Inr (length p + length (escape_element s) + 2)"
        using scan_double_element [OF ca(1,2) s, of "p @ [dq]" r] d [of "length ?t"] Some by (simp add: scan_double_quoted_string_def)
      moreover have "parse_double_quoted_string enc ?t (length p + length (escape_element s) + 2) (length p) = Inr s"
        using unquote_element [OF s, of "p @ [dq]" "c # r"] d [of "length p + length (escape_element s) + 2"] Some
        by (simp add: parse_double_quoted_string_def)
      ultimately show ?thesis using Some d [of "length ?t"] by (simp add: find_juncture_def peek_def nth_append)
    qed
    from read_at_step [OF _ this skip] show ?thesis by (cases e) simp_all
  qed
  then show ?thesis by (cases e) (simp_all add: reads_as_def)
qed

text \<open>The items of an array up to its closing brace.\<close>

lemma reads_items:
  assumes "list_all2 (reads_as enc) us evss" "us \<noteq> []"
  shows "read_at enc (p @ butlast (with_commas us) @ CHR ''}'' # r) (length p) =
    sum_bind (read_at enc (p @ butlast (with_commas us) @ CHR ''}'' # r) (length p + length (butlast (with_commas us))))
      (\<lambda>items. Inr (concat evss @ items))"
  using assms
proof (induction us evss arbitrary: p rule: list_all2_induct)
  case (Cons w us ev evss)
  show ?case
  proof (cases "us = []")
    case True
    then have "evss = []" using Cons.hyps(2) by simp
    with Cons.hyps(1) True show ?thesis by (simp add: with_commas_Cons butlast_append reads_as_def with_commas_def)
  next
    case False
    then have ne: "with_commas us \<noteq> []" by (cases us) (simp_all add: with_commas_Cons)
    let ?rest = "butlast (with_commas us) @ CHR ''}'' # r"
    have b: "butlast (with_commas (w # us)) = w @ '','' @ butlast (with_commas us)" using ne by (simp add: with_commas_Cons butlast_append)
    have "read_at enc (p @ w @ CHR '','' # ?rest) (length p) =
        sum_bind (read_at enc (p @ w @ CHR '','' # ?rest) (length p + length w + 1)) (\<lambda>items. Inr (ev @ items))"
      using Cons.hyps(1) by (simp add: reads_as_def)
    moreover have "read_at enc (p @ w @ CHR '','' # ?rest) (length p + length w + 1) =
        sum_bind (read_at enc (p @ w @ CHR '','' # ?rest) (length p + length w + 1 + length (butlast (with_commas us)))) (\<lambda>items. Inr (concat evss @ items))"
      using Cons.IH [OF False, of "p @ w @ '',''"] by (simp add: add.assoc)
    ultimately show ?thesis unfolding b by (simp add: sum_bind_assoc add.assoc)
  qed
qed simp

lemma skip_behind:
  assumes "r = [] \<or> hd r \<in> set '',}''"
  shows "skip_separator enc (p @ r) (length p) = Inr (behind r (length p))"
proof (cases r)
  case Nil
  then show ?thesis by (simp add: skip_separator_def behind_def)
next
  case (Cons c r')
  with assms have "byte c < 0x80" "c \<noteq> CHR '';''" by auto
  with Cons skip_at [OF this(1), of p r'] show ?thesis by (simp add: behind_def)
qed

lemma read_brace:
  assumes "c = CHR ''{'' \<and> e = (row_start, []) \<or> c = CHR ''}'' \<and> e = (row_end, [])"
    and "skip_separator enc (p @ c # r) (length p + 1) = Inr stop"
  shows "read_at enc (p @ c # r) (length p) = sum_bind (read_at enc (p @ c # r) stop) (\<lambda>items. Inr (e # items))"
proof -
  have "glyph_scanner enc (p @ c # r) (length (p @ c # r)) (length p) = Inr (length p + 1)"
    using ascii_at_end [of c _ p r] assms(1) by auto
  then have "find_juncture enc (p @ c # r) (length p) = Inr (fst e, snd e, length p + 1)"
    using assms(1) by (auto simp: find_juncture_def peek_def nth_append)
  from read_at_step [OF _ this assms(2)] assms(1) show ?thesis by auto
qed

lemma reads_array:
  assumes "list_all2 (reads_as enc) us evss" "r = [] \<or> hd r \<in> set '',}''"
  shows "read_at enc (p @ CHR ''{'' # butlast (with_commas us) @ CHR ''}'' # r) (length p) =
    sum_bind (read_at enc (p @ CHR ''{'' # butlast (with_commas us) @ CHR ''}'' # r)
        (behind r (length p + length (butlast (with_commas us)) + 2)))
      (\<lambda>items. Inr ((row_start, []) # concat evss @ (row_end, []) # items))"
proof -
  let ?b = "butlast (with_commas us)" and ?q = "p @ ''{'' @ butlast (with_commas us)"
  let ?t = "p @ CHR ''{'' # ?b @ CHR ''}'' # r"
  have e: "skip_separator enc ?t (length ?q + 1) = Inr (behind r (length ?q + 1))"
    using skip_behind [OF assms(2), of "?q @ ''}''"] by simp
  have close: "read_at enc ?t (length ?q) = sum_bind (read_at enc ?t (behind r (length ?q + 1))) (\<lambda>items. Inr ((row_end, []) # items))"
    using read_brace [of "CHR ''}''" "(row_end, [])" ?q r] e by simp
  have first: "\<exists>d t. ?b @ CHR ''}'' # r = d # t \<and> byte d < 0x80 \<and> d \<notin> set '',;''"
  proof (cases us)
    case Nil
    then show ?thesis by (simp add: with_commas_def)
  next
    case (Cons w us')
    then have w: "w \<noteq> []" "byte (hd w) < 0x80" "hd w \<notin> set '',;''" using assms(1) by (auto simp: reads_as_def list_all2_Cons1)
    then obtain d t where "w = d # t" by (cases w) auto
    with w Cons show ?thesis by (auto simp: with_commas_Cons butlast_append)
  qed
  then obtain d t where d: "?b @ CHR ''}'' # r = d # t" "byte d < 0x80" "d \<notin> set '',;''" by blast
  have "skip_separator enc ?t (length p + 1) = Inr (length p + 1)"
    using skip_at [OF d(2), of "p @ ''{''" t] d by simp
  then have start: "read_at enc ?t (length p) = sum_bind (read_at enc ?t (length p + 1)) (\<lambda>items. Inr ((row_start, []) # items))"
    by (intro read_brace) simp_all
  have items: "read_at enc ?t (length p + 1) = sum_bind (read_at enc ?t (length ?q)) (\<lambda>items. Inr (concat evss @ items))"
  proof (cases "us = []")
    case True
    with assms(1) show ?thesis by (simp add: with_commas_def sum_bind_def split: sum.split)
  next
    case False
    from reads_items [OF assms(1) this, of "p @ ''{''" r] show ?thesis by simp
  qed
  show ?thesis unfolding start items close by (simp add: sum_bind_assoc)
qed

lemma reads_as_array:
  assumes "list_all2 (reads_as enc) us evss"
  shows "reads_as enc (''{'' @ butlast (with_commas us) @ ''}'') ((row_start, []) # concat evss @ [(row_end, [])])"
  unfolding reads_as_def
proof (intro conjI allI impI)
  fix p c r assume c: "c \<in> set '',}''"
  then have "c # r = [] \<or> hd (c # r) \<in> set '',}''" by simp
  from reads_array [OF assms this, of p] c
  show "read_at enc (p @ (''{'' @ butlast (with_commas us) @ ''}'') @ c # r) (length p) =
    sum_bind (read_at enc (p @ (''{'' @ butlast (with_commas us) @ ''}'') @ c # r)
      (length p + length (''{'' @ butlast (with_commas us) @ ''}'') + (if c = CHR '','' then 1 else 0)))
      (\<lambda>items. Inr (((row_start, []) # concat evss @ [(row_end, [])]) @ items))"
    by (auto simp: behind_def)
qed simp_all

lemma array_items:
  assumes "array_glyphs enc v"
  shows "\<exists>us evss. array_text v = ''{'' @ butlast (with_commas us) @ ''}'' \<and>
    array_events v = (row_start, []) # concat evss @ [(row_end, [])] \<and> list_all2 (reads_as enc) us evss"
  using assms
proof (induction v)
  case (Strings es)
  then have "list_all2 (reads_as enc) (map element_text es) (map (\<lambda>e. [element_event e]) es)"
    by (auto simp: list_all2_conv_all_nth list_all_length intro!: reads_element)
  moreover have "concat (map (\<lambda>e. [element_event e]) es) = map element_event es" by (induction es) simp_all
  ultimately show ?case by (intro exI [of _ "map element_text es"] exI [of _ "map (\<lambda>e. [element_event e]) es"]) simp
next
  case (Nested vs)
  have "reads_as enc (array_text v) (array_events v)" if "v \<in> set vs" for v
    using Nested.IH [OF that] Nested.prems that reads_as_array by (fastforce simp: list_all_iff)
  then have "list_all2 (reads_as enc) (map array_text vs) (map array_events vs)"
    by (auto simp: list_all2_conv_all_nth)
  then show ?case by (intro exI [of _ "map array_text vs"] exI [of _ "map array_events vs"]) simp
qed

lemma read_array_text:
  assumes "array_glyphs enc v"
  shows "read_array (new_array_parser (array_text v) enc) = Inr (array_events v)"
proof -
  obtain us evss where u: "array_text v = ''{'' @ butlast (with_commas us) @ ''}''"
    "array_events v = (row_start, []) # concat evss @ [(row_end, [])]" "list_all2 (reads_as enc) us evss"
    using array_items [OF assms] by blast
  have "read_at enc inp (length inp) = Inr []" for inp
    by (subst read_array.simps) (simp add: get_next_def)
  from this [of "array_text v"] reads_array [OF u(3), of "[]" "[]"] u(1,2) show ?thesis
    by (simp add: new_array_parser_def behind_def)
qed

end


section \<open>Round trip and overrun\<close>



text \<open>
  The space is not enough for every flat array, because the separators are not counted: \<open>to_string\<close>
  of an array of three or more empty strings writes behind the end of its buffer.
\<close>

lemma array_buffer_overrun:
  assumes "3 \<le> n"
  shows "array_to_string (Strings (replicate n (Some []))) = Inl outside_buffer"
proof -
  let ?v = "Strings (replicate n (Some []))"
  have size: "array_size_buffer ?v = 3 + 2 * n" by (simp add: sum_list_replicate)
  have "wrote (replicate (3 + 2 * n) CHR 0x00) 0 ''{'' (open_array (3 + 2 * n) (replicate (3 + 2 * n) CHR 0x00) 0)"
    by (rule open_array_ok) simp_all
  then obtain b where b: "open_array (3 + 2 * n) (replicate (3 + 2 * n) CHR 0x00) 0 = Inr (b, 1)" "length b = 3 + 2 * n"
    by (elim wroteE) simp
  have "write_strings b 1 (replicate n (Some [])) = Inl outside_buffer"
    using assms b(2) by (intro empties_overrun) auto
  with b(1) show ?thesis unfolding array_to_string_def array_into_buf.simps size by simp
qed

text \<open>
  Outside quotes a backslash does not protect a separator, although the comment on the function says
  that a stop character ends the value only if it is not escaped: the flag is set for the backslash
  itself and cleared at the next character.
\<close>

lemma backslash_does_not_escape:
  "scan_unquoted_string UTF8 '',;}'' (''{a'' @ [bsl] @ '',b}'') 1 = Inr 3"
proof -
  let ?t = "''{a'' @ [bsl] @ '',b}''"
  have at: "glyph_scanner UTF8 ?t (length ?t) 1 = Inr 2" "glyph_scanner UTF8 ?t (length ?t) 2 = Inr 3"
    "glyph_scanner UTF8 ?t (length ?t) 3 = Inr 4"
    using utf8.ascii_at_end [of "CHR ''a''" "length ?t" "''{''" "[bsl] @ '',b}''"]
      utf8.ascii_at_end [of bsl "length ?t" "''{a''" "'',b}''"]
      utf8.ascii_at_end [of "CHR '',''" "length ?t" "''{a'' @ [bsl]" "''b}''"] by (simp_all add: numeral_2_eq_2 numeral_3_eq_3)
  have "scan_unquoted_loop UTF8 '',;}'' ?t None 1 = scan_unquoted_loop UTF8 '',;}'' ?t (Some False) 2"
    using at(1) by (subst scan_unquoted_loop.simps) (simp add: Let_def)
  also have "\<dots> = scan_unquoted_loop UTF8 '',;}'' ?t (Some True) 3"
    using at(2) by (subst scan_unquoted_loop.simps) (simp add: Let_def)
  also have "\<dots> = Inr 3" using at(3) by (subst scan_unquoted_loop.simps) (simp add: Let_def)
  finally show ?thesis by (simp add: scan_unquoted_string_def)
qed


end
