(* ===== verification/Spec2Isabelle.thy ===== *)
theory Spec2Isabelle
  imports Metrics_Format Logger_Loki Json_Props Database_Rows Database_Threads WebServer_Api Pqxx_Array_Text
begin

text \<open>
  A model of the computer service system and its correctness theorems.

  The program. \<open>src/main.cpp\<close> builds a \<open>WebServer\<close> from a JSON configuration file and runs it. The server
  (\<open>src/webserver.cpp\<close>) registers routes with the HTTP framework Crow; the handlers parse and print
  JSON (\<open>include/nlohmann/json.hpp\<close>), call the database layer (\<open>src/database.cpp\<close>, over libpqxx and
  libpq to PostgreSQL), count what they do in the singleton \<open>MetricsRegistry\<close> (\<open>src/metrics.h\<close>), whose
  content \<open>/metrics\<close> prints for Prometheus, and write log lines to a console, a file and Loki through
  the singleton \<open>Logger\<close> (\<open>src/logger.h\<close>).

  Theories and sources.

  \<^item> \<open>Prelude\<close>: decimal printing, \<open>std::map\<close> and \<open>std::unordered_map\<close> as association lists, results as sums.
    \<open>Double\<close>: the type \<open>double\<close> as a rational number, an infinity or NaN, with round-to-nearest-even.
  \<^item> \<open>Metrics\<close>: \<open>Labels\<close>, \<open>Counter\<close>, \<open>Histogram\<close> and \<open>MetricsRegistry\<close> of \<open>metrics.h\<close> as records with one
    definition per member function, and the atomic steps of the recording calls. \<open>Metrics_Props\<close>: each
    counter is the exact number of recorded events (up to \<open>2 ^ 53\<close>), for sequences of calls and for
    every interleaving of threads; the class invariant; the request histogram. \<open>Metrics_Format\<close>: the
    registered series and the exposition text.
  \<^item> \<open>Logger\<close>: \<open>Logger\<close> of \<open>logger.h\<close> with its sinks. \<open>Logger_Props\<close>: the lines each sink gets, the escaping
    loop, \<open>init\<close>. \<open>Logger_Loki\<close>: the Loki request body against the JSON parser.
  \<^item> \<open>Json_Lexer\<close>, \<open>Json_Parser\<close>: the scanner, the DOM parser with its stack and its exceptions, and
    element access. \<open>Json_Grammar\<close>: the grammar of RFC 8259 as an inductive relation between a text and
    the value it denotes; \<open>Json_Scan\<close>, \<open>Json_Scan_Number\<close>: what the scanner does on the words of the grammar;
    \<open>Json_Complete\<close> and \<open>Json_Sound\<close>: every document is parsed to its value, and every text that is parsed
    is a document. \<open>Json_Serializer\<close>: \<open>dump\<close> in all its formats, with the indentation string, the
    table-driven UTF-8 decoder and the integer printer. \<open>Json_Dtoa\<close>: Grisu2 on 64-bit words. \<open>Json_Text\<close>, \<open>Json_Buffer\<close>: integers and strings are
    written as the reference definitions say, within the buffer. \<open>Json_Grisu\<close>, \<open>Json_Powers\<close>,
    \<open>Json_Grisu_Correct\<close>, \<open>Json_Float\<close>: what Grisu2 computes, the table of powers checked against exact
    powers of ten, the digits lie in the rounding interval, and the text of a double reads back as
    the double. \<open>Json_Values\<close>, \<open>Json_Roundtrip\<close>, \<open>Json_Dump\<close>, \<open>Json_Props\<close>: the invariant of parsed values;
    what is dumped, in every format, is a document of the grammar for the same value, so dumping and
    parsing are inverse to each other.
  \<^item> \<open>Pqxx\<close>, \<open>Pqxx_Strconv\<close>: connections, results, the class \<open>work\<close> with its registration and its commit
    protocol, and the conversions of the vendored libpqxx. \<open>Database\<close>: every operation of \<open>database.cpp\<close>.
    \<open>Pqxx_Double\<close>, \<open>Database_Rows\<close>: doubles survive the way through SQL text, and what a write of a record
    sends is what a read converts back. \<open>Database_Props\<close>: each operation returns the connection, sends
    the commands it should with the result they decide, and fails on a busy connection.
    \<open>Database_Atomic\<close>: writes against an abstract transactional store. \<open>Database_Threads\<close>: the
    operations cut into steps that the threads of Crow interleave, among them the check and the
    assignment of a registration, and what goes wrong then.
  \<^item> \<open>Pqxx_Encodings\<close>: the glyph scanners of libpqxx for the client encodings, against the forms of the
    characters. \<open>Pqxx_Arrays\<close>: the parser of SQL arrays; it stays within the text and gets to its end.
    \<open>Pqxx_Array_Text\<close>: how arrays are written, and that the parser reads them back.
  \<^item> \<open>WebServer\<close>: construction, each handler as a function from request and server state to response or
    exception and new state, the routes. \<open>WebServer_Props\<close>, \<open>WebServer_Login\<close>, \<open>WebServer_Requests\<close>,
    \<open>WebServer_Api\<close>: the outcome of the handlers on every path, their metrics, sequences of requests,
    start-up, and what a client parses from the answers.

  How the model corresponds to the code. A class is a record and a member function a definition from
  the old object to the new one; an exception is the \<open>Inl\<close> value of a sum; undefined behaviour is the
  value \<open>None\<close> or the exception \<open>Undefined\<close>, which no handler catches. Integers of C++ keep their width
  where the code depends on it: the words of \<open>Json_Dtoa\<close>, the narrowing of \<open>get_int\<close>, the buffers of the
  integer printers. Loops are recursive functions with a termination proof, by the input that is left
  for the scanner and by a measure on scanner and stack for the parser. The loops of Grisu2 have no
  syntactic bound: they are \<open>partial_function\<close>s, and \<open>grisu2_correct\<close> shows that they return for every
  double. The only other fuel is in \<open>Database_Threads\<close>, where an operation takes at most seven steps.

  What is assumed. The environment is an argument of the definitions that use it: \<open>libpq\<close> (the functions
  of libpq with the server behind them, arbitrary in most theorems), \<open>env\<close> (clock, files, curl), the
  iteration order of unordered maps. Theorems about committed data assume the documented behaviour of
  PostgreSQL transactions (\<open>Database_Atomic\<close>, with an instance): of BEGIN, COMMIT and ROLLBACK, and of
  INSERT, UPDATE and DELETE between them, on a database that this session alone writes to. In
  \<open>Database_Threads\<close> one call into libpq is one step; libpq does not promise even that for a shared
  connection, so the anomalies shown there exist a fortiori. The locale is ``C''; assertions are compiled out as in the release build.

  Locales. \<open>counter_store\<close> (a store of event counters, interpreted by \<open>count_event\<close>), \<open>work_block\<close> (the
  body of a transaction, interpreted by the bodies of the database operations), \<open>db_call\<close> (a call a
  handler makes, interpreted by the operations of \<open>Database\<close>) and \<open>ascii_safe\<close> (an encoding whose ASCII
  bytes are ASCII characters, interpreted by the single-byte encodings and UTF-8).

  Not modelled. The sign of zero, except in \<open>to_chars\<close>, which takes the sign bit as an argument, and the
  payload of NaN; calls of the logger that race with its setters; what Crow does once \<open>run\<close> has handed
  control to it; notices and notifications that libpqxx passes
  on; binary and discarded JSON values, which only the binary formats and parser callbacks make; the
  parts of json.hpp and libpqxx that the program does not call (binary formats, pointers,
  patches, iterators; cursors, pipelines, streams, large objects, prepared statements); Crow itself,
  which the build fetches; the static front end, containers and test scripts.
\<close>

end
